(* ===== verification/Prelude.thy ===== *)
theory Prelude
  imports Main "HOL-Library.Word"
begin

text \<open>
  Shared vocabulary of the development: the machine types of the C++ sources on the two
  32-bit little-endian ABIs the build file names (\<^verbatim>\<open>armeabi-v7a\<close> and \<^verbatim>\<open>x86\<close> in
  \<^verbatim>\<open>Application.mk\<close>, so \<^verbatim>\<open>size_t\<close> has 32 bits), the generic facts on lists and words the
  components share, and the collections that carry the component proofs.
\<close>

unbundle bit_operations_syntax

type_synonym byte = "8 word"
type_synonym u16 = "16 word"
type_synonym u32 = "32 word"
type_synonym size_t = "32 word"
type_synonym bytes = "byte list"

named_theorems seg_defs "definitions of the operations of Segment"
named_theorems seg_simps "accessors of a segment after an operation"

section \<open>Bytes\<close>

text \<open>High and low byte of a 16-bit quantity, as the code writes them to the wire.\<close>

definition byte_hi :: "nat \<Rightarrow> byte" where
  "byte_hi n = word_of_nat (n div 256)"

definition byte_lo :: "nat \<Rightarrow> byte" where
  "byte_lo n = word_of_nat n"

definition from_hi_lo :: "byte \<Rightarrow> byte \<Rightarrow> nat" where
  "from_hi_lo h l = unat h * 256 + unat l"

lemma from_hi_lo_bytes [simp]: "n < 65536 \<Longrightarrow> from_hi_lo (byte_hi n) (byte_lo n) = n"
proof -
  assume n: "n < 65536"
  then have "n div 256 < 256" by (simp add: less_mult_imp_div_less)
  then have "unat (byte_hi n) = n div 256"
    by (simp add: byte_hi_def unat_of_nat take_bit_eq_mod)
  moreover have "unat (byte_lo n) = n mod 256"
    by (simp add: byte_lo_def unat_of_nat take_bit_eq_mod)
  ultimately show ?thesis by (simp add: from_hi_lo_def)
qed

lemma from_hi_lo_less: "from_hi_lo h l < 65536"
proof -
  have "unat h < 256" "unat l < 256" using unsigned_less [of h] unsigned_less [of l] by simp_all
  then show ?thesis unfolding from_hi_lo_def by linarith
qed

section \<open>Copying into an array\<close>

text \<open>\<open>blit d off src\<close> is the array \<open>d\<close> after \<^verbatim>\<open>memcpy(d + off, src, length src)\<close>.\<close>

definition blit :: "'a list \<Rightarrow> nat \<Rightarrow> 'a list \<Rightarrow> 'a list" where
  "blit d off src = take off d @ src @ drop (off + length src) d"

lemma length_blit [simp]: "off + length src \<le> length d \<Longrightarrow> length (blit d off src) = length d"
  by (simp add: blit_def)

lemma take_blit:
  "off \<le> length d \<Longrightarrow> take (off + length src) (blit d off src) = take off d @ src"
  by (simp add: blit_def)

lemma drop_take_append:
  "p \<le> n \<Longrightarrow> n \<le> length d \<Longrightarrow> drop p (take n d @ xs) = drop p (take n d) @ xs"
  by simp

section \<open>Words\<close>

lemma unat_word_of_nat [simp]:
  "n < 2 ^ LENGTH('a) \<Longrightarrow> unat (word_of_nat n :: 'a::len word) = n"
  by (simp add: unat_of_nat take_bit_eq_mod)

lemma unat_add_small:
  "unat a + unat b < 2 ^ LENGTH('a) \<Longrightarrow> unat (a + b :: 'a::len word) = unat a + unat b"
  by (simp add: unat_word_ariths)

lemma unat_sub_le: "b \<le> a \<Longrightarrow> unat (a - b :: 'a::len word) = unat a - unat b"
  by (simp add: unat_sub)

lemma unat_byte_less [simp]: "unat (b :: byte) < 256"
proof -
  have "unat b < 2 ^ LENGTH(8)" by (rule unsigned_less)
  then show ?thesis by simp
qed

lemma unat_byte_div_16: "unat (b :: byte) div 16 < 16"
  by (simp add: less_mult_imp_div_less)

end
