(* ===== verification/Coders.thy ===== *)
theory Coders
  imports Prelude
begin

text \<open>
  \<^verbatim>\<open>core/cipher/ShiftCoder.cpp\<close> and \<^verbatim>\<open>core/cipher/PaddingCoder.cpp\<close>, the two implementations of the
  interface \<^verbatim>\<open>ICoder\<close>. A coder reads \<^verbatim>\<open>len\<close> bytes at \<^verbatim>\<open>data\<close> (the list) and writes to \<^verbatim>\<open>out\<close>,
  which has room for \<^verbatim>\<open>size\<close> (here \<open>room\<close>) bytes; the result list is what was written and its length the
  returned number, so \<open>[]\<close> is the failure value 0. \<open>rnd k\<close> is the \<open>k\<close>-th value of \<^verbatim>\<open>rand()\<close>
  after the \<^verbatim>\<open>srand\<close> of the call; the theorems hold for every such sequence. Lengths are
  natural numbers: arrays of a 32-bit process stay below \<open>2 ^ 31\<close> bytes, so no sum of a length
  and a constant of this file wraps.
\<close>

text \<open>
  \<^verbatim>\<open>decode\<close> returns the decoded length, 0 on failure, and the shift coder's \<^verbatim>\<open>len - 1\<close> on an empty
  input: that read of \<^verbatim>\<open>data[0]\<close> is past the input and the result depends on what an earlier
  call left in the buffer. \<open>Underflow\<close> is that outcome.
\<close>

datatype decoded = Decoded bytes | DecodeFailed | Underflow

section \<open>ShiftCoder\<close>

text \<open>The byte expressions of the loops, with the promotion to 32 bits and the truncation back.\<close>

definition shift_left_byte :: "byte \<Rightarrow> nat \<Rightarrow> byte" where
  "shift_left_byte d sh = ucast (push_bit sh (ucast d :: u32) OR drop_bit (8 - sh) (ucast d :: u32))"

definition shift_right_byte :: "byte \<Rightarrow> nat \<Rightarrow> byte" where
  "shift_right_byte d sh = ucast (drop_bit sh (ucast d :: u32) OR push_bit (8 - sh) (ucast d :: u32))"

definition next_shift :: "nat \<Rightarrow> nat" where
  "next_shift sh = (if sh + 1 > 7 then 0 else sh + 1)"

fun shift_enc_loop :: "nat \<Rightarrow> bytes \<Rightarrow> bytes" where
  "shift_enc_loop sh [] = []"
| "shift_enc_loop sh (d # ds) = shift_left_byte d sh # shift_enc_loop (next_shift sh) ds"

fun shift_dec_loop :: "nat \<Rightarrow> bytes \<Rightarrow> bytes" where
  "shift_dec_loop sh [] = []"
| "shift_dec_loop sh (d # ds) = shift_right_byte d sh # shift_dec_loop (next_shift sh) ds"

definition shift_encode :: "(nat \<Rightarrow> nat) \<Rightarrow> bytes \<Rightarrow> nat \<Rightarrow> bytes" where
  "shift_encode rnd data room =
     (let shift = rnd 0 mod 8
      in if room \<le> length data then []
         else word_of_nat shift # shift_enc_loop shift data)"

definition shift_decode :: "bytes \<Rightarrow> decoded" where
  "shift_decode data =
     (case data of
        [] \<Rightarrow> Underflow
      | shift # ds \<Rightarrow> if shift > 7 then DecodeFailed
                      else Decoded (shift_dec_loop (unat shift) ds))"

definition shift_encodeLen :: "nat \<Rightarrow> nat" where
  "shift_encodeLen len = len + 1"

section \<open>PaddingCoder\<close>

definition MAX_SECTION_SIZE :: nat where
  "MAX_SECTION_SIZE = 1024"

definition paddingRange :: "nat \<Rightarrow> nat" where
  "paddingRange len = (if len > MAX_SECTION_SIZE then 2 else MAX_SECTION_SIZE - len)"

text \<open>The range clamped to the room left, and the padding drawn from it with the number of
  random values used up.\<close>

definition clampedRange :: "nat \<Rightarrow> nat \<Rightarrow> nat" where
  "clampedRange len room =
     (if paddingRange len > room - len - 2 then room - len - 2 else paddingRange len)"

definition drawPadding :: "(nat \<Rightarrow> nat) \<Rightarrow> nat \<Rightarrow> nat \<times> nat" where
  "drawPadding rnd rg = (if rg > 0 then (rnd 0 mod rg + 1, 1) else (0, 0))"

definition padding_encode :: "(nat \<Rightarrow> nat) \<Rightarrow> bytes \<Rightarrow> nat \<Rightarrow> bytes" where
  "padding_encode rnd data room =
     (let len = length data
      in if len + 3 \<ge> room then []
         else
           let (padding, k) = drawPadding rnd (clampedRange len room)
           in byte_hi padding # byte_lo padding
                # map (\<lambda>i. word_of_nat (rnd (k + i) mod 256)) [0..<padding] @ data)"

text \<open>
  On fewer than two bytes the header read is past the input, but \<^verbatim>\<open>len - padding - 2\<close> is negative
  whatever was read.
\<close>

definition padding_decode :: "bytes \<Rightarrow> decoded" where
  "padding_decode data =
     (case data of
        h # l # ds \<Rightarrow>
          (let padding = from_hi_lo h l
           in if length data < padding + 2 then DecodeFailed else Decoded (drop padding ds))
      | _ \<Rightarrow> DecodeFailed)"

definition padding_encodeLen :: "nat \<Rightarrow> nat" where
  "padding_encodeLen len = paddingRange len + len"

section \<open>The virtual calls\<close>

text \<open>\<^verbatim>\<open>enum CODER_TYPE\<close> and dispatch through the \<^verbatim>\<open>ICoder\<close> pointer.\<close>

datatype coder_type = PADDING | SHIFT

fun coder_id :: "coder_type \<Rightarrow> byte" where
  "coder_id PADDING = 1"
| "coder_id SHIFT = 2"

fun coder_encode :: "coder_type \<Rightarrow> (nat \<Rightarrow> nat) \<Rightarrow> bytes \<Rightarrow> nat \<Rightarrow> bytes" where
  "coder_encode PADDING = padding_encode"
| "coder_encode SHIFT = shift_encode"

fun coder_decode :: "coder_type \<Rightarrow> bytes \<Rightarrow> decoded" where
  "coder_decode PADDING = padding_decode"
| "coder_decode SHIFT = shift_decode"

fun coder_encodeLen :: "coder_type \<Rightarrow> nat \<Rightarrow> nat" where
  "coder_encodeLen PADDING = padding_encodeLen"
| "coder_encodeLen SHIFT = shift_encodeLen"

section \<open>The contract of a coder\<close>

text \<open>
  \<open>grow n\<close> bounds the growth of an \<open>n\<close>-byte input. Four bytes of room beyond the input are
  enough for either coder.
\<close>

locale coder =
  fixes enc :: "(nat \<Rightarrow> nat) \<Rightarrow> bytes \<Rightarrow> nat \<Rightarrow> bytes"
    and dec :: "bytes \<Rightarrow> decoded"
    and grow :: "nat \<Rightarrow> nat"
  assumes dec_enc: "length xs + 4 \<le> room \<Longrightarrow> dec (enc rnd xs room) = Decoded xs"
    and enc_grow: "length xs + 4 \<le> room \<Longrightarrow>
      length (enc rnd xs room) \<le> length xs + grow (length xs)"
    and dec_shrinks: "dec ys = Decoded xs \<Longrightarrow> length xs < length ys"
begin

lemma enc_longer: "length xs + 4 \<le> room \<Longrightarrow> length xs < length (enc rnd xs room)"
  using dec_enc dec_shrinks by blast

lemma enc_nonempty: "length xs + 4 \<le> room \<Longrightarrow> enc rnd xs room \<noteq> []"
  using enc_longer [of xs room rnd] by auto

lemma enc_unambiguous:
  "enc rnd xs room = enc rnd' ys room' \<Longrightarrow> length xs + 4 \<le> room \<Longrightarrow> length ys + 4 \<le> room' \<Longrightarrow> xs = ys"
  using dec_enc by (metis decoded.inject)

end

section \<open>The shift coder satisfies it\<close>

lemma next_shift_less [simp]: "sh < 8 \<Longrightarrow> next_shift sh < 8"
  by (simp add: next_shift_def)

lemma shift_right_left: "sh < 8 \<Longrightarrow> shift_right_byte (shift_left_byte d sh) sh = d"
  unfolding shift_left_byte_def shift_right_byte_def
  by (rule bit_word_eqI)
    (auto simp: bit_simps dest: bit_imp_le_length)

lemma shift_dec_enc_loop: "sh < 8 \<Longrightarrow> shift_dec_loop sh (shift_enc_loop sh ds) = ds"
  by (induction ds arbitrary: sh) (simp_all add: shift_right_left)

lemma length_shift_enc_loop [simp]: "length (shift_enc_loop sh ds) = length ds"
  by (induction ds arbitrary: sh) simp_all

lemma length_shift_dec_loop [simp]: "length (shift_dec_loop sh ds) = length ds"
  by (induction ds arbitrary: sh) simp_all

lemma shift_encode_Cons:
  "length xs < room \<Longrightarrow> shift_encode rnd xs room =
     word_of_nat (rnd 0 mod 8) # shift_enc_loop (rnd 0 mod 8) xs"
  by (simp add: shift_encode_def Let_def)

lemma shift_dec_enc: "length xs < room \<Longrightarrow> shift_decode (shift_encode rnd xs room) = Decoded xs"
proof -
  assume "length xs < room"
  moreover have "unat (word_of_nat (rnd 0 mod 8) :: byte) = rnd 0 mod 8"
    by (rule unat_word_of_nat) (use mod_less_divisor [of 8 "rnd 0"] in simp)
  ultimately show ?thesis
    by (simp add: shift_encode_Cons shift_decode_def word_less_nat_alt shift_dec_enc_loop
      mod_less_divisor not_less del: mod_less_divisor)
qed

interpretation shift: coder shift_encode shift_decode "\<lambda>n. 1"
proof unfold_locales
  show "shift_decode (shift_encode rnd xs room) = Decoded xs" if "length xs + 4 \<le> room" for xs room rnd
    using that by (intro shift_dec_enc) simp
  show "length (shift_encode rnd xs room) \<le> length xs + 1" if "length xs + 4 \<le> room" for xs room rnd
    using that by (simp add: shift_encode_Cons)
  show "length xs < length ys" if "shift_decode ys = Decoded xs" for ys xs
    using that by (auto simp: shift_decode_def split: list.splits if_splits)
qed

section \<open>The padding coder satisfies it\<close>

lemma paddingRange_le: "paddingRange len \<le> 1024"
  by (simp add: paddingRange_def MAX_SECTION_SIZE_def)

lemma clampedRange_le: "clampedRange len room \<le> paddingRange len"
  by (simp add: clampedRange_def)

lemma drawPadding_le: "drawPadding rnd rg = (p, k) \<Longrightarrow> p \<le> rg"
  by (auto simp: drawPadding_def Suc_le_eq split: if_splits)

text \<open>The padding chosen, its bytes and the layout of the output.\<close>

lemma padding_encode_layout:
  assumes "length xs + 4 \<le> room"
  obtains pad where "padding_encode rnd xs room =
      byte_hi (length pad) # byte_lo (length pad) # pad @ xs"
    and "length pad \<le> paddingRange (length xs)"
proof -
  obtain p k where pk: "drawPadding rnd (clampedRange (length xs) room) = (p, k)"
    by (cases "drawPadding rnd (clampedRange (length xs) room)")
  then have "p \<le> paddingRange (length xs)"
    using drawPadding_le clampedRange_le order.trans by blast
  then show thesis
    using assms pk that [of "map (\<lambda>i. word_of_nat (rnd (k + i) mod 256)) [0..<p]"]
    by (simp add: padding_encode_def Let_def)
qed

lemma padding_decode_layout:
  "length pad < 65536 \<Longrightarrow>
   padding_decode (byte_hi (length pad) # byte_lo (length pad) # pad @ xs) = Decoded xs"
  by (simp add: padding_decode_def)

interpretation padding: coder padding_encode padding_decode "\<lambda>n. paddingRange n + 2"
proof unfold_locales
  fix xs :: bytes and room :: nat and rnd
  assume "length xs + 4 \<le> room"
  then obtain pad where pad: "padding_encode rnd xs room =
      byte_hi (length pad) # byte_lo (length pad) # pad @ xs" "length pad \<le> paddingRange (length xs)"
    by (rule padding_encode_layout)
  then have "length pad < 65536" using paddingRange_le [of "length xs"] by simp
  with pad show "padding_decode (padding_encode rnd xs room) = Decoded xs"
    by (simp add: padding_decode_layout)
  from pad show "length (padding_encode rnd xs room) \<le> length xs + (paddingRange (length xs) + 2)"
    by simp
next
  show "length xs < length ys" if "padding_decode ys = Decoded xs" for ys xs
    using that by (auto simp: padding_decode_def Let_def split: list.splits if_splits)
qed

text \<open>What \<^verbatim>\<open>encodeLen\<close> leaves out: the two bytes of the padding header.\<close>

lemma padding_encode_le_encodeLen:
  "length xs + 4 \<le> room \<Longrightarrow> length (padding_encode rnd xs room) \<le> padding_encodeLen (length xs) + 2"
  using padding.enc_grow [of xs room rnd] by (simp add: padding_encodeLen_def)

lemma padding_encode_max:
  assumes "length xs + 4 \<le> room" "paddingRange (length xs) \<le> room - length xs - 2"
    and "paddingRange (length xs) > 0" "rnd 0 mod paddingRange (length xs) = paddingRange (length xs) - 1"
  shows "length (padding_encode rnd xs room) = padding_encodeLen (length xs) + 2"
  using assms by (simp add: padding_encode_def Let_def padding_encodeLen_def drawPadding_def clampedRange_def)

end
