(* ===== verification/Cipher.thy ===== *)
theory Cipher
  imports Coders
begin

text \<open>
  \<^verbatim>\<open>core/cipher/Cipher.h\<close> and \<^verbatim>\<open>core/cipher/Cipher.cpp\<close>: the framing between the client and
  its proxy. \<^verbatim>\<open>encrypt\<close> puts the terminator 0 in front of the plain text, runs it through the
  coders of \<^verbatim>\<open>mCodes\<close>, each adding its id in front, and packs the parcel into sections of at
  most 1024 bytes with a two-byte length; a section shorter than 1024 ends the parcel.
  \<^verbatim>\<open>decrypt\<close> unpacks as many whole parcels as the input holds and peels the coders off by
  their ids. Pointers are byte lists, so the null checks have no counterpart; a returned
  length is the length of the result, and an advanced pointer is the list of the bytes left.
\<close>

definition MAX_ENCRYPT_SIZE :: nat where
  "MAX_ENCRYPT_SIZE = 4096"

definition MAX_PARCEL_SIZE :: nat where
  "MAX_PARCEL_SIZE = 8192"

definition CIPHER_BUFFER_SIZE :: nat where
  "CIPHER_BUFFER_SIZE = MAX_PARCEL_SIZE"

lemmas cipher_sizes = MAX_ENCRYPT_SIZE_def MAX_PARCEL_SIZE_def CIPHER_BUFFER_SIZE_def MAX_SECTION_SIZE_def

definition mCodes :: bytes where
  "mCodes = [coder_id SHIFT, coder_id PADDING]"

text \<open>\<^verbatim>\<open>getCoder\<close>: the coder objects are created on first use and stateless.\<close>

definition getCoder :: "byte \<Rightarrow> coder_type option" where
  "getCoder cid =
     (if 0 < cid \<and> cid < 3
      then (if cid = coder_id PADDING then Some PADDING
            else if cid = coder_id SHIFT then Some SHIFT else None)
      else None)"

definition estimatePackLen :: "nat \<Rightarrow> nat" where
  "estimatePackLen len = len + ((len + MAX_SECTION_SIZE) div MAX_SECTION_SIZE) * 2 + 2"

fun estimate_layers :: "bytes \<Rightarrow> nat \<Rightarrow> nat" where
  "estimate_layers [] len = len"
| "estimate_layers (c # cs) len =
     (case getCoder c of
        None \<Rightarrow> estimate_layers cs len
      | Some k \<Rightarrow> estimate_layers cs (coder_encodeLen k len + 1))"

definition estimateEncryptLen :: "nat \<Rightarrow> nat" where
  "estimateEncryptLen len = estimatePackLen (estimate_layers mCodes (len + 1))"

definition estimateDecryptLen :: "nat \<Rightarrow> nat" where
  "estimateDecryptLen len = len"

section \<open>Sections\<close>

text \<open>The loop of \<^verbatim>\<open>pack\<close>: what it writes, and the value of \<^verbatim>\<open>l\<close> when it ends.\<close>

function pack_loop :: "bytes \<Rightarrow> nat \<Rightarrow> bytes \<times> nat" where
  "pack_loop s l =
     (if s = [] then ([], l)
      else
        let l' = (if length s < MAX_SECTION_SIZE then length s else MAX_SECTION_SIZE);
            (t, l'') = pack_loop (drop l' s) l'
        in (byte_hi l' # byte_lo l' # take l' s @ t, l''))"
  by pat_completeness auto
termination
  by (relation "measure (\<lambda>(s, l). length s)") (auto simp: MAX_SECTION_SIZE_def)

declare pack_loop.simps [simp del]

definition pack :: "bytes \<Rightarrow> nat \<Rightarrow> bytes" where
  "pack data room =
     (if length data = 0 \<or> room < length data then []
      else if estimatePackLen (length data) > room then []
      else
        let (t, l) = pack_loop data 0
        in if l = MAX_SECTION_SIZE then t @ [0, 0] else t)"

text \<open>
  The loop of \<^verbatim>\<open>unpack\<close>: \<open>s\<close> are the bytes left, \<open>t\<close> those copied out, \<open>room\<close> is \<^verbatim>\<open>sizet\<close>. The
  result is the parcel and the bytes after it; \<^term>\<open>None\<close> is the return of 0 with the
  pointer left where it was.
\<close>

function unpack_loop :: "bytes \<Rightarrow> bytes \<Rightarrow> nat \<Rightarrow> (bytes \<times> bytes) option" where
  "unpack_loop s t room =
     (case s of
        h # lo # s1 \<Rightarrow>
          let l = from_hi_lo h lo
          in if l > MAX_SECTION_SIZE then None
             else if l > 0 \<and> l > length s1 then None
             else if l > 0 \<and> room < l then None
             else if l \<noteq> MAX_SECTION_SIZE then Some (t @ take l s1, drop l s1)
             else unpack_loop (drop l s1) (t @ take l s1) (room - l)
      | _ \<Rightarrow> None)"
  by pat_completeness auto
termination
  by (relation "measure (\<lambda>(s, t, room). length s)") auto

declare unpack_loop.simps [simp del]

definition unpack :: "bytes \<Rightarrow> nat \<Rightarrow> (bytes \<times> bytes) option" where
  "unpack data room = (if data = [] then None else unpack_loop data [] room)"

section \<open>Encryption\<close>

text \<open>
  The loop over \<^verbatim>\<open>mCodes\<close>; \<open>rnds i\<close> is the random sequence of the \<open>i\<close>-th coder call. When a
  coder fails, \<^verbatim>\<open>l\<close> is 1 and the loop ends, so the first byte of the previous stage is packed.
\<close>

fun encode_layers :: "(nat \<Rightarrow> nat \<Rightarrow> nat) \<Rightarrow> nat \<Rightarrow> bytes \<Rightarrow> bytes \<Rightarrow> bytes" where
  "encode_layers rnds i [] s = s"
| "encode_layers rnds i (c # cs) s =
     (case getCoder c of
        None \<Rightarrow> encode_layers rnds i cs s
      | Some k \<Rightarrow>
          let e = coder_encode k (rnds i) s (CIPHER_BUFFER_SIZE - 1)
          in if length e + 1 \<le> 1 then take 1 s else encode_layers rnds (Suc i) cs (c # e))"

text \<open>The result: how far \<^verbatim>\<open>*origin\<close> moved, and the output.\<close>

definition encrypt :: "(nat \<Rightarrow> nat \<Rightarrow> nat) \<Rightarrow> bytes \<Rightarrow> nat \<Rightarrow> nat \<times> bytes" where
  "encrypt rnds origin room =
     (if length origin = 0 \<or> room = 0 then (0, [])
      else
        let len = (if length origin > MAX_ENCRYPT_SIZE then MAX_ENCRYPT_SIZE else length origin)
        in if len > CIPHER_BUFFER_SIZE then (0, [])
           else if estimateEncryptLen len > room then (0, [])
           else (len, pack (encode_layers rnds 0 mCodes (0 # take len origin)) room))"

section \<open>Decryption\<close>

text \<open>The inner loop of \<^verbatim>\<open>decrypt\<close> on one parcel: the bytes at \<^verbatim>\<open>s\<close> when it breaks, or the
  \<^verbatim>\<open>return 0\<close>.\<close>

datatype peeled = Peeled bytes | PeelFailed | PeelUnderflow

lemma coder_decode_shrinks: "coder_decode k ys = Decoded xs \<Longrightarrow> length xs < length ys"
  by (cases k) (auto intro: shift.dec_shrinks padding.dec_shrinks)

function peel :: "bytes \<Rightarrow> peeled" where
  "peel s =
     (case s of
        [] \<Rightarrow> Peeled []
      | cid # s1 \<Rightarrow>
          if cid = 0 then Peeled s1
          else (case getCoder cid of
                  None \<Rightarrow> Peeled s1
                | Some k \<Rightarrow>
                    (case coder_decode k s1 of
                       DecodeFailed \<Rightarrow> PeelFailed
                     | Underflow \<Rightarrow> PeelUnderflow
                     | Decoded d \<Rightarrow> if d = [] then PeelFailed else peel d)))"
  by pat_completeness auto
termination
  by (relation "measure length") (auto dest: coder_decode_shrinks)

declare peel.simps [simp del]

text \<open>
  \<^verbatim>\<open>decrypt\<close> returns the output and the bytes left at \<^verbatim>\<open>*data\<close>. \<open>DecryptUnderflow\<close> is the run in
  which a decoded length of \<^verbatim>\<open>len - 1 = 2 ^ 32 - 1\<close> can enter the loop.
\<close>

datatype decrypt_result = DecryptOut bytes bytes | DecryptUnderflow

lemma unpack_loop_shorter: "unpack_loop s t room = Some (p, rest) \<Longrightarrow> length rest < length s"
proof (induction s t room rule: unpack_loop.induct)
  case (1 s t room)
  from "1.prems" obtain h lo s1 where s: "s = h # lo # s1"
    by (subst (asm) unpack_loop.simps) (auto split: list.splits)
  show ?case
  proof (cases "from_hi_lo h lo = MAX_SECTION_SIZE \<and> MAX_SECTION_SIZE \<le> length s1 \<and> MAX_SECTION_SIZE \<le> room")
    case True
    then have "unpack_loop (drop MAX_SECTION_SIZE s1) (t @ take MAX_SECTION_SIZE s1) (room - MAX_SECTION_SIZE)
        = Some (p, rest)"
      using "1.prems" s by (subst (asm) unpack_loop.simps) (simp add: MAX_SECTION_SIZE_def)
    then have "length rest < length (drop MAX_SECTION_SIZE s1)"
      using "1.IH" [OF s refl refl] True by (auto simp: MAX_SECTION_SIZE_def)
    then show ?thesis using s by simp
  next
    case False
    then show ?thesis using "1.prems" s
      by (subst (asm) unpack_loop.simps)
        (auto simp: Let_def MAX_SECTION_SIZE_def split: if_splits)
  qed
qed

lemma unpack_shorter: "unpack s room = Some (p, rest) \<Longrightarrow> length rest < length s"
  by (auto simp: unpack_def intro: unpack_loop_shorter split: if_splits)

text \<open>The outer loop; \<open>data\<close> is the original pointer, which a failed decode leaves in place.\<close>

function decrypt_loop :: "bytes \<Rightarrow> nat \<Rightarrow> bytes \<Rightarrow> bytes \<Rightarrow> decrypt_result" where
  "decrypt_loop data room p1 out =
     (if p1 = [] then DecryptOut out p1
      else (case unpack p1 CIPHER_BUFFER_SIZE of
              None \<Rightarrow> DecryptOut out p1
            | Some (parcel, p2) \<Rightarrow>
                if parcel = [] then DecryptOut out p2
                else (case peel parcel of
                        PeelFailed \<Rightarrow> DecryptOut [] data
                      | PeelUnderflow \<Rightarrow> DecryptUnderflow
                      | Peeled d \<Rightarrow>
                          if length d > 0
                          then (if length out + length d < room
                                then decrypt_loop data room p2 (out @ d)
                                else DecryptOut out p2)
                          else DecryptOut out p2)))"
  by pat_completeness auto
termination
  by (relation "measure (\<lambda>(data, room, p1, out). length p1)") (auto dest: unpack_shorter)

declare decrypt_loop.simps [simp del]

definition decrypt :: "bytes \<Rightarrow> nat \<Rightarrow> decrypt_result" where
  "decrypt data room =
     (if length data = 0 \<or> room = 0 then DecryptOut [] data
      else if estimateDecryptLen (length data) > room then DecryptOut [] data
      else decrypt_loop data room data [])"

section \<open>Sections: unpack inverts pack\<close>

text \<open>The two zero bytes that end a parcel whose last section is full.\<close>

definition seal :: "bytes \<times> nat \<Rightarrow> bytes" where
  "seal p = (if snd p = MAX_SECTION_SIZE then fst p @ [0, 0] else fst p)"

lemma seal_pack_loop_Nil: "seal (pack_loop [] l) = (if l = MAX_SECTION_SIZE then [0, 0] else [])"
  by (simp add: seal_def pack_loop.simps)

lemma seal_pack_loop_Cons:
  assumes "s \<noteq> []" "l' = min (length s) MAX_SECTION_SIZE"
  shows "seal (pack_loop s l) =
    byte_hi l' # byte_lo l' # take l' s @ seal (pack_loop (drop l' s) l')"
proof -
  have l': "l' = (if length s < MAX_SECTION_SIZE then length s else MAX_SECTION_SIZE)"
    using assms(2) by (simp add: min_def)
  show ?thesis
    using assms(1) by (subst pack_loop.simps)
      (simp add: l' [symmetric] Let_def seal_def split: prod.split)
qed

text \<open>One section read back from the input.\<close>

lemma unpack_loop_section:
  assumes "n \<le> MAX_SECTION_SIZE"
  shows "unpack_loop (byte_hi n # byte_lo n # s1) t room =
    (if n > 0 \<and> (length s1 < n \<or> room < n) then None
     else if n \<noteq> MAX_SECTION_SIZE then Some (t @ take n s1, drop n s1)
     else unpack_loop (drop n s1) (t @ take n s1) (room - n))"
proof -
  have rd: "from_hi_lo (byte_hi n) (byte_lo n) = n"
    using assms by (simp add: MAX_SECTION_SIZE_def)
  show ?thesis
    using assms by (subst unpack_loop.simps, simp only: list.case Let_def rd) auto
qed

lemma unpack_loop_pack:
  "s \<noteq> [] \<or> l = MAX_SECTION_SIZE \<Longrightarrow> length s \<le> room \<Longrightarrow>
   unpack_loop (seal (pack_loop s l) @ ys) t room = Some (t @ s, ys)"
proof (induction s l arbitrary: t room rule: pack_loop.induct)
  case (1 s l)
  show ?case
  proof (cases "s = []")
    case True
    have "unpack_loop (byte_hi 0 # byte_lo 0 # ys) t room = Some (t, ys)"
      by (simp add: unpack_loop_section MAX_SECTION_SIZE_def)
    with True "1.prems" show ?thesis
      by (simp add: seal_pack_loop_Nil byte_hi_def byte_lo_def)
  next
    case False
    define n where "n = min (length s) MAX_SECTION_SIZE"
    have n: "n \<le> MAX_SECTION_SIZE" "n \<le> length s" "n > 0"
      using False by (auto simp: n_def MAX_SECTION_SIZE_def)
    have eq: "seal (pack_loop s l) @ ys =
        byte_hi n # byte_lo n # take n s @ seal (pack_loop (drop n s) n) @ ys"
      using seal_pack_loop_Cons [OF False n_def] by simp
    show ?thesis
    proof (cases "n = MAX_SECTION_SIZE")
      case True
      have "unpack_loop (seal (pack_loop (drop n s) n) @ ys) (t @ take n s) (room - n)
          = Some ((t @ take n s) @ drop n s, ys)"
        using "1.IH" [OF False refl, of "room - n" "t @ take n s"] True "1.prems"(2) n
        by (simp add: n_def min_def split: if_splits)
      then show ?thesis
        using eq True n "1.prems"(2) by (simp add: unpack_loop_section)
    next
      case full: False
      then have "n = length s" by (auto simp: n_def min_def split: if_splits)
      then show ?thesis
        using eq full n "1.prems"(2)
        by (simp add: unpack_loop_section seal_pack_loop_Nil)
    qed
  qed
qed

text \<open>A parcel that has not arrived completely is left alone.\<close>

lemma unpack_loop_short [simp]: "unpack_loop [] t room = None" "unpack_loop [b] t room = None"
  by (subst unpack_loop.simps, simp)+

lemma unpack_loop_prefix:
  "s \<noteq> [] \<or> l = MAX_SECTION_SIZE \<Longrightarrow> p @ q = seal (pack_loop s l) \<Longrightarrow> q \<noteq> [] \<Longrightarrow>
   unpack_loop p t room = None"
proof (induction s l arbitrary: p t room rule: pack_loop.induct)
  case (1 s l)
  define n where "n = min (length s) MAX_SECTION_SIZE"
  have n: "n \<le> MAX_SECTION_SIZE" by (simp add: n_def)
  define R where "R = (if s = [] then [] else seal (pack_loop (drop n s) n))"
  have eq: "p @ q = byte_hi n # byte_lo n # take n s @ R"
  proof (cases "s = []")
    case True
    with "1.prems"(1,2) show ?thesis
      by (simp add: seal_pack_loop_Nil n_def R_def byte_hi_def byte_lo_def)
  next
    case False
    with "1.prems"(2) show ?thesis using seal_pack_loop_Cons [OF False n_def] by (simp add: R_def)
  qed
  show ?case
  proof (cases "2 \<le> length p")
    case False
    then have "p = [] \<or> (\<exists>b. p = [b])"
      by (cases p) (auto simp: numeral_2_eq_2 not_le)
    then show ?thesis by auto
  next
    case True
    then obtain p1 where p: "p = byte_hi n # byte_lo n # p1"
      using eq by (cases p; cases "tl p") auto
    with eq have p1: "p1 @ q = take n s @ R" by simp
    show ?thesis
    proof (cases "n > 0 \<and> (length p1 < n \<or> room < n)")
      case True
      then show ?thesis using p n by (simp add: unpack_loop_section)
    next
      case False
      then have "n \<le> length p1" by (cases "n = 0") auto
      moreover have "length (take n s) = n" by (simp add: n_def)
      ultimately have rest: "drop n p1 @ q = R"
        using arg_cong [OF p1, of "drop n"] by simp
      with "1.prems"(3) have "R \<noteq> []" by auto
      then have full: "s \<noteq> []" "n = MAX_SECTION_SIZE"
        by (auto simp: R_def n_def seal_pack_loop_Nil min_def split: if_splits)
      have "unpack_loop (drop n p1) (t @ take n p1) (room - n) = None"
        using "1.IH" [OF full(1) refl, of "drop n p1" "t @ take n p1" "room - n"] rest "1.prems"(3) full
        by (simp add: R_def n_def min_def split: if_splits)
      then show ?thesis using p n full(2) False by (simp add: unpack_loop_section)
    qed
  qed
qed

section \<open>Parcels\<close>

text \<open>When there is room, \<open>pack\<close> writes the sealed sections and their size is exact.\<close>

lemma length_seal_pack_loop:
  "s \<noteq> [] \<or> l = MAX_SECTION_SIZE \<Longrightarrow>
   length (seal (pack_loop s l)) = length s + 2 * (length s div MAX_SECTION_SIZE + 1)"
proof (induction s l rule: pack_loop.induct)
  case (1 s l)
  show ?case
  proof (cases "s = []")
    case True
    with "1.prems" show ?thesis by (simp add: seal_pack_loop_Nil)
  next
    case False
    define n where "n = min (length s) MAX_SECTION_SIZE"
    note eq = seal_pack_loop_Cons [OF False n_def, of l]
    show ?thesis
    proof (cases "length s < MAX_SECTION_SIZE")
      case True
      then have "n = length s" "n \<noteq> MAX_SECTION_SIZE" by (simp_all add: n_def)
      then show ?thesis using True by (simp add: eq seal_pack_loop_Nil)
    next
      case full: False
      then have n: "n = MAX_SECTION_SIZE" by (simp add: n_def)
      then have "length (seal (pack_loop (drop n s) n))
          = length (drop n s) + 2 * (length (drop n s) div MAX_SECTION_SIZE + 1)"
        using "1.IH" [OF False refl] full by simp
      moreover have "length s div MAX_SECTION_SIZE = (length s - n) div MAX_SECTION_SIZE + 1"
        using full by (simp add: n le_div_geq MAX_SECTION_SIZE_def)
      ultimately show ?thesis using full n by (simp add: eq)
    qed
  qed
qed

lemma pack_eq_seal:
  "s \<noteq> [] \<Longrightarrow> estimatePackLen (length s) \<le> room \<Longrightarrow> pack s room = seal (pack_loop s 0)"
  by (auto simp: pack_def seal_def estimatePackLen_def split: prod.split)

lemma length_pack:
  "s \<noteq> [] \<Longrightarrow> estimatePackLen (length s) \<le> room \<Longrightarrow>
   length (pack s room) + 2 = estimatePackLen (length s)"
  using div_add_self2 [of MAX_SECTION_SIZE "length s"]
  by (simp add: pack_eq_seal length_seal_pack_loop estimatePackLen_def MAX_SECTION_SIZE_def)

lemma pack_nonempty: "s \<noteq> [] \<Longrightarrow> estimatePackLen (length s) \<le> room \<Longrightarrow> pack s room \<noteq> []"
  using length_seal_pack_loop [of s 0] by (auto simp: pack_eq_seal)

lemma unpack_pack_append:
  assumes "s \<noteq> []" "estimatePackLen (length s) \<le> room" "length s \<le> room'"
  shows "unpack (pack s room @ ys) room' = Some (s, ys)"
  using assms unpack_loop_pack [of s 0 room' ys "[]"] pack_nonempty [of s room]
  by (simp add: unpack_def pack_eq_seal)

lemma unpack_incomplete:
  assumes "s \<noteq> []" "estimatePackLen (length s) \<le> room" "p @ q = pack s room" "q \<noteq> []"
  shows "unpack p room' = None"
  using assms unpack_loop_prefix [of s 0 p q "[]" room']
  by (simp add: unpack_def pack_eq_seal)

lemma estimatePackLen_mono: "m \<le> n \<Longrightarrow> estimatePackLen m \<le> estimatePackLen n"
  by (simp add: estimatePackLen_def add_mono div_le_mono)

section \<open>The layers of a parcel\<close>

lemma getCoder_simps [simp]:
  "getCoder 0 = None" "getCoder 1 = Some PADDING" "getCoder 2 = Some SHIFT"
  by (simp_all add: getCoder_def)

lemma peel_terminator [simp]: "peel (0 # m) = Peeled m"
  by (simp add: peel.simps [of "0 # m"])

context coder
begin

text \<open>A layer put on by a coder is taken off by the inner loop of \<^verbatim>\<open>decrypt\<close>.\<close>

lemma peel_layer:
  assumes "getCoder c = Some k" "coder_decode k = dec" "xs \<noteq> []" "length xs + 4 \<le> room"
  shows "peel (c # enc rnd xs room) = peel xs"
proof -
  have "c \<noteq> 0" using assms(1) by auto
  then show ?thesis
    using assms dec_enc [OF assms(4), of rnd] by (simp add: peel.simps [of "c # enc rnd xs room"])
qed

end

text \<open>The parcel of a message before it is packed.\<close>

definition layered :: "(nat \<Rightarrow> nat \<Rightarrow> nat) \<Rightarrow> bytes \<Rightarrow> bytes" where
  "layered rnds m = encode_layers rnds 0 mCodes (0 # m)"

lemma layered_eq:
  assumes "length m \<le> MAX_ENCRYPT_SIZE"
  shows "layered rnds m =
    1 # padding_encode (rnds 1) (2 # shift_encode (rnds 0) (0 # m) 8191) 8191"
proof -
  let ?s = "shift_encode (rnds 0) (0 # m) 8191"
  have s: "?s \<noteq> []" "length ?s \<le> length m + 2"
    using shift.enc_nonempty [of "0 # m" 8191 "rnds 0"] shift.enc_grow [of "0 # m" 8191 "rnds 0"] assms
    by (simp_all add: cipher_sizes)
  then have "padding_encode (rnds 1) (2 # ?s) 8191 \<noteq> []"
    using padding.enc_nonempty [of "2 # ?s" 8191 "rnds 1"] assms by (simp add: cipher_sizes)
  with s show ?thesis
    by (simp add: layered_def mCodes_def Let_def cipher_sizes)
qed

lemma peel_layered:
  assumes "length m \<le> MAX_ENCRYPT_SIZE"
  shows "peel (layered rnds m) = Peeled m"
proof -
  let ?s = "shift_encode (rnds 0) (0 # m) 8191"
  have "length ?s \<le> length m + 2"
    using shift.enc_grow [of "0 # m" 8191 "rnds 0"] assms by (simp add: cipher_sizes)
  then have "peel (layered rnds m) = peel (2 # ?s)"
    using assms padding.peel_layer [of 1 PADDING "2 # ?s" 8191 "rnds 1"]
    by (simp add: layered_eq cipher_sizes)
  also have "\<dots> = peel (0 # m)"
    using assms shift.peel_layer [of 2 SHIFT "0 # m" 8191 "rnds 0"] by (simp add: cipher_sizes)
  finally show ?thesis by simp
qed

lemma length_layered:
  assumes "length m \<le> MAX_ENCRYPT_SIZE"
  shows "length m < length (layered rnds m)"
    and "length (layered rnds m) \<le> length m + paddingRange (length m + 3) + 6"
proof -
  let ?s = "shift_encode (rnds 0) (0 # m) 8191"
  have len: "length ?s = length m + 2"
    using assms by (simp add: shift_encode_Cons cipher_sizes)
  have room: "length (2 # ?s) + 4 \<le> 8191" using assms len by (simp add: cipher_sizes)
  show "length m < length (layered rnds m)"
    using assms padding.enc_longer [OF room, of "rnds 1"] len by (simp add: layered_eq)
  show "length (layered rnds m) \<le> length m + paddingRange (length m + 3) + 6"
    using assms padding.enc_grow [OF room, of "rnds 1"] len
    by (simp add: layered_eq numeral_3_eq_3)
qed

lemma length_layered_le: "length m \<le> MAX_ENCRYPT_SIZE \<Longrightarrow> length (layered rnds m) \<le> 4104"
  using length_layered(2) [of m rnds] by (auto simp: paddingRange_def cipher_sizes split: if_splits)

lemma layered_nonempty: "length m \<le> MAX_ENCRYPT_SIZE \<Longrightarrow> layered rnds m \<noteq> []"
  using length_layered(1) [of m rnds] by auto

lemma layered_fits:
  "length m \<le> MAX_ENCRYPT_SIZE \<Longrightarrow> estimatePackLen (length (layered rnds m)) \<le> 4116"
  using estimatePackLen_mono [OF length_layered_le [of m rnds]]
  by (simp add: estimatePackLen_def MAX_SECTION_SIZE_def)

text \<open>The frame \<^verbatim>\<open>encryptAndQueue\<close> puts on the wire: \<^verbatim>\<open>encrypt\<close> into a buffer of \<^verbatim>\<open>MAX_PARCEL_SIZE\<close>.\<close>

definition frame :: "(nat \<Rightarrow> nat \<Rightarrow> nat) \<Rightarrow> bytes \<Rightarrow> bytes" where
  "frame rnds m = snd (encrypt rnds m MAX_PARCEL_SIZE)"

lemma estimateEncryptLen_fits: "n \<le> MAX_ENCRYPT_SIZE \<Longrightarrow> estimateEncryptLen n \<le> MAX_PARCEL_SIZE"
proof -
  assume "n \<le> MAX_ENCRYPT_SIZE"
  then have "paddingRange (n + 3) + (n + 3) + 1 \<le> 4102"
    by (auto simp: paddingRange_def cipher_sizes)
  from estimatePackLen_mono [OF this] show ?thesis
    by (simp add: estimateEncryptLen_def mCodes_def shift_encodeLen_def padding_encodeLen_def
        numeral_3_eq_3 estimatePackLen_def cipher_sizes)
qed

lemma encrypt_frame:
  assumes "0 < length m" "length m \<le> MAX_ENCRYPT_SIZE"
  shows "encrypt rnds m MAX_PARCEL_SIZE = (length m, pack (layered rnds m) MAX_PARCEL_SIZE)"
  using assms estimateEncryptLen_fits [OF assms(2)]
  by (auto simp: encrypt_def layered_def Let_def) (auto simp: cipher_sizes)

lemma frame_eq:
  "0 < length m \<Longrightarrow> length m \<le> MAX_ENCRYPT_SIZE \<Longrightarrow>
   frame rnds m = pack (layered rnds m) MAX_PARCEL_SIZE"
  by (simp add: frame_def encrypt_frame)

lemma frame_room:
  "length m \<le> MAX_ENCRYPT_SIZE \<Longrightarrow> estimatePackLen (length (layered rnds m)) \<le> MAX_PARCEL_SIZE"
  using layered_fits [of m rnds] by (simp add: cipher_sizes)

lemma length_frame:
  assumes "0 < length m" "length m \<le> MAX_ENCRYPT_SIZE"
  shows "length m < length (frame rnds m)" "length (frame rnds m) \<le> 4114"
  using length_pack [OF layered_nonempty [OF assms(2), of rnds] frame_room [OF assms(2), of rnds]]
    length_layered(1) [OF assms(2), of rnds] layered_fits [OF assms(2), of rnds]
  by (simp_all add: frame_eq [OF assms] estimatePackLen_def)

lemma unpack_frame:
  assumes "0 < length m" "length m \<le> MAX_ENCRYPT_SIZE"
  shows "unpack (frame rnds m @ ys) CIPHER_BUFFER_SIZE = Some (layered rnds m, ys)"
proof -
  have "length (layered rnds m) \<le> CIPHER_BUFFER_SIZE"
    using length_layered_le [OF assms(2), of rnds] by (simp add: cipher_sizes)
  then show ?thesis
    using assms layered_nonempty [OF assms(2)] frame_room [OF assms(2)]
    by (simp add: frame_eq unpack_pack_append)
qed

lemma unpack_partial_frame:
  assumes "0 < length m" "length m \<le> MAX_ENCRYPT_SIZE" "p @ q = frame rnds m" "q \<noteq> []"
  shows "unpack p CIPHER_BUFFER_SIZE = None"
  using unpack_incomplete [OF layered_nonempty [OF assms(2)] frame_room [OF assms(2)]] assms
  by (simp add: frame_eq)

section \<open>Streams of frames\<close>

lemma decrypt_loop_frame:
  assumes "0 < length m" "length m \<le> MAX_ENCRYPT_SIZE" "length out + length m < room"
  shows "decrypt_loop data room (frame rnds m @ ys) out = decrypt_loop data room ys (out @ m)"
proof -
  have "frame rnds m \<noteq> []" using length_frame(1) [OF assms(1,2), of rnds] by auto
  then show ?thesis
    using assms unpack_frame [OF assms(1,2)] layered_nonempty [OF assms(2)] peel_layered [OF assms(2)]
    by (subst decrypt_loop.simps) simp
qed

lemma decrypt_loop_wait:
  "unpack ys CIPHER_BUFFER_SIZE = None \<Longrightarrow> decrypt_loop data room ys out = DecryptOut out ys"
  by (subst decrypt_loop.simps) simp

lemma decrypt_loop_frames:
  "\<forall>(r, m) \<in> set fs. 0 < length m \<and> length m \<le> MAX_ENCRYPT_SIZE \<Longrightarrow>
   length out + length (concat (map (\<lambda>(r, m). frame r m) fs)) \<le> room \<Longrightarrow>
   decrypt_loop data room (concat (map (\<lambda>(r, m). frame r m) fs) @ ys) out =
   decrypt_loop data room ys (out @ concat (map snd fs))"
proof (induction fs arbitrary: out)
  case Nil
  then show ?case by simp
next
  case (Cons f fs)
  obtain r m where f: "f = (r, m)" by (cases f)
  with Cons.prems(1) have m: "0 < length m" "length m \<le> MAX_ENCRYPT_SIZE" by auto
  have "length m < length (frame r m)" using length_frame(1) [OF m] .
  moreover have "length out + (length (frame r m) + length (concat (map (\<lambda>(r, m). frame r m) fs))) \<le> room"
    using Cons.prems(2) f by simp
  ultimately have "length out + length m < room"
    "length (out @ m) + length (concat (map (\<lambda>(r, m). frame r m) fs)) \<le> room" by simp_all
  then show ?case
    using Cons.IH [of "out @ m"] Cons.prems(1) f decrypt_loop_frame [OF m]
    by simp
qed

text \<open>
  Claim C3. The receiver of a stream of frames gets exactly the messages sent, in order: on
  a buffer that holds the frames of any messages of 1 to 4096 bytes, whatever random values
  their encryption used, followed by the beginning of one more frame that has not arrived
  completely, decrypt returns the concatenated messages and leaves the pointer at the
  incomplete frame.
\<close>

theorem decrypt_stream:
  assumes "\<forall>(r, m) \<in> set fs. 0 < length m \<and> length m \<le> MAX_ENCRYPT_SIZE"
    and "0 < length m'" "length m' \<le> MAX_ENCRYPT_SIZE"
    and "part @ missing = frame r' m'" "missing \<noteq> []"
    and "length (concat (map (\<lambda>(r, m). frame r m) fs) @ part) \<le> room"
  shows "decrypt (concat (map (\<lambda>(r, m). frame r m) fs) @ part) room
       = DecryptOut (concat (map snd fs)) part"
proof (cases "concat (map (\<lambda>(r, m). frame r m) fs) @ part = []")
  case True
  have "fs = []"
  proof (rule ccontr)
    assume "fs \<noteq> []"
    then obtain r m where rm: "(r, m) \<in> set fs" by (cases fs) auto
    then have "frame r m = []" using True by auto
    then show False using assms(1) rm length_frame(1) [of m r] by auto
  qed
  with True show ?thesis by (simp add: decrypt_def)
next
  case False
  then have "decrypt (concat (map (\<lambda>(r, m). frame r m) fs) @ part) room
      = decrypt_loop (concat (map (\<lambda>(r, m). frame r m) fs) @ part) room
          (concat (map (\<lambda>(r, m). frame r m) fs) @ part) []"
    using assms(6) by (auto simp: decrypt_def estimateDecryptLen_def)
  then show ?thesis
    using decrypt_loop_frames [OF assms(1), of "[]"] assms(6)
      decrypt_loop_wait [OF unpack_partial_frame [OF assms(2-5)]] by simp
qed

theorem decrypt_stream_witness:
  "decrypt (frame (\<lambda>i k. 5) [7, 8] @ take 1 (frame (\<lambda>i k. 3) [9])) 8192
     = DecryptOut [7, 8] (take 1 (frame (\<lambda>i k. 3) [9]))"
proof -
  have f: "length (frame (\<lambda>i k. 5) [7, 8]) \<le> 4114" "1 < length (frame (\<lambda>i k. 3) [9])"
    using length_frame [of "[7, 8]" "\<lambda>i k. 5"] length_frame [of "[9]" "\<lambda>i k. 3"]
    by (simp_all add: MAX_ENCRYPT_SIZE_def)
  then have d: "drop 1 (frame (\<lambda>i k. 3) [9]) \<noteq> []" by simp
  show ?thesis
    using decrypt_stream [of "[(\<lambda>i k. 5, [7, 8])]" "[9]" "take 1 (frame (\<lambda>i k. 3) [9])"
        "drop 1 (frame (\<lambda>i k. 3) [9])" "\<lambda>i k. 3" 8192] f d
    by (simp add: MAX_ENCRYPT_SIZE_def)
qed

text \<open>
  One message, whole: encrypt of 1 to 4096 bytes into the proxy's buffer of 8192
  takes all of them, writes between one more byte than the message and 4114, and decrypt
  gives the message back with nothing left.
\<close>

theorem decrypt_encrypt:
  assumes "0 < length m" "length m \<le> MAX_ENCRYPT_SIZE"
  shows "fst (encrypt rnds m MAX_PARCEL_SIZE) = length m
    \<and> length m < length (snd (encrypt rnds m MAX_PARCEL_SIZE))
    \<and> length (snd (encrypt rnds m MAX_PARCEL_SIZE)) \<le> 4114
    \<and> decrypt (snd (encrypt rnds m MAX_PARCEL_SIZE)) MAX_PARCEL_SIZE = DecryptOut m []"
proof -
  have len: "length m < length (frame rnds m)" "length (frame rnds m) \<le> 4114"
    using length_frame [OF assms] by auto
  then have "decrypt (frame rnds m) MAX_PARCEL_SIZE = decrypt_loop (frame rnds m) MAX_PARCEL_SIZE (frame rnds m @ []) []"
    by (auto simp: decrypt_def estimateDecryptLen_def cipher_sizes)
  also have "\<dots> = decrypt_loop (frame rnds m) MAX_PARCEL_SIZE [] m"
    using decrypt_loop_frame [OF assms, of "[]" MAX_PARCEL_SIZE "frame rnds m" rnds "[]"] assms(2)
    by (simp add: MAX_ENCRYPT_SIZE_def MAX_PARCEL_SIZE_def)
  also have "\<dots> = DecryptOut m []" by (subst decrypt_loop.simps) simp
  finally have "decrypt (frame rnds m) MAX_PARCEL_SIZE = DecryptOut m []" .
  moreover have "fst (encrypt rnds m MAX_PARCEL_SIZE) = length m"
    using encrypt_frame [OF assms] by simp
  ultimately show ?thesis using len by (simp add: frame_def)
qed

theorem decrypt_encrypt_witness:
  "decrypt (snd (encrypt (\<lambda>i k. i + k) [1, 2, 3] MAX_PARCEL_SIZE)) MAX_PARCEL_SIZE = DecryptOut [1, 2, 3] []"
  using decrypt_encrypt [of "[1, 2, 3]" "\<lambda>i k. i + k"] by (simp add: cipher_sizes)

section \<open>Arbitrary input\<close>

text \<open>What the loops consume and produce on any bytes a proxy may send.\<close>

lemma unpack_loop_split:
  "unpack_loop s t room = Some (p, rest) \<Longrightarrow>
   \<exists>pre. s = pre @ rest \<and> length p + 2 \<le> length t + length pre"
proof (induction s t room rule: unpack_loop.induct)
  case (1 s t room)
  from "1.prems" obtain h lo s1 where s: "s = h # lo # s1"
    by (subst (asm) unpack_loop.simps) (auto split: list.splits)
  define l where "l = from_hi_lo h lo"
  have fits: "l \<le> length s1" "l \<le> MAX_SECTION_SIZE" "\<not> room < l"
    using "1.prems" s by (subst (asm) unpack_loop.simps, auto simp: Let_def l_def split: if_splits)+
  show ?case
  proof (cases "l = MAX_SECTION_SIZE")
    case True
    then have "unpack_loop (drop l s1) (t @ take l s1) (room - l) = Some (p, rest)"
      using "1.prems" s fits
      by (subst (asm) unpack_loop.simps) (simp add: l_def Let_def split: if_splits)
    then obtain pre where "drop l s1 = pre @ rest"
      "length p + 2 \<le> length (t @ take l s1) + length pre"
      using "1.IH" [OF s refl refl] True fits by (auto simp: l_def)
    then show ?thesis using s fits
      by (intro exI [of _ "h # lo # take l s1 @ pre"]) (simp flip: append_assoc, metis append_take_drop_id append_assoc)
  next
    case False
    then have "p = t @ take l s1" "rest = drop l s1"
      using "1.prems" s fits
      by (subst (asm) unpack_loop.simps, simp add: l_def Let_def split: if_splits)+
    then show ?thesis using s fits
      by (intro exI [of _ "h # lo # take l s1"]) simp
  qed
qed

lemma unpack_split:
  "unpack s room = Some (p, rest) \<Longrightarrow> \<exists>pre. s = pre @ rest \<and> length p + 2 \<le> length pre"
  using unpack_loop_split [of s "[]" room p rest] by (auto simp: unpack_def split: if_splits)

lemma peel_shorter: "peel s = Peeled d \<Longrightarrow> s \<noteq> [] \<Longrightarrow> length d < length s"
proof (induction s rule: peel.induct)
  case (1 s)
  then obtain cid s1 where s: "s = cid # s1" by (cases s) auto
  show ?case
  proof (cases "getCoder cid")
    case None
    then have "d = s1" using "1.prems"(1) s by (subst (asm) peel.simps) (simp split: if_splits)
    then show ?thesis using s by simp
  next
    case (Some k)
    then have "cid \<noteq> 0" by auto
    with "1.prems"(1) s Some obtain x where x: "coder_decode k s1 = Decoded x" "x \<noteq> []" "peel x = Peeled d"
      by (subst (asm) peel.simps) (auto split: decoded.splits if_splits)
    then have "length d < length x" using "1.IH" [OF s \<open>cid \<noteq> 0\<close> Some x(1,2)] by simp
    then show ?thesis using coder_decode_shrinks [OF x(1)] s by simp
  qed
qed

text \<open>The two ways an iteration of the outer loop starts.\<close>

lemma decrypt_loop_stop:
  "p1 = [] \<or> unpack p1 CIPHER_BUFFER_SIZE = None \<Longrightarrow> decrypt_loop data room p1 out = DecryptOut out p1"
  by (subst decrypt_loop.simps) auto

lemma decrypt_loop_parcel:
  "unpack p1 CIPHER_BUFFER_SIZE = Some (parcel, p2) \<Longrightarrow>
   decrypt_loop data room p1 out =
     (if parcel = [] then DecryptOut out p2
      else (case peel parcel of
              PeelFailed \<Rightarrow> DecryptOut [] data
            | PeelUnderflow \<Rightarrow> DecryptUnderflow
            | Peeled d \<Rightarrow>
                if length d > 0
                then (if length out + length d < room
                      then decrypt_loop data room p2 (out @ d)
                      else DecryptOut out p2)
                else DecryptOut out p2))"
  by (subst decrypt_loop.simps) (auto simp: unpack_def)

lemma decrypt_loop_consumes:
  "decrypt_loop data room p1 out = DecryptOut out' rest \<Longrightarrow> data = pre @ p1 \<Longrightarrow>
   length out \<le> length pre \<Longrightarrow>
   \<exists>used. data = used @ rest \<and> length out' \<le> length used"
proof (induction data room p1 out arbitrary: pre rule: decrypt_loop.induct)
  case (1 data room p1 out)
  show ?case
  proof (cases "unpack p1 CIPHER_BUFFER_SIZE")
    case None
    then show ?thesis using "1.prems" by (auto simp: decrypt_loop_stop)
  next
    case (Some u)
    then obtain parcel p2 where u: "unpack p1 CIPHER_BUFFER_SIZE = Some (parcel, p2)" by (cases u) auto
    then have p1: "p1 \<noteq> []" by (auto simp: unpack_def)
    from unpack_split [OF u] obtain q where q: "p1 = q @ p2" "length parcel + 2 \<le> length q" by blast
    note step = "1.prems"(1) [unfolded decrypt_loop_parcel [OF u]]
    show ?thesis
    proof (cases "\<exists>d. parcel \<noteq> [] \<and> peel parcel = Peeled d \<and> length d > 0 \<and> length out + length d < room")
      case True
      then obtain d where d: "parcel \<noteq> []" "peel parcel = Peeled d" "length d > 0" "length out + length d < room"
        by blast
      have "decrypt_loop data room p2 (out @ d) = DecryptOut out' rest"
        using step d by simp
      moreover have "length (out @ d) \<le> length (pre @ q)"
        using peel_shorter [OF d(2,1)] q(2) "1.prems"(3) by simp
      ultimately show ?thesis
        using "1.IH" [OF p1 u refl d] "1.prems"(2) q(1) by simp
    next
      case False
      then have "out' = [] \<and> rest = data \<or> out' = out \<and> rest = p2"
        using step by (auto split: if_splits peeled.splits)
      then show ?thesis using q "1.prems"(2,3) by auto
    qed
  qed
qed

lemma decrypt_loop_room:
  "data = pre @ p1 \<Longrightarrow> length out \<le> length pre \<Longrightarrow> length data \<le> room \<Longrightarrow> length data \<le> room' \<Longrightarrow>
   decrypt_loop data room p1 out = decrypt_loop data room' p1 out"
proof (induction data room p1 out arbitrary: pre rule: decrypt_loop.induct)
  case (1 data room p1 out)
  show ?case
  proof (cases "unpack p1 CIPHER_BUFFER_SIZE")
    case None
    then show ?thesis by (simp add: decrypt_loop_stop)
  next
    case (Some u)
    then obtain parcel p2 where u: "unpack p1 CIPHER_BUFFER_SIZE = Some (parcel, p2)" by (cases u) auto
    then have p1: "p1 \<noteq> []" by (auto simp: unpack_def)
    from unpack_split [OF u] obtain q where q: "p1 = q @ p2" "length parcel + 2 \<le> length q" by blast
    show ?thesis
    proof (cases "\<exists>d. parcel \<noteq> [] \<and> peel parcel = Peeled d \<and> length d > 0")
      case True
      then obtain d where d: "parcel \<noteq> []" "peel parcel = Peeled d" "length d > 0" by blast
      have le: "length (out @ d) \<le> length (pre @ q)" "length out + length d < length data"
        using peel_shorter [OF d(2,1)] q "1.prems"(1,2) by simp_all
      then have fits: "length out + length d < room" "length out + length d < room'"
        using "1.prems"(3,4) by simp_all
      have "decrypt_loop data room p2 (out @ d) = decrypt_loop data room' p2 (out @ d)"
        using "1.IH" [OF p1 u refl d fits(1), of "pre @ q"] le "1.prems" q(1) by simp
      then show ?thesis using u d fits by (simp add: decrypt_loop_parcel)
    next
      case False
      then show ?thesis using u by (auto simp: decrypt_loop_parcel split: peeled.splits)
    qed
  qed
qed

text \<open>
  On any bytes at all, decrypt either reports an underflow or consumes a prefix of
  its input and returns at most as many bytes as it consumed, so what it writes stays inside
  an output buffer of the input's size.
\<close>

theorem decrypt_consumes_prefix:
  "decrypt data room = DecryptUnderflow
   \<or> (\<exists>used out rest. decrypt data room = DecryptOut out rest \<and> data = used @ rest
        \<and> length out \<le> length used)"
proof (cases "decrypt data room")
  case (DecryptOut out rest)
  show ?thesis
  proof (cases "length data = 0 \<or> room = 0 \<or> length data > room")
    case True
    then have "decrypt data room = DecryptOut [] data"
      by (auto simp: decrypt_def estimateDecryptLen_def)
    then show ?thesis by simp
  next
    case False
    then have "decrypt_loop data room data [] = DecryptOut out rest"
      using DecryptOut by (simp add: decrypt_def estimateDecryptLen_def)
    from decrypt_loop_consumes [OF this, of "[]"] show ?thesis using DecryptOut by auto
  qed
qed simp

text \<open>
  The branch for a full output buffer inside the loop of decrypt is dead: once the
  input is no longer than the buffer (the check at its start), the size of the buffer has no
  influence on the result.
\<close>

theorem decrypt_room_irrelevant:
  assumes "length data \<le> room" "length data \<le> room'"
  shows "decrypt data room = decrypt data room'"
  using assms decrypt_loop_room [of data "[]" data "[]" room room']
  by (auto simp: decrypt_def estimateDecryptLen_def)

theorem decrypt_room_irrelevant_witness: "decrypt [0, 2, 0, 5] 4 = decrypt [0, 2, 0, 5] 8192"
  by (rule decrypt_room_irrelevant) simp_all

text \<open>
  A parcel whose only byte is the id of the shift coder, wherever it stands in the
  stream, makes decrypt call the shift decoder on no bytes: it reads a stale byte as the
  shift, and when that is at most 7 its return value -1 is stored as the unsigned length
  4294967295, which the check for a failed decode does not see, so the loop goes on over
  bytes that are not part of the parcel.
\<close>

theorem decrypt_shift_underflow:
  assumes "length (concat (map (\<lambda>(r, m). frame r m) fs)) + 3 + length ys \<le> room"
    and "\<forall>(r, m) \<in> set fs. 0 < length m \<and> length m \<le> MAX_ENCRYPT_SIZE"
  shows "decrypt (concat (map (\<lambda>(r, m). frame r m) fs) @ [0, 1, 2] @ ys) room = DecryptUnderflow"
proof -
  let ?fs = "concat (map (\<lambda>(r, m). frame r m) fs)"
  have sec: "unpack ([0, 1, 2] @ ys) CIPHER_BUFFER_SIZE = Some ([2], ys)"
    by (simp add: unpack_def from_hi_lo_def unpack_loop.simps cipher_sizes)
  have "peel [2] = PeelUnderflow" by (simp add: peel.simps shift_decode_def)
  then have "decrypt_loop data room ([0, 1, 2] @ ys) out = DecryptUnderflow" for data out
    by (simp only: decrypt_loop_parcel [OF sec]) simp
  then have "decrypt_loop (?fs @ [0, 1, 2] @ ys) room (?fs @ [0, 1, 2] @ ys) [] = DecryptUnderflow"
    using assms decrypt_loop_frames [of fs "[]" room] by simp
  then show ?thesis using assms(1) by (simp add: decrypt_def estimateDecryptLen_def)
qed

theorem decrypt_shift_underflow_witness: "decrypt [0, 1, 2] 8192 = DecryptUnderflow"
  using decrypt_shift_underflow [of "[]" "[]" 8192] by simp

text \<open>
  The size estimate is two bytes short, because encodeLen of the padding coder
  does not count the padding header: into a buffer of exactly the estimated size, with the
  largest padding drawn, encrypt advances the origin pointer over the whole message and
  writes nothing.
\<close>

theorem encrypt_estimate_short:
  assumes "0 < length m" "length m \<le> 1000"
    and "rnds 1 0 mod (1021 - length m) = 1020 - length m"
  shows "encrypt rnds m (estimateEncryptLen (length m)) = (length m, [])"
proof -
  let ?s = "shift_encode (rnds 0) (0 # m) 8191"
  have n: "length m \<le> MAX_ENCRYPT_SIZE" using assms(2) by (simp add: cipher_sizes)
  have len: "length (2 # ?s) = length m + 3"
    using n by (simp add: shift_encode_Cons cipher_sizes)
  have rng: "paddingRange (length m + 3) = 1021 - length m"
    using assms(2) by (simp add: paddingRange_def cipher_sizes)
  have "length (padding_encode (rnds 1) (2 # ?s) 8191) = padding_encodeLen (length m + 3) + 2"
    using padding_encode_max [of "2 # ?s" 8191 "rnds 1"] assms unfolding len rng by simp
  then have lay: "length (layered rnds m) = padding_encodeLen (length m + 3) + 3"
    by (simp add: layered_eq [OF n])
  let ?e = "padding_encodeLen (length m + 3) + 1"
  have est: "estimateEncryptLen (length m) = estimatePackLen ?e"
    by (simp add: estimateEncryptLen_def mCodes_def shift_encodeLen_def numeral_3_eq_3)
  have "estimatePackLen ?e < estimatePackLen (length (layered rnds m))"
    using div_le_mono [of "?e + MAX_SECTION_SIZE" "?e + 2 + MAX_SECTION_SIZE" MAX_SECTION_SIZE]
    by (simp add: lay estimatePackLen_def numeral_3_eq_3)
  then have "pack (layered rnds m) (estimatePackLen ?e) = []"
    by (simp add: pack_def)
  moreover have "estimatePackLen ?e > 0" by (simp add: estimatePackLen_def)
  ultimately show ?thesis
    using assms(1) n by (simp add: encrypt_def est Let_def layered_def not_less cipher_sizes)
qed

theorem encrypt_estimate_short_witness:
  "encrypt (\<lambda>i k. 1017) [1, 2, 3] (estimateEncryptLen (length [1, 2, 3 :: byte])) = (3, [])"
  using encrypt_estimate_short [of "[1, 2, 3]" "\<lambda>i k. 1017"] by simp

end
