(* ===== verification/Utils.thy ===== *)
theory Utils
  imports Prelude "HOL-Library.Char_ord"
begin

text \<open>
  The pure helpers of \<^verbatim>\<open>utils/Utils.cpp\<close>: array comparison, hexadecimal text, the byte dump
  of the debug log and the comparison of sequence numbers. \<^verbatim>\<open>getSockBufferSize\<close> is in the theory of
  the direct tunnel, \<^verbatim>\<open>getUID\<close> (a scan of \<^verbatim>\<open>/proc/net\<close>) has its own.
\<close>

section \<open>compareArr\<close>

fun compareArr :: "'a::linorder list \<Rightarrow> 'a list \<Rightarrow> int" where
  "compareArr (x # xs) (y # ys) =
     (if x > y then 1 else if x < y then -1 else compareArr xs ys)"
| "compareArr xs ys =
     (if length xs > length ys then 1 else if length xs < length ys then -1 else 0)"

lemma compareArr_zero_iff: "compareArr xs ys = 0 \<longleftrightarrow> xs = ys"
  by (induction xs ys rule: compareArr.induct) auto

lemma compareArr_sym: "compareArr ys xs = - compareArr xs ys"
  by (induction xs ys rule: compareArr.induct) auto

section \<open>Hexadecimal text\<close>

definition char2hex :: "char \<Rightarrow> byte" where
  "char2hex c =
     (if CHR ''0'' \<le> c \<and> c \<le> CHR ''9'' then word_of_nat (of_char c - of_char CHR ''0'')
      else if CHR ''a'' \<le> c \<and> c \<le> CHR ''f'' then word_of_nat (of_char c - of_char CHR ''a'' + 10)
      else if CHR ''A'' \<le> c \<and> c \<le> CHR ''F'' then word_of_nat (of_char c - of_char CHR ''A'' + 10)
      else 255)"

text \<open>
  \<^verbatim>\<open>hex2bytes\<close> reads two characters per step; on an odd number of characters the second one of
  the last step is the terminator.
\<close>

fun hex2bytes :: "string \<Rightarrow> bytes" where
  "hex2bytes [] = []"
| "hex2bytes [a] = [push_bit 4 (char2hex a) OR char2hex (CHR 0x00)]"
| "hex2bytes (a # b # cs) = (push_bit 4 (char2hex a) OR char2hex b) # hex2bytes cs"

text \<open>\<^verbatim>\<open>sprintf("%02X")\<close> of a byte.\<close>

definition hex_digit :: "nat \<Rightarrow> char" where
  "hex_digit n = ''0123456789ABCDEF'' ! n"

definition bytes2hex :: "bytes \<Rightarrow> string" where
  "bytes2hex bs = concat (map (\<lambda>b. [hex_digit (unat b div 16), hex_digit (unat b mod 16)]) bs)"

lemma char2hex_digit: "n < 16 \<Longrightarrow> char2hex (hex_digit n) = word_of_nat n"
proof -
  assume "n < 16"
  then have "n \<in> set [0..<16]" by simp
  moreover have "\<forall>k \<in> set [0..<16]. char2hex (hex_digit k) = word_of_nat k"
    by (simp add: upt_rec char2hex_def hex_digit_def less_eq_char_def)
  ultimately show ?thesis by blast
qed

lemma nibbles: "push_bit 4 (word_of_nat (unat b div 16)) OR word_of_nat (unat b mod 16) = (b :: byte)"
proof -
  have "unat b div 16 < 2 ^ LENGTH(8)" using unat_byte_div_16 [of b] by simp
  then have hi: "word_of_nat (unat b div 16) = drop_bit 4 b"
    by (simp add: word_unat_eq_iff drop_bit_eq_div unat_div_distrib)
  have lo: "word_of_nat (unat b mod 16) = take_bit 4 b"
    by (simp add: word_unat_eq_iff take_bit_eq_mod unat_mod_distrib)
  show ?thesis unfolding hi lo by (rule bit_word_eqI) (auto simp: bit_simps)
qed

lemma hex2bytes_bytes2hex: "hex2bytes (bytes2hex bs) = bs"
proof (induction bs)
  case Nil
  then show ?case by (simp add: bytes2hex_def)
next
  case (Cons b bs)
  then show ?case
    using Cons unat_byte_div_16 [of b] by (simp add: bytes2hex_def char2hex_digit nibbles)
qed

section \<open>The byte dump of the log\<close>

text \<open>
  \<^verbatim>\<open>bytes2string(data, len, out, size)\<close> writes four characters and a terminator per byte while
  \<^verbatim>\<open>j < size\<close>, then a terminator at \<^verbatim>\<open>j\<close>. The loop's final \<^verbatim>\<open>j\<close>, and the number of bytes of \<^verbatim>\<open>out\<close>
  it writes:
\<close>

fun bytes2string_loop :: "nat \<Rightarrow> nat \<Rightarrow> nat \<Rightarrow> nat" where
  "bytes2string_loop 0 room j = j"
| "bytes2string_loop (Suc n) room j = (if j < room then bytes2string_loop n room (j + 4) else j)"

definition bytes2string_written :: "nat \<Rightarrow> nat \<Rightarrow> nat" where
  "bytes2string_written len room = bytes2string_loop len room 0 + 1"

text \<open>\<^verbatim>\<open>logbytes2string\<close>: the buffer it allocates and passes, and the bytes it dumps.\<close>

definition logbytes_len :: "nat \<Rightarrow> nat" where
  "logbytes_len len = (if len > 10 then 10 else len)"

lemma bytes2string_loop_all: "j + 4 * n \<le> room \<Longrightarrow> bytes2string_loop n room j = j + 4 * n"
  by (induction n arbitrary: j) simp_all

section \<open>Sequence numbers\<close>

text \<open>
  \<^verbatim>\<open>compare_u32\<close> converts to \<^verbatim>\<open>int\<close> and subtracts; the subtraction is evaluated in 32-bit
  two's complement, as the instructions of both ABIs do (in the C++ standard an overflow is
  undefined).
\<close>

definition int_sub :: "u32 \<Rightarrow> u32 \<Rightarrow> int" where
  "int_sub a b = sint (a - b)"

definition compare_u32 :: "u32 \<Rightarrow> u32 \<Rightarrow> int" where
  "compare_u32 s1 s2 =
     (if s1 = s2 then 0
      else if (sint s1 < sint s2 \<and> int_sub s2 s1 < 0x7FFFFFFF)
            \<or> (sint s1 > sint s2 \<and> int_sub s1 s2 > 0x7FFFFFFF)
      then -1 else 1)"

text \<open>\<^verbatim>\<open>replaceChar\<close>, in place over a zero-terminated string.\<close>

definition replaceChar :: "string \<Rightarrow> char \<Rightarrow> char \<Rightarrow> string" where
  "replaceChar s a b = map (\<lambda>c. if c = a then b else c) s"

text \<open>Below \<open>2 ^ 31\<close> the conversion to \<^verbatim>\<open>int\<close> keeps the value, and so does the difference.\<close>

lemma sint_small: "uint (a :: u32) < 2 ^ 31 \<Longrightarrow> sint a = uint a"
  unfolding sint_uint by (rule signed_take_bit_int_eq_self) (simp_all add: order.trans [of _ 0])

lemma uint_diff_less: "uint a < c \<Longrightarrow> uint a - uint b < c" for a b :: u32
proof -
  assume "uint a < c"
  moreover have "0 \<le> uint b" by (rule uint_ge_0)
  ultimately show ?thesis by linarith
qed

lemma int_sub_small:
  assumes "uint b \<le> uint a" "uint a < 2 ^ 31"
  shows "int_sub a b = uint a - uint b"
proof -
  have "uint (a - b) = uint a - uint b"
    using assms(1) by (simp add: uint_sub_if')
  moreover have "uint a - uint b < 2 ^ 31" by (rule uint_diff_less [OF assms(2)])
  ultimately show ?thesis by (simp add: int_sub_def sint_small)
qed

text \<open>The serial-number order of RFC 1982, which the code names as its source.\<close>

definition serial_less :: "u32 \<Rightarrow> u32 \<Rightarrow> bool" where
  "serial_less a b \<longleftrightarrow> a \<noteq> b \<and> uint (b - a) < 2 ^ 31"

lemma serial_less_small:
  assumes "uint a < 2 ^ 31" "uint b < 2 ^ 31"
  shows "serial_less a b \<longleftrightarrow> a < b"
proof (cases "uint a \<le> uint b")
  case True
  then have "uint (b - a) = uint b - uint a" by (simp add: uint_sub_if')
  then show ?thesis using True uint_diff_less [OF assms(2), of a]
    by (auto simp: serial_less_def word_less_def word_uint_eq_iff)
next
  case False
  then have "uint (b - a) = uint b - uint a + 2 ^ 32" by (simp add: uint_sub_if')
  then have "\<not> uint (b - a) < 2 ^ 31" using uint_diff_less [OF assms(1), of b] by simp
  then show ?thesis using False by (simp add: serial_less_def word_less_def)
qed

lemma compare_u32_small:
  assumes "uint a < 2 ^ 31" "uint b < 2 ^ 31" "uint b - uint a \<noteq> 0x7FFFFFFF"
  shows "compare_u32 a b < 0 \<longleftrightarrow> a < b"
proof -
  consider "a = b" | "uint a < uint b" | "uint b < uint a"
    by (metis linorder_less_linear word_uint_eq_iff)
  then show ?thesis
  proof cases
    case 1
    then show ?thesis by (simp add: compare_u32_def)
  next
    case 2
    have "uint b - uint a < 0x80000000" using uint_diff_less [OF assms(2), of a] by simp
    then have "uint b - uint a < 0x7FFFFFFF" using assms(3) by linarith
    with 2 assms show ?thesis
      by (auto simp: compare_u32_def sint_small int_sub_small word_less_def)
  next
    case 3
    have "\<not> 0x7FFFFFFF < uint a - uint b" using uint_diff_less [OF assms(1), of b] by simp
    with 3 assms show ?thesis
      by (auto simp: compare_u32_def sint_small int_sub_small word_less_def)
  qed
qed

text \<open>
  While both sequence numbers are below 2 to the 31 (less than two gigabytes
  into the connection) compare_u32 decides the RFC 1982 order it cites; the only exception is
  a distance of exactly 2 to the 31 minus 1.
\<close>

theorem compare_u32_serial:
  assumes "uint a < 2 ^ 31" "uint b < 2 ^ 31" "uint b - uint a \<noteq> 0x7FFFFFFF"
  shows "compare_u32 a b < 0 \<longleftrightarrow> serial_less a b"
  using assms by (simp add: compare_u32_small serial_less_small)

theorem compare_u32_serial_witness: "compare_u32 5 9 < 0 \<longleftrightarrow> serial_less 5 9"
  by (rule compare_u32_serial) simp_all

text \<open>
  Across 2 to the 31 it does not: for every number a below 2 to the 31 and every b
  from 2 to the 31 on whose serial distance from a is less than 2 to the 31, b comes after a
  in RFC 1982, but compare_u32 says that a is not smaller.
\<close>

theorem compare_u32_not_serial:
  assumes "uint a < 2 ^ 31" "2 ^ 31 \<le> uint b" "uint b - uint a < 2 ^ 31"
  shows "serial_less a b \<and> compare_u32 a b = 1"
proof -
  have ne: "a \<noteq> b" using assms by auto
  have "uint (b - a) = uint b - uint a"
    using assms by (simp add: uint_sub_if')
  then have ser: "serial_less a b"
    using ne assms(3) by (simp add: serial_less_def)
  have sb: "sint b < 0"
  proof -
    have h: "0x80000000 \<le> uint b" "uint b < 0x100000000"
      using assms(2) uint_bounded [of b] by simp_all
    have "(uint b + 0x80000000) mod 0x100000000 = uint b - 0x80000000"
    proof -
      have "uint b + 0x80000000 = (uint b - 0x80000000) + 0x100000000" by simp
      then have "(uint b + 0x80000000) mod 0x100000000 = (uint b - 0x80000000) mod 0x100000000"
        by (simp only: mod_add_self2)
      also have "\<dots> = uint b - 0x80000000"
        using h by (intro mod_pos_pos_trivial) linarith+
      finally show ?thesis .
    qed
    then show ?thesis using h
      unfolding sint_uint by (simp add: signed_take_bit_eq_take_bit_shift take_bit_eq_mod)
  qed
  have "int_sub a b \<le> 0x7FFFFFFF"
    using sint_lt [of "a - b"] by (simp add: int_sub_def)
  moreover have "0 \<le> sint a" using assms(1) by (simp add: sint_small)
  ultimately show ?thesis using ne ser sb by (simp add: compare_u32_def)
qed

theorem compare_u32_not_serial_witness:
  "serial_less 0x7FFFFFFF 0x80000000 \<and> compare_u32 0x7FFFFFFF 0x80000000 = 1"
  by (rule compare_u32_not_serial) simp_all

text \<open>
  hex2bytes reads back what bytes2hex wrote, for every byte string.
\<close>

theorem hex_roundtrip: "hex2bytes (bytes2hex bs) = bs"
  by (rule hex2bytes_bytes2hex)

text \<open>
  The debug dump overruns its buffer by one byte: for every input, bytes2string
  writes one byte more than the four per dumped byte that logbytes2string allocates.
\<close>

theorem logbytes_overrun:
  "bytes2string_written (logbytes_len len) (4 * logbytes_len len) = 4 * logbytes_len len + 1"
  by (simp add: bytes2string_written_def bytes2string_loop_all)

end
