(* ===== verification/UidLookup.thy ===== *)
theory UidLookup
  imports Utils
begin

text \<open>
  \<^verbatim>\<open>getUID\<close> of \<^verbatim>\<open>utils/Utils.cpp\<close>: the application a connection belongs to, looked up in the tables of \<^verbatim>\<open>/proc/net\<close>.
\<close>

section \<open>The tables\<close>

text \<open>A line as \<^verbatim>\<open>sscanf\<close> reads it: both addresses as text, both ports and the user; \<^term>\<open>None\<close> when it does not give five fields.\<close>

type_synonym uid_line = "(string \<times> int \<times> string \<times> int \<times> int) option"

definition proc_file :: "byte \<Rightarrow> byte \<Rightarrow> string option" where
  "proc_file version protocol =
     (if protocol = 1 \<and> version = 4 then Some ''/proc/net/icmp''
      else if protocol = 58 \<and> version = 6 then Some ''/proc/net/icmp6''
      else if protocol = 6 then Some (if version = 4 then ''/proc/net/tcp'' else ''/proc/net/tcp6'')
      else if protocol = 17 then Some (if version = 4 then ''/proc/net/udp'' else ''/proc/net/udp6'')
      else None)"

text \<open>The test of an address in the table, \<open>a\<close>, against the one asked for: equal, unbound, or the IPv4 address in an IPv6 table.\<close>

definition addr_matches :: "nat \<Rightarrow> bytes \<Rightarrow> bytes \<Rightarrow> bool" where
  "addr_matches addrlen a addr \<longleftrightarrow>
     take addrlen a = take addrlen addr
     \<or> take addrlen a = replicate addrlen 0
     \<or> (addrlen = 16 \<and> take 4 (drop 12 a) = take 4 (drop 12 addr) \<and> take 8 a = replicate 8 0)"

definition line_matches :: "nat \<Rightarrow> bytes \<Rightarrow> u16 \<Rightarrow> bytes \<Rightarrow> u16 \<Rightarrow> (string \<times> int \<times> string \<times> int \<times> int) \<Rightarrow> bool" where
  "line_matches addrlen saddr sport daddr dport l =
     (case l of (shex, tsport, dhex, tdport, uid) \<Rightarrow>
        tsport = uint sport \<and> tdport = uint dport \<and> addr_matches addrlen (hex2bytes shex) saddr
        \<and> addr_matches addrlen (hex2bytes dhex) daddr)"

text \<open>The loop over the lines behind the table's header.\<close>

fun uid_scan :: "nat \<Rightarrow> bytes \<Rightarrow> u16 \<Rightarrow> bytes \<Rightarrow> u16 \<Rightarrow> uid_line list \<Rightarrow> int" where
  "uid_scan addrlen saddr sport daddr dport [] = -1"
| "uid_scan addrlen saddr sport daddr dport (None # ls) = -1"
| "uid_scan addrlen saddr sport daddr dport (Some (shex, tsport, dhex, tdport, uid) # ls) =
     (if length shex = 2 * addrlen \<and> length dhex = 2 * addrlen
      then if line_matches addrlen saddr sport daddr dport (shex, tsport, dhex, tdport, uid) then uid
           else uid_scan addrlen saddr sport daddr dport ls
      else -1)"

definition mapped128 :: "bytes \<Rightarrow> bytes" where
  "mapped128 addr = replicate 10 0 @ [0xFF, 0xFF] @ take 4 addr"

text \<open>
  One call up to the second attempt: \<^term>\<open>Inl\<close> is an early return. \<open>files\<close> are the tables that can be opened. The address length
  is fixed by the version.
\<close>

definition uid_of_version :: "(string \<Rightarrow> uid_line list option) \<Rightarrow> byte \<Rightarrow> byte \<Rightarrow> bytes \<Rightarrow> u16 \<Rightarrow> bytes \<Rightarrow> u16 \<Rightarrow> int + int" where
  "uid_of_version files version protocol saddr sport daddr dport =
     (case proc_file version protocol of
        None \<Rightarrow> Inl (-1)
      | Some path \<Rightarrow>
          (case files path of
             None \<Rightarrow> Inl (-2)
           | Some ls \<Rightarrow> Inr (uid_scan (if version = 4 then 4 else 16) saddr sport daddr dport ls)))"

definition getUID :: "(string \<Rightarrow> uid_line list option) \<Rightarrow> byte \<Rightarrow> byte \<Rightarrow> bytes \<Rightarrow> u16 \<Rightarrow> bytes \<Rightarrow> u16 \<Rightarrow> int" where
  "getUID files version protocol saddr sport daddr dport =
     (case uid_of_version files version protocol saddr sport daddr dport of
        Inl r \<Rightarrow> r
      | Inr ret \<Rightarrow>
          if version = 4 \<and> ret < 0
          then (case uid_of_version files 6 protocol (mapped128 saddr) sport (mapped128 daddr) dport of Inl r \<Rightarrow> r | Inr r \<Rightarrow> r)
          else ret)"

section \<open>What the kernel writes\<close>

text \<open>
  The kernel prints an address in words of the machine, so that on a little-endian machine every group of four bytes is reversed.
  \<^verbatim>\<open>initBaseInfo\<close> passes the address reversed as well.
\<close>

fun kernel_order :: "bytes \<Rightarrow> bytes" where
  "kernel_order (a # b # c # d # r) = [d, c, b, a] @ kernel_order r"
| "kernel_order r = r"

definition kernel_line :: "bytes \<Rightarrow> u16 \<Rightarrow> bytes \<Rightarrow> u16 \<Rightarrow> int \<Rightarrow> uid_line" where
  "kernel_line a sport b dport uid =
     Some (bytes2hex (kernel_order a), uint sport, bytes2hex (kernel_order b), uint dport, uid)"

text \<open>An IPv4 address in an IPv6 socket.\<close>

definition v4_mapped :: "bytes \<Rightarrow> bytes" where
  "v4_mapped a = replicate 10 0 @ [0xFF, 0xFF] @ a"

lemma length_kernel_order [simp]: "length (kernel_order a) = length a"
  by (induction a rule: kernel_order.induct) simp_all

lemma length_bytes2hex [simp]: "length (bytes2hex bs) = 2 * length bs"
  by (induction bs) (simp_all add: bytes2hex_def)

lemma kernel_order_4: "length a = 4 \<Longrightarrow> kernel_order a = rev a"
  by (auto simp: length_Suc_conv numeral_eq_Suc)

lemma kernel_order_mapped: "length a = 4 \<Longrightarrow> kernel_order (v4_mapped a) = replicate 8 0 @ [0xFF, 0xFF, 0, 0] @ rev a"
  by (auto simp: length_Suc_conv numeral_eq_Suc v4_mapped_def)

text \<open>Lines before the one that is found: complete, of the table's length, and not matching.\<close>

definition passed :: "nat \<Rightarrow> bytes \<Rightarrow> u16 \<Rightarrow> bytes \<Rightarrow> u16 \<Rightarrow> uid_line \<Rightarrow> bool" where
  "passed addrlen saddr sport daddr dport l =
     (case l of
        None \<Rightarrow> False
      | Some (shex, tsport, dhex, tdport, uid) \<Rightarrow>
          length shex = 2 * addrlen \<and> length dhex = 2 * addrlen
          \<and> \<not> line_matches addrlen saddr sport daddr dport (shex, tsport, dhex, tdport, uid))"

lemma uid_scan_passed:
  "\<forall>l \<in> set pre. passed n sa sp da dp l \<Longrightarrow> uid_scan n sa sp da dp (pre @ ls) = uid_scan n sa sp da dp ls"
proof (induction pre)
  case (Cons l pre)
  then show ?case by (cases l) (auto simp: passed_def)
qed simp

lemma uid_scan_found:
  assumes "\<forall>l \<in> set pre. passed n sa sp da dp l" "length a = n" "length b = n"
    "addr_matches n (kernel_order a) sa" "addr_matches n (kernel_order b) da"
  shows "uid_scan n sa sp da dp (pre @ kernel_line a sp b dp uid # post) = uid"
  using assms by (simp add: uid_scan_passed kernel_line_def line_matches_def hex2bytes_bytes2hex)

lemma mapped_matches:
  "length a = 4 \<Longrightarrow> addr_matches 16 (kernel_order (v4_mapped a)) (mapped128 (rev a))"
  by (simp add: kernel_order_mapped addr_matches_def mapped128_def)

lemma length_v4_mapped [simp]: "length (v4_mapped a) = 12 + length a"
  by (simp add: v4_mapped_def)

text \<open>
  Claim C38. The owner of a connection is found. The lookup of an IPv4 TCP connection finds its user, whether the kernel lists the connection in the IPv4
  table or, with mapped addresses, in the IPv6 table, when no earlier line matches or is malformed.
\<close>

theorem getUID_finds:
  assumes "length a = 4" "length b = 4" "0 \<le> uid"
    and listed: "files ''/proc/net/tcp'' = Some (pre @ kernel_line a sport b dport uid # post)
        \<and> (\<forall>l \<in> set pre. passed 4 (rev a) sport (rev b) dport l)
      \<or> files ''/proc/net/tcp'' = Some ls \<and> (\<forall>l \<in> set ls. passed 4 (rev a) sport (rev b) dport l)
        \<and> files ''/proc/net/tcp6'' = Some (pre @ kernel_line (v4_mapped a) sport (v4_mapped b) dport uid # post)
        \<and> (\<forall>l \<in> set pre. passed 16 (mapped128 (rev a)) sport (mapped128 (rev b)) dport l)"
  shows "getUID files 4 6 (rev a) sport (rev b) dport = uid"
  using listed
proof
  assume *: "files ''/proc/net/tcp'' = Some (pre @ kernel_line a sport b dport uid # post)
        \<and> (\<forall>l \<in> set pre. passed 4 (rev a) sport (rev b) dport l)"
  then have "uid_scan 4 (rev a) sport (rev b) dport (pre @ kernel_line a sport b dport uid # post) = uid"
    using assms(1,2) by (intro uid_scan_found) (auto simp: kernel_order_4 addr_matches_def)
  then show ?thesis
    using * assms(3) by (simp add: getUID_def uid_of_version_def proc_file_def)
next
  assume *: "files ''/proc/net/tcp'' = Some ls \<and> (\<forall>l \<in> set ls. passed 4 (rev a) sport (rev b) dport l)
        \<and> files ''/proc/net/tcp6'' = Some (pre @ kernel_line (v4_mapped a) sport (v4_mapped b) dport uid # post)
        \<and> (\<forall>l \<in> set pre. passed 16 (mapped128 (rev a)) sport (mapped128 (rev b)) dport l)"
  have none: "uid_scan 4 (rev a) sport (rev b) dport ls = -1"
    using * uid_scan_passed [of ls 4 "rev a" sport "rev b" dport "[]"] by simp
  have "uid_scan 16 (mapped128 (rev a)) sport (mapped128 (rev b)) dport
      (pre @ kernel_line (v4_mapped a) sport (v4_mapped b) dport uid # post) = uid"
    using * assms(1,2)
    by (intro uid_scan_found) (simp_all add: mapped_matches)
  then show ?thesis
    using * none by (simp add: getUID_def uid_of_version_def proc_file_def)
qed

lemma getUID_finds_witness:
  "getUID ((\<lambda>_. None)(''/proc/net/tcp'' := Some [], ''/proc/net/tcp6'' :=
       Some ([] @ kernel_line (v4_mapped [10, 0, 0, 2]) 40000 (v4_mapped [1, 2, 3, 4]) 443 10071 # [])))
     4 6 (rev [10, 0, 0, 2]) 40000 (rev [1, 2, 3, 4]) 443 = 10071"
  by (rule getUID_finds [where ls = "[]" and pre = "[]" and post = "[]"]) simp_all

end
