(* ===== verification/IPAdpt.thy ===== *)
theory IPAdpt
  imports Prelude
begin

text \<open>
  \<^verbatim>\<open>core/IPAdpt.h\<close>, \<^verbatim>\<open>core/IPAdpt.cpp\<close> and the swap macros of \<^verbatim>\<open>core/Defines.h\<close>: reading an IPv4
  packet through the packed header structs, the search of a TCP option and the Internet checksum.
  A packet is the memory from the \<^verbatim>\<open>IPHeader&\<close> reference on (\<^verbatim>\<open>Router::mIPData\<close>, 65535 bytes, whatever
  earlier reads left behind the packet included), a function from offsets to bytes. The
  machine is little-endian, as the two ABIs are.
\<close>

type_synonym packet = "nat \<Rightarrow> byte"

text \<open>The memory that holds a byte list and is zero elsewhere.\<close>

definition mem_of :: "bytes \<Rightarrow> packet" where
  "mem_of bs i = (if i < length bs then bs ! i else 0)"

text \<open>Loads of a \<^verbatim>\<open>uint16_t\<close> and a \<^verbatim>\<open>uint32_t\<close>.\<close>

definition le16 :: "byte \<Rightarrow> byte \<Rightarrow> u16" where
  "le16 b0 b1 = word_of_nat (unat b0 + 256 * unat b1)"

definition ld16 :: "packet \<Rightarrow> nat \<Rightarrow> u16" where
  "ld16 m a = le16 (m a) (m (a + 1))"

definition ld32 :: "packet \<Rightarrow> nat \<Rightarrow> u32" where
  "ld32 m a = ucast (ld16 m a) OR push_bit 16 (ucast (ld16 m (a + 2)))"

text \<open>\<^verbatim>\<open>SWAP_INT16\<close> and \<^verbatim>\<open>SWAP_INT32\<close>; \<^verbatim>\<open>ntohs\<close>, \<^verbatim>\<open>htons\<close>, \<^verbatim>\<open>ntohl\<close> and \<^verbatim>\<open>htonl\<close> are the same functions.\<close>

definition swap16 :: "u16 \<Rightarrow> u16" where
  "swap16 v = push_bit 8 (v AND 0x00FF) OR drop_bit 8 (v AND 0xFF00)"

definition swap32 :: "u32 \<Rightarrow> u32" where
  "swap32 v = push_bit 24 (v AND 0x000000FF) OR push_bit 8 (v AND 0x0000FF00)
              OR drop_bit 8 (v AND 0x00FF0000) OR drop_bit 24 (v AND 0xFF000000)"

lemma swap16_swap16 [simp]: "swap16 (swap16 v) = v"
proof -
  have m: "(0x00FF :: u16) = mask 8" "(0xFF00 :: u16) = push_bit 8 (mask 8)"
    by (simp_all add: mask_eq_exp_minus_1 push_bit_eq_mult)
  show ?thesis
    unfolding swap16_def m by (rule bit_word_eqI) (auto simp: bit_simps)
qed

lemma bit_swap32:
  assumes "k < 8"
  shows "bit (swap32 v) k = bit v (k + 24)" "bit (swap32 v) (k + 8) = bit v (k + 16)"
    "bit (swap32 v) (k + 16) = bit v (k + 8)" "bit (swap32 v) (k + 24) = bit v k"
proof -
  have m: "(0x000000FF :: u32) = mask 8" "(0x0000FF00 :: u32) = push_bit 8 (mask 8)"
    "(0x00FF0000 :: u32) = push_bit 16 (mask 8)" "(0xFF000000 :: u32) = push_bit 24 (mask 8)"
    by (simp_all add: mask_eq_exp_minus_1 push_bit_eq_mult)
  show "bit (swap32 v) k = bit v (k + 24)" "bit (swap32 v) (k + 8) = bit v (k + 16)"
    "bit (swap32 v) (k + 16) = bit v (k + 8)" "bit (swap32 v) (k + 24) = bit v k"
    unfolding swap32_def m using assms
    by (simp_all add: bit_or_iff bit_and_iff bit_push_bit_iff bit_drop_bit_eq bit_mask_iff add.commute)
qed

lemma word32_bytes:
  assumes "\<And>k. k < 8 \<Longrightarrow> bit v k = bit w k \<and> bit v (k + 8) = bit w (k + 8) \<and> bit v (k + 16) = bit w (k + 16)
    \<and> bit v (k + 24) = bit w (k + 24)"
  shows "v = (w :: u32)"
proof (rule bit_word_eqI)
  fix n assume "n < LENGTH(32)"
  then have "n div 8 < 4" by simp
  then consider "n div 8 = 0" | "n div 8 = 1" | "n div 8 = 2" | "n div 8 = 3" by linarith
  moreover have "n = n mod 8 + 8 * (n div 8)" "n mod 8 < 8" by simp_all
  ultimately obtain k where "k < 8" "n = k \<or> n = k + 8 \<or> n = k + 16 \<or> n = k + 24"
    by cases (metis mult_0_right add_0_right, metis mult_1_right, simp_all)
  then show "bit v n = bit w n" using assms by auto
qed

lemma swap32_swap32 [simp]: "swap32 (swap32 v) = v"
  by (rule word32_bytes) (simp add: bit_swap32)

section \<open>Header fields\<close>

text \<open>\<^verbatim>\<open>enum PROTO\<close>, \<^verbatim>\<open>enum TCP_OPT\<close>, \<^verbatim>\<open>enum CTRL_TYPE\<close> and the flag bits.\<close>

definition PROTO_TCP :: byte where "PROTO_TCP = 6"
definition PROTO_UDP :: byte where "PROTO_UDP = 17"

definition OPT_NOP :: byte where "OPT_NOP = 1"
definition OPT_MSS :: byte where "OPT_MSS = 2"
definition OPT_WS :: byte where "OPT_WS = 3"
definition OPT_SACKF :: byte where "OPT_SACKF = 4"
definition OPT_SACK :: byte where "OPT_SACK = 5"

definition CTRL_PROXY :: int where "CTRL_PROXY = 2"
definition CTRL_CAPTURE :: int where "CTRL_CAPTURE = 8"

definition FIN :: byte where "FIN = 1"
definition SYN :: byte where "SYN = 2"
definition RST :: byte where "RST = 4"
definition PSH :: byte where "PSH = 8"
definition ACK :: byte where "ACK = 16"

lemmas flag_defs = FIN_def SYN_def RST_def PSH_def ACK_def

definition getIPVer :: "packet \<Rightarrow> byte" where
  "getIPVer h = drop_bit 4 (h 0)"

definition getTTLEN :: "packet \<Rightarrow> u16" where
  "getTTLEN h = swap16 (ld16 h 2)"

definition getProtocol :: "packet \<Rightarrow> byte" where
  "getProtocol h = h 9"

definition getChecksum :: "packet \<Rightarrow> u16" where
  "getChecksum h = ld16 h 10"

definition getSrc :: "packet \<Rightarrow> u32" where
  "getSrc h = ld32 h 12"

definition getDest :: "packet \<Rightarrow> u32" where
  "getDest h = ld32 h 16"

definition getHeaderLen :: "packet \<Rightarrow> nat" where
  "getHeaderLen h = unat (h 0 AND 0x0F) * 4"

text \<open>
  The TCP header starts at offset \<open>t\<close>: the bit-field \<^verbatim>\<open>dataoff\<close> is the high half of byte 12, the
  flags are byte 13. \<^verbatim>\<open>getTCPHeaderLen\<close> returns a \<^verbatim>\<open>uint8_t\<close>, which holds every multiple of four up to 60.
\<close>

definition tcp_dataoff :: "packet \<Rightarrow> nat \<Rightarrow> nat" where
  "tcp_dataoff h t = unat (drop_bit 4 (h (t + 12)))"

definition getTCPHeaderLen :: "packet \<Rightarrow> nat \<Rightarrow> nat" where
  "getTCPHeaderLen h t = tcp_dataoff h t * 4"

definition getPayloadOffset :: "packet \<Rightarrow> nat" where
  "getPayloadOffset ip =
     (if getProtocol ip = PROTO_UDP then getHeaderLen ip + 8
      else if getProtocol ip = PROTO_TCP then getHeaderLen ip + getTCPHeaderLen ip (getHeaderLen ip)
      else 0)"

text \<open>The result is an \<^verbatim>\<open>int\<close> and negative when the length field is too small for the headers.\<close>

definition getPayloadLen :: "packet \<Rightarrow> int" where
  "getPayloadLen ip = int (unat (getTTLEN ip)) - int (getPayloadOffset ip)"

definition getSrcPort :: "packet \<Rightarrow> u16" where
  "getSrcPort ip =
     (if getProtocol ip = PROTO_UDP \<or> getProtocol ip = PROTO_TCP then ld16 ip (getHeaderLen ip) else 0)"

definition getDestPort :: "packet \<Rightarrow> u16" where
  "getDestPort ip =
     (if getProtocol ip = PROTO_UDP \<or> getProtocol ip = PROTO_TCP
      then ld16 ip (getHeaderLen ip + 2) else 0)"

definition tcp_seq :: "packet \<Rightarrow> u32" where
  "tcp_seq ip = swap32 (ld32 ip (getHeaderLen ip + 4))"

definition tcp_ack_seq :: "packet \<Rightarrow> u32" where
  "tcp_ack_seq ip = swap32 (ld32 ip (getHeaderLen ip + 8))"

definition tcp_flags :: "packet \<Rightarrow> byte" where
  "tcp_flags ip = ip (getHeaderLen ip + 13)"

definition tcp_window :: "packet \<Rightarrow> u16" where
  "tcp_window ip = swap16 (ld16 ip (getHeaderLen ip + 14))"

definition tcp_checksum :: "packet \<Rightarrow> u16" where
  "tcp_checksum ip = ld16 ip (getHeaderLen ip + 16)"

text \<open>\<open>ip_payload\<close> is the memory \<^verbatim>\<open>(uint8_t*)&ip + getPayloadOffset(ip)\<close>, \<open>n\<close> bytes of it.\<close>

definition ip_payload :: "packet \<Rightarrow> nat \<Rightarrow> bytes" where
  "ip_payload ip n = map (\<lambda>i. ip (getPayloadOffset ip + i)) [0..<n]"

section \<open>TCP states\<close>

datatype TCP_STATE =
  LISTEN | SYN_SENT | SYN_RCVED | ESTABLISHED | FIN_WAIT1 | FIN_WAIT2
  | CLOSE_WAIT | CLOSING | LAST_ACK | TIME_WAIT | CLOSED

fun tcpstate2cstr :: "TCP_STATE \<Rightarrow> string" where
  "tcpstate2cstr LISTEN = ''LISTEN''"
| "tcpstate2cstr SYN_SENT = ''SYN_SENT''"
| "tcpstate2cstr SYN_RCVED = ''SYN_RCVED''"
| "tcpstate2cstr ESTABLISHED = ''ESTABLISHED''"
| "tcpstate2cstr FIN_WAIT1 = ''FIN_WAIT1''"
| "tcpstate2cstr FIN_WAIT2 = ''FIN_WAIT2''"
| "tcpstate2cstr CLOSE_WAIT = ''CLOSE_WAIT''"
| "tcpstate2cstr CLOSING = ''CLOSING''"
| "tcpstate2cstr LAST_ACK = ''LAST_ACK''"
| "tcpstate2cstr TIME_WAIT = ''TIME_WAIT''"
| "tcpstate2cstr CLOSED = ''CLOSED''"

section \<open>TCP options\<close>

text \<open>
  \<^verbatim>\<open>getOptionAddr\<close>: \<open>p\<close> is the offset of \<^verbatim>\<open>options\<close>. The result is \<^term>\<open>None\<close> where the loop does not
  end (an option of length 0 moves neither \<^verbatim>\<open>options\<close> nor \<^verbatim>\<open>optlen\<close>), otherwise the found
  offset or \<^verbatim>\<open>NULL\<close>.
\<close>

partial_function (option) option_loop ::
  "packet \<Rightarrow> byte \<Rightarrow> int \<Rightarrow> nat \<Rightarrow> nat option option" where
  "option_loop m opt optlen p =
     (if optlen > 0
      then if opt = m p then Some (Some p)
           else if m p = 0 then Some None
           else if m p = OPT_NOP then option_loop m opt (optlen - 1) (p + 1)
           else option_loop m opt (optlen - int (unat (m (p + 1)))) (p + unat (m (p + 1)))
      else Some None)"

definition getOptionAddr :: "packet \<Rightarrow> nat \<Rightarrow> byte \<Rightarrow> nat option option" where
  "getOptionAddr m t opt = option_loop m opt ((int (tcp_dataoff m t) - 5) * 4) (t + 20)"

text \<open>Option lists as RFC 793 lays them out.\<close>

datatype tcp_item = NopItem | OptItem byte bytes

fun item_bytes :: "tcp_item \<Rightarrow> bytes" where
  "item_bytes NopItem = [OPT_NOP]"
| "item_bytes (OptItem k body) = k # word_of_nat (length body + 2) # body"

fun item_ok :: "tcp_item \<Rightarrow> bool" where
  "item_ok NopItem = True"
| "item_ok (OptItem k body) = (k \<noteq> 0 \<and> k \<noteq> OPT_NOP \<and> length body + 2 < 256)"

fun item_kind :: "tcp_item \<Rightarrow> byte" where
  "item_kind NopItem = OPT_NOP"
| "item_kind (OptItem k body) = k"

text \<open>The offset of the first item of a kind, counted from \<open>p\<close>.\<close>

fun first_item :: "byte \<Rightarrow> nat \<Rightarrow> tcp_item list \<Rightarrow> nat option" where
  "first_item k p [] = None"
| "first_item k p (it # its) =
     (if item_kind it = k then Some p else first_item k (p + length (item_bytes it)) its)"

text \<open>\<open>laid_out m p bs\<close>: the bytes \<open>bs\<close> are in memory at \<open>p\<close>.\<close>

fun laid_out :: "packet \<Rightarrow> nat \<Rightarrow> bytes \<Rightarrow> bool" where
  "laid_out m p [] = True"
| "laid_out m p (x # xs) = (m p = x \<and> laid_out m (p + 1) xs)"

lemma laid_out_append:
  "laid_out m p (xs @ ys) \<longleftrightarrow> laid_out m p xs \<and> laid_out m (p + length xs) ys"
  by (induction xs arbitrary: p) simp_all

text \<open>The loop over a well-formed prefix that does not hold the option, whatever follows.\<close>

lemma option_loop_skip:
  assumes "\<forall>it \<in> set its. item_ok it" "laid_out m p (concat (map item_bytes its))"
    "first_item k p its = None" "0 \<le> r"
  shows "option_loop m k (int (length (concat (map item_bytes its))) + r) p
       = option_loop m k r (p + length (concat (map item_bytes its)))"
  using assms
proof (induction its arbitrary: p)
  case Nil
  then show ?case by simp
next
  case (Cons it its)
  show ?case
  proof (cases it)
    case NopItem
    with Cons show ?thesis
      by (subst option_loop.simps) (auto simp: OPT_NOP_def algebra_simps split: if_splits)
  next
    case (OptItem k' body)
    then have len: "unat (word_of_nat (length body + 2) :: byte) = length body + 2"
      using Cons.prems(1) by (intro unat_word_of_nat) simp
    have "option_loop m k (int (length (concat (map item_bytes its))) + r) (p + (length body + 2))
        = option_loop m k r (p + (length body + 2) + length (concat (map item_bytes its)))"
      using Cons OptItem by (intro Cons.IH) (auto simp: laid_out_append add.assoc split: if_splits)
    with Cons.prems OptItem len show ?thesis
      by (subst option_loop.simps) (auto simp: laid_out_append algebra_simps split: if_splits)
  qed
qed

lemma option_loop_found:
  assumes "\<forall>it \<in> set its. item_ok it" "laid_out m p (concat (map item_bytes its))"
    "first_item k p its = Some q" "0 \<le> r"
  shows "option_loop m k (int (length (concat (map item_bytes its))) + r) p = Some (Some q)"
  using assms
proof (induction its arbitrary: p)
  case Nil
  then show ?case by simp
next
  case (Cons it its)
  show ?case
  proof (cases it)
    case NopItem
    with Cons show ?thesis
      by (subst option_loop.simps) (auto simp: OPT_NOP_def algebra_simps split: if_splits)
  next
    case (OptItem k' body)
    then have len: "unat (word_of_nat (length body + 2) :: byte) = length body + 2"
      using Cons.prems(1) by (intro unat_word_of_nat) simp
    show ?thesis
    proof (cases "k' = k")
      case True
      with Cons.prems OptItem show ?thesis by (subst option_loop.simps) auto
    next
      case False
      have "option_loop m k (int (length (concat (map item_bytes its))) + r) (p + (length body + 2))
          = Some (Some q)"
        using Cons OptItem False by (intro Cons.IH) (auto simp: laid_out_append add.assoc)
      with Cons.prems OptItem False len show ?thesis
        by (subst option_loop.simps) (auto simp: laid_out_append algebra_simps)
    qed
  qed
qed

text \<open>An option of length 0 repeats the same iteration for ever.\<close>

lemma option_loop_stuck:
  assumes "0 < n" "m p \<noteq> k" "m p \<noteq> 0" "m p \<noteq> OPT_NOP" "m (p + 1) = 0"
  shows "option_loop m k n p = None"
proof -
  have "\<not> (m' = m \<and> k' = k \<and> n' = n \<and> p' = p)" if "option_loop m' k' n' p' = Some y" for m' k' n' p' y
    by (rule option_loop.raw_induct
          [where P = "\<lambda>m' k' n' p' y. \<not> (m' = m \<and> k' = k \<and> n' = n \<and> p' = p)", OF _ that])
      (use assms in \<open>fastforce split: if_splits\<close>)
  then show ?thesis by (metis not_Some_eq)
qed

text \<open>
  Claim C12. The option search on an option area of well-formed options followed by any
  number of zero bytes returns: it finds the first option of the kind asked for, and NULL
  exactly when there is none.
\<close>

theorem getOptionAddr_first:
  assumes "\<forall>it \<in> set its. item_ok it" "k \<noteq> 0"
    "laid_out m (t + 20) (concat (map item_bytes its) @ replicate n 0)"
    "tcp_dataoff m t * 4 = 20 + length (concat (map item_bytes its)) + n"
  shows "getOptionAddr m t k = Some (first_item k (t + 20) its)"
proof -
  have len: "(int (tcp_dataoff m t) - 5) * 4 = int (length (concat (map item_bytes its))) + int n"
    using assms(4) by simp
  have lay: "laid_out m (t + 20) (concat (map item_bytes its))"
    using assms(3) by (simp add: laid_out_append)
  show ?thesis
  proof (cases "first_item k (t + 20) its")
    case (Some q)
    then show ?thesis
      unfolding getOptionAddr_def len by (simp add: option_loop_found [OF assms(1) lay Some])
  next
    case None
    have "option_loop m k (int n) (t + 20 + length (concat (map item_bytes its))) = Some None"
      using assms(2,3) by (subst option_loop.simps) (cases n, auto simp: laid_out_append)
    then show ?thesis
      unfolding getOptionAddr_def len using option_loop_skip [OF assms(1) lay None, of "int n"] None
      by simp
  qed
qed

theorem getOptionAddr_first_witness:
  "getOptionAddr (mem_of (replicate 12 0 @ 0x70 # replicate 7 0 @ [2, 4, 0x10, 0x27, 3, 3, 7, 0])) 0 OPT_WS
   = Some (Some 24)"
proof -
  define m where "m = mem_of (replicate 12 0 @ 0x70 # replicate 7 0 @ [2, 4, 0x10, 0x27, 3, 3, 7, 0])"
  have "getOptionAddr m 0 OPT_WS
      = Some (first_item OPT_WS (0 + 20) [OptItem OPT_MSS [0x10, 0x27], OptItem OPT_WS [7]])"
    by (rule getOptionAddr_first [where n = 1])
      (simp_all add: m_def mem_of_def nth_append OPT_WS_def OPT_MSS_def OPT_NOP_def tcp_dataoff_def)
  then show ?thesis by (simp add: m_def OPT_WS_def OPT_MSS_def)
qed

text \<open>
  Claim C13. The search never returns on an option area in which an option of length 0
  stands before the option asked for: the packet hangs the thread that routes every packet.
\<close>

theorem getOptionAddr_hangs:
  assumes "\<forall>it \<in> set its. item_ok it" "first_item k (t + 20) its = None"
    "laid_out m (t + 20) (concat (map item_bytes its) @ [j, 0])"
    "j \<noteq> k" "j \<noteq> 0" "j \<noteq> OPT_NOP"
    "20 + length (concat (map item_bytes its)) < tcp_dataoff m t * 4"
  shows "getOptionAddr m t k = None"
proof -
  define r where "r = int (tcp_dataoff m t * 4) - 20 - int (length (concat (map item_bytes its)))"
  have r: "0 < r" using assms(7) by (simp add: r_def)
  have len: "(int (tcp_dataoff m t) - 5) * 4 = int (length (concat (map item_bytes its))) + r"
    by (simp add: r_def algebra_simps)
  have lay: "laid_out m (t + 20) (concat (map item_bytes its))"
    using assms(3) by (simp add: laid_out_append)
  have "option_loop m k r (t + 20 + length (concat (map item_bytes its))) = None"
    using assms(3-6) r by (intro option_loop_stuck) (auto simp: laid_out_append)
  then show ?thesis
    unfolding getOptionAddr_def len using option_loop_skip [OF assms(1) lay assms(2)] r by simp
qed

theorem getOptionAddr_hangs_witness:
  "getOptionAddr (mem_of (replicate 12 0 @ 0x60 # replicate 7 0 @ [4, 0, 0, 0])) 0 OPT_MSS = None"
  by (rule getOptionAddr_hangs [where its = "[]" and j = OPT_SACKF])
    (simp_all add: mem_of_def nth_append OPT_SACKF_def OPT_MSS_def OPT_NOP_def tcp_dataoff_def)

end
