(* ===== verification/Checksum.thy ===== *)
theory Checksum
  imports IPAdpt
begin

text \<open>
  \<^verbatim>\<open>vpnlib::computeChecksum\<close> of \<^verbatim>\<open>core/IPAdpt.cpp\<close>, with the 32-bit sum of its loop, and what it
  computes: the one's complement sum of RFC 1071 over little-endian halfwords.
\<close>

section \<open>The routine\<close>

text \<open>The first loop and the odd byte after it; \<open>sum\<close> has 32 bits.\<close>

fun sum16 :: "u32 \<Rightarrow> bytes \<Rightarrow> u32" where
  "sum16 acc (b0 # b1 # bs) = sum16 (acc + ucast (le16 b0 b1)) bs"
| "sum16 acc [b] = acc + ucast b"
| "sum16 acc [] = acc"

lemma fold16_decreases:
  fixes acc :: u32
  assumes "drop_bit 16 acc \<noteq> 0"
  shows "unat ((acc AND 0xFFFF) + drop_bit 16 acc) = unat acc mod 65536 + unat acc div 65536"
    and "unat acc div 65536 > 0"
proof -
  have "(0xFFFF :: u32) = mask 16" by (simp add: mask_eq_exp_minus_1)
  then have lo: "unat (acc AND 0xFFFF) = unat acc mod 65536"
    by (simp only: flip: take_bit_eq_mask) (simp add: take_bit_eq_mod unat_mod_distrib)
  have hi: "unat (drop_bit 16 acc) = unat acc div 65536"
    by (simp add: drop_bit_eq_div unat_div_distrib)
  have "unat acc < 4294967296" using unsigned_less [of acc] by simp
  then have "unat acc div 65536 < 65536" by (simp add: less_mult_imp_div_less)
  moreover have "unat acc mod 65536 < 65536" by simp
  ultimately show "unat ((acc AND 0xFFFF) + drop_bit 16 acc) = unat acc mod 65536 + unat acc div 65536"
    by (subst unat_add_small) (simp_all add: lo hi)
  show "unat acc div 65536 > 0"
    using assms hi by (metis gr0I unat_eq_zero)
qed

text \<open>The second loop, \<^verbatim>\<open>while(sum >> 16)\<close>.\<close>

function fold16 :: "u32 \<Rightarrow> u32" where
  "fold16 acc =
     (if drop_bit 16 acc \<noteq> 0 then fold16 ((acc AND 0xFFFF) + drop_bit 16 acc) else acc)"
  by pat_completeness auto

termination
proof (relation "measure unat", goal_cases)
  case 1
  then show ?case by simp
next
  case (2 acc)
  have "unat acc = unat acc div 65536 * 65536 + unat acc mod 65536" by simp
  with fold16_decreases [OF 2] show ?case unfolding in_measure by linarith
qed

declare fold16.simps [simp del]

definition computeChecksum :: "u16 \<Rightarrow> bytes \<Rightarrow> u16" where
  "computeChecksum start buffer = ucast (fold16 (sum16 (ucast start) buffer))"

section \<open>One's complement sums\<close>

text \<open>The sum of the halfwords, and its residue in 1..65535 (0 only for 0).\<close>

fun halfwords :: "bytes \<Rightarrow> nat" where
  "halfwords (b0 # b1 # bs) = unat b0 + 256 * unat b1 + halfwords bs"
| "halfwords [b] = unat b"
| "halfwords [] = 0"

definition ones :: "nat \<Rightarrow> nat" where
  "ones n = (if n = 0 then 0 else (n - 1) mod 65535 + 1)"

lemma ones_small: "n < 65536 \<Longrightarrow> ones n = n"
  by (auto simp: ones_def)

lemma ones_less: "ones n < 65536"
proof -
  have "(n - 1) mod 65535 < 65535" by simp
  then show ?thesis unfolding ones_def by simp
qed

lemma ones_add_mult: "0 < n \<Longrightarrow> ones (n + 65535 * q) = ones n"
proof -
  assume "0 < n"
  then have "n + 65535 * q - 1 = (n - 1) + 65535 * q" by simp
  then have "(n + 65535 * q - 1) mod 65535 = (n - 1) mod 65535" by simp
  with \<open>0 < n\<close> show ?thesis unfolding ones_def by simp
qed

lemma ones_decomp: "\<exists>q. n = ones n + 65535 * q"
proof (cases "n = 0")
  case True
  then show ?thesis by (simp add: ones_def)
next
  case False
  have "n - 1 = (n - 1) mod 65535 + 65535 * ((n - 1) div 65535)" by simp
  moreover have "ones n = (n - 1) mod 65535 + 1" using False by (simp add: ones_def)
  ultimately have "n = ones n + 65535 * ((n - 1) div 65535)" using False by linarith
  then show ?thesis by blast
qed

lemma ones_pos: "0 < n \<Longrightarrow> 0 < ones n"
  by (simp add: ones_def)

lemma ones_add: "ones (ones a + b) = ones (a + b)"
proof (cases "a = 0")
  case True
  then show ?thesis by (simp add: ones_def)
next
  case False
  obtain q where q: "a = ones a + 65535 * q" using ones_decomp by blast
  then have "a + b = (ones a + b) + 65535 * q" by simp
  moreover have "0 < ones a + b" using False ones_pos by simp
  ultimately show ?thesis using ones_add_mult by metis
qed

lemma unat_ucast_u32: "LENGTH('a) \<le> 32 \<Longrightarrow> unat (ucast (w :: 'a::len word) :: u32) = unat w"
proof -
  assume "LENGTH('a) \<le> 32"
  then have "(2 :: nat) ^ LENGTH('a) \<le> 2 ^ 32" by (rule power_increasing) simp
  with unsigned_less [of w] have "unat w < 2 ^ 32" by (rule less_le_trans)
  then show ?thesis
    by (simp add: unsigned_ucast_eq unsigned_take_bit_eq take_bit_nat_eq_self)
qed

lemma unat_ucast_u16: "unat w < 65536 \<Longrightarrow> unat (ucast (w :: u32) :: u16) = unat w"
  by (simp add: unsigned_ucast_eq unsigned_take_bit_eq take_bit_eq_mod)

lemma unat_le16: "unat (le16 b0 b1) = unat b0 + 256 * unat b1"
proof -
  have "unat b0 + 256 * unat b1 < 65536"
    using unat_byte_less [of b0] unat_byte_less [of b1] by linarith
  then have "unat b0 + 256 * unat b1 < 2 ^ LENGTH(16)" by simp
  then show ?thesis unfolding le16_def by (rule unat_word_of_nat)
qed

lemma halfwords_le: "halfwords bs \<le> 65535 * ((length bs + 1) div 2)"
proof (induction bs rule: halfwords.induct)
  case (1 b0 b1 bs)
  have "unat b0 + 256 * unat b1 \<le> 65535"
    using unat_byte_less [of b0] unat_byte_less [of b1] by linarith
  with 1 show ?case by simp
next
  case (2 b)
  have "unat b \<le> 65535" using unat_byte_less [of b] by linarith
  then show ?case by simp
qed simp

lemma halfwords_append:
  "even (length xs) \<Longrightarrow> halfwords (xs @ ys) = halfwords xs + halfwords ys"
  by (induction xs rule: halfwords.induct) auto

lemma unat_sum16:
  "unat acc + halfwords bs < 2 ^ 32 \<Longrightarrow> unat (sum16 acc bs) = unat acc + halfwords bs"
proof (induction acc bs rule: sum16.induct)
  case (1 acc b0 b1 bs)
  have "unat (acc + ucast (le16 b0 b1)) = unat acc + (unat b0 + 256 * unat b1)"
    using 1(2) by (subst unat_add_small) (simp_all add: unat_le16 unat_ucast_u32)
  with 1 show ?case by simp
next
  case (2 acc b)
  then show ?case by (simp add: unat_add_small unat_ucast_u32)
qed simp

lemma unat_fold16: "unat (fold16 acc) = ones (unat acc)"
proof (induction acc rule: fold16.induct)
  case (1 acc)
  show ?case
  proof (cases "drop_bit 16 acc = 0")
    case True
    have "unat (drop_bit 16 acc) = unat acc div 65536"
      by (simp add: drop_bit_eq_div unat_div_distrib)
    with True have "unat acc div 65536 = 0" by simp
    then have "unat acc < 65536" by (simp add: div_eq_0_iff)
    with True show ?thesis by (simp add: fold16.simps ones_small)
  next
    case False
    note step = fold16_decreases [OF False]
    define s where "s = unat acc mod 65536 + unat acc div 65536"
    have "unat acc = unat acc div 65536 * 65536 + unat acc mod 65536" by simp
    then have "unat acc = s + 65535 * (unat acc div 65536)" unfolding s_def by linarith
    moreover have "0 < s" using step(2) by (simp add: s_def)
    ultimately have "ones (unat acc) = ones s" using ones_add_mult by metis
    with 1 False step(1) show ?thesis
      by (simp add: fold16.simps [of acc] s_def)
  qed
qed

lemma unat_computeChecksum:
  assumes "length buf \<le> 131070"
  shows "unat (computeChecksum start buf) = ones (unat start + halfwords buf)"
proof -
  have "(length buf + 1) div 2 \<le> 65535" using assms by simp
  then have "halfwords buf \<le> 65535 * 65535"
    using halfwords_le [of buf] by (meson le_trans mult_le_mono2)
  moreover have "unat start < 65536" using unsigned_less [of start] by simp
  ultimately have "unat start + halfwords buf < 2 ^ 32" by simp
  then have "unat (fold16 (sum16 (ucast start) buf)) = ones (unat start + halfwords buf)"
    by (simp add: unat_fold16 unat_sum16 unat_ucast_u32)
  then show ?thesis
    using ones_less by (simp add: computeChecksum_def unat_ucast_u16)
qed

section \<open>What the checksum guarantees\<close>

lemma word_u16_eqI: "unat a = unat b \<Longrightarrow> a = (b :: u16)"
  by (simp add: word_unat_eq_iff)

lemma computeChecksum_append:
  assumes "even (length xs)" "length xs + length ys \<le> 131070"
  shows "computeChecksum (computeChecksum start xs) ys = computeChecksum start (xs @ ys)"
  using assms
  by (intro word_u16_eqI) (simp add: unat_computeChecksum halfwords_append ones_add add.assoc)

lemma computeChecksum_Nil [simp]: "computeChecksum start [] = start"
proof (rule word_u16_eqI)
  have "unat start < 65536" using unsigned_less [of start] by simp
  then show "unat (computeChecksum start []) = unat start"
    by (simp add: unat_computeChecksum ones_small)
qed

text \<open>The two bytes of a halfword in memory order.\<close>

definition st16 :: "u16 \<Rightarrow> bytes" where
  "st16 v = [ucast v, ucast (drop_bit 8 v)]"

lemma length_st16 [simp]: "length (st16 v) = 2"
  by (simp add: st16_def)

lemma halfwords_st16: "halfwords (st16 v) = unat v"
proof -
  have "unat v < 65536" using unsigned_less [of v] by simp
  then have "unat v div 256 < 256" by (simp add: less_mult_imp_div_less)
  then have "unat (ucast (drop_bit 8 v) :: byte) = unat v div 256"
    by (simp add: unsigned_ucast_eq unsigned_take_bit_eq take_bit_eq_mod drop_bit_eq_div
        unat_div_distrib)
  moreover have "unat (ucast v :: byte) = unat v mod 256"
    by (simp add: unsigned_ucast_eq unsigned_take_bit_eq take_bit_eq_mod)
  ultimately show ?thesis by (simp add: st16_def)
qed

lemma le16_st16: "le16 (ucast v) (ucast (drop_bit 8 v)) = v"
  using halfwords_st16 [of v] by (intro word_u16_eqI) (simp add: unat_le16 st16_def)

lemma unat_not16: "unat (NOT v :: u16) = 65535 - unat v"
proof -
  have "NOT v = - 1 - v" by (simp add: not_eq_complement)
  moreover have "v \<le> - 1" by simp
  ultimately show ?thesis by (simp add: unat_sub_le unsigned_minus_1_eq_mask mask_eq_exp_minus_1)
qed

text \<open>
  Storing the complement of the sum in a zero field, at an even offset, makes the whole verify.
\<close>

lemma checksum_field_verifies:
  assumes "even (length pre)" "length pre + length post + 2 \<le> 131070"
  shows "computeChecksum start
      (pre @ st16 (NOT (computeChecksum start (pre @ st16 0 @ post))) @ post) = 0xFFFF"
proof (rule word_u16_eqI)
  define T where "T = unat start + (halfwords pre + halfwords post)"
  have sum: "halfwords (pre @ st16 v @ post) = halfwords pre + unat v + halfwords post" for v
    using assms(1) by (simp add: halfwords_append halfwords_st16)
  have c: "unat (computeChecksum start (pre @ st16 0 @ post)) = ones T"
    using assms(2) by (simp add: unat_computeChecksum sum T_def)
  have "unat (computeChecksum start
      (pre @ st16 (NOT (computeChecksum start (pre @ st16 0 @ post))) @ post))
      = ones (T + (65535 - ones T))"
    using assms(2) by (simp add: unat_computeChecksum sum unat_not16 c T_def algebra_simps)
  also have "\<dots> = ones (ones T + (65535 - ones T))" by (simp add: ones_add)
  also have "ones T + (65535 - ones T) = 65535" using ones_less [of T] by simp
  finally show "unat (computeChecksum start
      (pre @ st16 (NOT (computeChecksum start (pre @ st16 0 @ post))) @ post)) = unat (0xFFFF :: u16)"
    by (simp add: ones_def)
qed

text \<open>
  Claim C11. For every buffer of at most 131070 bytes, odd lengths included, the routine returns the
  sum of the start value and the little-endian halfwords, reduced modulo 65535 to the range 1 to
  65535, and 0 only when every summand is 0: the 32-bit accumulator never overflows.
\<close>

theorem computeChecksum_spec:
  assumes "length buf \<le> 131070"
  shows "unat (computeChecksum start buf) =
     (if unat start + halfwords buf = 0 then 0 else (unat start + halfwords buf - 1) mod 65535 + 1)"
  using assms by (simp add: unat_computeChecksum ones_def)

theorem computeChecksum_spec_witness:
  "unat (computeChecksum 0xFFFF [0xFF, 0xFF, 1]) = 1"
  by (subst computeChecksum_spec) simp_all

end
