(* ===== verification/Segment.thy ===== *)
theory Segment
  imports Prelude
begin

text \<open>
  \<^verbatim>\<open>core/BufferQueue.h\<close> and \<^verbatim>\<open>core/BufferQueue.cpp\<close>: the class \<^verbatim>\<open>Segment\<close>, a byte array with a
  window \<^verbatim>\<open>[mPos, mLimit)\<close> of unread bytes and a saved window, and its subclass
  \<^verbatim>\<open>BufferSegment\<close>. The fields of \<^verbatim>\<open>size_t\<close> are 32-bit words, so their sums wrap as on the
  two ABIs. The array is \<^term>\<open>None\<close> while the pointer is uninitialised (the constructor
  returns early on an invalid size). An operation whose \<^verbatim>\<open>memcpy\<close> would leave the array,
  use the uninitialised pointer or copy between overlapping ranges has no defined result
  and is \<^term>\<open>None\<close>.
\<close>

record segment =
  mData :: "bytes option"
  mSize :: size_t
  mPos :: size_t
  mLimit :: size_t
  mMarkPos :: size_t
  mMarkLimit :: size_t

text \<open>\<^verbatim>\<open>Segment::Segment(size_t)\<close>; the bound is \<^verbatim>\<open>1 << 19\<close>.\<close>

definition seg_max :: size_t where
  "seg_max = 524288"

definition segment_new :: "size_t \<Rightarrow> segment" where
  "segment_new sz =
     (if sz < 1 \<or> sz > seg_max
      then \<lparr>mData = None, mSize = 0, mPos = 0, mLimit = 0, mMarkPos = 0, mMarkLimit = 0\<rparr>
      else \<lparr>mData = Some (replicate (unat sz) 0), mSize = sz, mPos = 0, mLimit = 0,
            mMarkPos = 0, mMarkLimit = 0\<rparr>)"

text \<open>\<^verbatim>\<open>~Segment\<close> runs \<^verbatim>\<open>delete[] mData\<close>: defined only for an initialised pointer.\<close>

definition seg_delete_ok :: "'a segment_scheme \<Rightarrow> bool" where
  "seg_delete_ok s \<longleftrightarrow> mData s \<noteq> None"

definition seg_capacity :: "'a segment_scheme \<Rightarrow> size_t" where
  "seg_capacity s = mSize s"

definition seg_consume :: "size_t \<Rightarrow> 'a segment_scheme \<Rightarrow> 'a segment_scheme" where
  "seg_consume n s = (if mPos s + n \<le> mLimit s then s\<lparr>mPos := mPos s + n\<rparr> else s)"

definition seg_set_limit :: "size_t \<Rightarrow> 'a segment_scheme \<Rightarrow> 'a segment_scheme" where
  "seg_set_limit l s = (if l \<le> mSize s then s\<lparr>mLimit := l\<rparr> else s)"

definition seg_get_limit :: "'a segment_scheme \<Rightarrow> size_t" where
  "seg_get_limit s = mLimit s"

text \<open>
  \<^verbatim>\<open>write(data, len)\<close>: \<open>data\<close> is the memory the pointer points to. The result is the number
  of bytes copied and the segment after the copy.
\<close>

definition seg_write :: "bytes \<Rightarrow> size_t \<Rightarrow> 'a segment_scheme \<Rightarrow> (size_t \<times> 'a segment_scheme) option" where
  "seg_write src len s =
     (let l = (if mLimit s + len > mSize s then mSize s - mLimit s else len)
      in if l > 0
         then (case mData s of
                 None \<Rightarrow> None
               | Some d \<Rightarrow>
                   if unat l \<le> length src \<and> unat (mLimit s) + unat l \<le> length d
                   then Some (l, s\<lparr>mData := Some (blit d (unat (mLimit s)) (take (unat l) src)),
                                   mLimit := mLimit s + l\<rparr>)
                   else None)
         else Some (l, s))"

text \<open>
  \<^verbatim>\<open>flip()\<close> moves the unread bytes to the front with \<^verbatim>\<open>memcpy(mData, mData + mPos, mLimit - mPos)\<close>,
  which is undefined when the two ranges overlap and are not empty.
\<close>

definition seg_flip :: "'a segment_scheme \<Rightarrow> 'a segment_scheme option" where
  "seg_flip s =
     (if mLimit s > 0
      then (case mData s of
              None \<Rightarrow> None
            | Some d \<Rightarrow>
                let n = mLimit s - mPos s
                in if unat (mPos s) + unat n \<le> length d \<and> (n = 0 \<or> n \<le> mPos s)
                   then Some (s\<lparr>mData := Some (blit d 0 (take (unat n) (drop (unat (mPos s)) d))),
                                mLimit := n, mPos := 0\<rparr>)
                   else None)
      else Some s)"

definition seg_reset :: "'a segment_scheme \<Rightarrow> 'a segment_scheme" where
  "seg_reset s = s\<lparr>mMarkLimit := 0, mMarkPos := 0, mPos := 0, mLimit := 0\<rparr>"

definition seg_mark :: "'a segment_scheme \<Rightarrow> 'a segment_scheme" where
  "seg_mark s = s\<lparr>mMarkPos := mPos s, mMarkLimit := mLimit s\<rparr>"

definition seg_resume :: "'a segment_scheme \<Rightarrow> 'a segment_scheme" where
  "seg_resume s = s\<lparr>mPos := mMarkPos s, mLimit := mMarkLimit s\<rparr>"

definition seg_remain :: "'a segment_scheme \<Rightarrow> size_t" where
  "seg_remain s = mSize s - mLimit s"

definition seg_size :: "'a segment_scheme \<Rightarrow> size_t" where
  "seg_size s = mLimit s - mPos s"

lemmas seg_all_defs [seg_defs] =
  seg_capacity_def seg_consume_def seg_set_limit_def seg_get_limit_def seg_reset_def
  seg_mark_def seg_resume_def seg_remain_def seg_size_def

text \<open>\<^verbatim>\<open>BufferSegment\<close>: four flags, plain setters and getters.\<close>

record buffer_segment = segment +
  mBuffering :: bool
  mReleaseAfterBuffering :: bool
  mAbort :: bool
  mNeedCapture :: bool

definition buffer_segment_new :: "size_t \<Rightarrow> buffer_segment" where
  "buffer_segment_new sz = segment.extend (segment_new sz)
     (buffer_segment.fields False False False False)"

section \<open>The invariant and the unread bytes\<close>

text \<open>Well-formed segments: the window lies inside the array, and so does the saved one.\<close>

definition seg_inv :: "'a segment_scheme \<Rightarrow> bool" where
  "seg_inv s \<longleftrightarrow>
     mPos s \<le> mLimit s \<and> mLimit s \<le> mSize s \<and> mMarkPos s \<le> mMarkLimit s \<and> mMarkLimit s \<le> mSize s
     \<and> mSize s \<le> seg_max
     \<and> (case mData s of None \<Rightarrow> mSize s = 0 | Some d \<Rightarrow> length d = unat (mSize s))"

text \<open>The bytes from \<^verbatim>\<open>begin()\<close> on, \<^verbatim>\<open>size()\<close> of them.\<close>

definition seg_bytes :: "'a segment_scheme \<Rightarrow> bytes" where
  "seg_bytes s = (case mData s of None \<Rightarrow> []
     | Some d \<Rightarrow> drop (unat (mPos s)) (take (unat (mLimit s)) d))"

lemma unat_seg_max [simp]: "unat seg_max = 524288"
  by (simp add: seg_max_def)

text \<open>The invariant read on natural numbers, where arithmetic is decided.\<close>

lemma seg_inv_nat:
  "seg_inv s \<longleftrightarrow>
     unat (mPos s) \<le> unat (mLimit s) \<and> unat (mLimit s) \<le> unat (mSize s)
     \<and> unat (mMarkPos s) \<le> unat (mMarkLimit s) \<and> unat (mMarkLimit s) \<le> unat (mSize s)
     \<and> unat (mSize s) \<le> 524288
     \<and> (case mData s of None \<Rightarrow> unat (mSize s) = 0 | Some d \<Rightarrow> length d = unat (mSize s))"
  unfolding seg_inv_def word_le_nat_alt unat_seg_max by (auto simp: unat_eq_0 split: option.splits)

lemma segment_new_inv: "seg_inv (segment_new sz)"
  by (auto simp: segment_new_def seg_inv_def)

lemma segment_new_bytes [simp]: "seg_bytes (segment_new sz) = []"
  by (simp add: segment_new_def seg_bytes_def)

lemma seg_size_bytes:
  assumes "seg_inv s"
  shows "unat (seg_size s) = length (seg_bytes s)"
proof -
  have "mPos s \<le> mLimit s" using assms by (simp add: seg_inv_def)
  then have "unat (seg_size s) = unat (mLimit s) - unat (mPos s)"
    by (simp add: seg_size_def unat_sub_le)
  with assms show ?thesis
    by (auto simp: seg_bytes_def seg_inv_nat split: option.splits)
qed

lemma unat_seg_remain:
  "seg_inv s \<Longrightarrow> unat (seg_remain s) = unat (mSize s) - unat (mLimit s)"
  by (simp add: seg_remain_def seg_inv_def unat_sub_le)

lemma seg_bytes_le: "seg_inv s \<Longrightarrow> length (seg_bytes s) + unat (seg_remain s) \<le> 524288"
  by (auto simp: seg_bytes_def seg_inv_nat unat_seg_remain split: option.splits)

section \<open>What each operation does to the unread bytes\<close>

lemma seg_consume_inv: "seg_inv s \<Longrightarrow> seg_inv (seg_consume n s)"
  by (auto simp: seg_consume_def seg_inv_def split: option.splits)

lemma seg_consume_bytes:
  assumes inv: "seg_inv s" and n: "unat n \<le> length (seg_bytes s)"
  shows "seg_bytes (seg_consume n s) = drop (unat n) (seg_bytes s)"
proof -
  have le: "unat (mPos s) + unat n \<le> unat (mLimit s)" "unat (mLimit s) \<le> 524288"
    using assms by (auto simp: seg_inv_nat seg_bytes_def split: option.splits)
  then have add: "unat (mPos s + n) = unat n + unat (mPos s)"
    by (subst unat_add_small) simp_all
  with le have "mPos s + n \<le> mLimit s" by (simp add: word_le_nat_alt)
  then show ?thesis
    by (simp add: seg_consume_def seg_bytes_def add split: option.splits)
qed

lemma seg_write_cases:
  assumes inv: "seg_inv s" and len: "unat len \<le> length src" "unat len < 2 ^ 31"
  shows "\<exists>s'. seg_write src len s = Some (min len (seg_remain s), s') \<and> seg_inv s'
     \<and> seg_bytes s' = seg_bytes s @ take (min (unat len) (unat (seg_remain s))) src
     \<and> unat (mLimit s') = unat (mLimit s) + min (unat len) (unat (seg_remain s))
     \<and> mSize s' = mSize s \<and> mPos s' = mPos s \<and> segment.more s' = segment.more s"
proof -
  define l where "l = (if mLimit s + len > mSize s then mSize s - mLimit s else len)"
  have bnd: "unat (mLimit s) \<le> unat (mSize s)" "unat (mSize s) \<le> 524288"
    using inv by (simp_all add: seg_inv_nat)
  have sum: "unat (mLimit s + len) = unat (mLimit s) + unat len"
    using bnd len(2) by (intro unat_add_small) simp
  have rem: "unat (mSize s - mLimit s) = unat (mSize s) - unat (mLimit s)"
    using bnd(1) by (simp add: unat_sub_le word_le_nat_alt)
  have ul: "unat l = min (unat len) (unat (seg_remain s))"
    using bnd sum rem by (auto simp: l_def word_less_nat_alt seg_remain_def)
  have lmin: "l = min len (seg_remain s)"
    using ul by (auto simp: min_def word_le_nat_alt word_unat_eq_iff split: if_splits)
  have lim: "unat (mLimit s + l) = unat (mLimit s) + unat l"
    using bnd ul rem by (intro unat_add_small) (simp add: seg_remain_def)
  show ?thesis
  proof (cases "l > 0")
    case False
    then have l0: "l = 0" by (simp add: word_gt_0)
    then have "seg_write src len s = Some (l, s)"
      by (simp add: seg_write_def Let_def l_def [symmetric])
    then show ?thesis using inv ul lmin l0 by (intro exI [of _ s]) simp
  next
    case True
    then have pos: "unat l > 0" by (simp add: word_gt_0 unat_gt_0)
    with ul rem bnd have "unat (mSize s) \<noteq> 0" by (simp add: seg_remain_def)
    with inv obtain d where d: "mData s = Some d" "length d = unat (mSize s)"
      by (auto simp: seg_inv_nat split: option.splits)
    have fits: "unat (mLimit s) + unat l \<le> length d"
      using ul rem bnd d(2) by (simp add: seg_remain_def)
    have srcl: "unat l \<le> length src" using ul len(1) by simp
    define s' where "s' = s\<lparr>mData := Some (blit d (unat (mLimit s)) (take (unat l) src)),
                             mLimit := mLimit s + l\<rparr>"
    have w: "seg_write src len s = Some (l, s')"
      using True d(1) fits srcl by (simp add: seg_write_def Let_def l_def [symmetric] s'_def)
    have "seg_inv s'"
      using inv lim fits srcl d by (simp add: s'_def seg_inv_nat)
    moreover have "seg_bytes s' = seg_bytes s @ take (unat l) src"
    proof -
      have "take (unat (mLimit s + l)) (blit d (unat (mLimit s)) (take (unat l) src))
          = take (unat (mLimit s)) d @ take (unat l) src"
        using take_blit [of "unat (mLimit s)" d "take (unat l) src"] fits srcl lim by simp
      moreover have "unat (mPos s) \<le> unat (mLimit s)" using inv by (simp add: seg_inv_nat)
      ultimately show ?thesis using d fits
        by (simp add: seg_bytes_def s'_def)
    qed
    ultimately show ?thesis using w ul lmin lim by (intro exI [of _ s']) (simp add: s'_def)
  qed
qed

text \<open>A \<^verbatim>\<open>write\<close> of a whole byte list, its return value ignored.\<close>

definition seg_put :: "bytes \<Rightarrow> 'a segment_scheme \<Rightarrow> 'a segment_scheme option" where
  "seg_put xs s = map_option snd (seg_write xs (word_of_nat (length xs)) s)"

lemma seg_put_fits:
  assumes inv: "seg_inv s" and fits: "length xs \<le> unat (seg_remain s)"
  shows "\<exists>s'. seg_put xs s = Some s' \<and> seg_inv s' \<and> seg_bytes s' = seg_bytes s @ xs
     \<and> unat (seg_remain s') + length xs = unat (seg_remain s)
     \<and> mSize s' = mSize s \<and> mPos s' = mPos s \<and> segment.more s' = segment.more s"
proof -
  have small: "length xs < 2 ^ 31" using seg_bytes_le [OF inv] fits by simp
  then have len: "unat (word_of_nat (length xs) :: size_t) = length xs" by simp
  obtain s' where s': "seg_write xs (word_of_nat (length xs)) s
       = Some (min (word_of_nat (length xs)) (seg_remain s), s')" "seg_inv s'"
     "seg_bytes s' = seg_bytes s @ take (min (length xs) (unat (seg_remain s))) xs"
     "unat (mLimit s') = unat (mLimit s) + min (length xs) (unat (seg_remain s))"
     "mSize s' = mSize s" "mPos s' = mPos s" "segment.more s' = segment.more s"
    using seg_write_cases [OF inv, of "word_of_nat (length xs)" xs] small len by auto
  have "unat (seg_remain s') + length xs = unat (seg_remain s)"
    using s'(2,4,5) inv fits by (simp add: unat_seg_remain)
  with s' fits show ?thesis
    by (intro exI [of _ s']) (simp add: seg_put_def min_absorb1)
qed

lemma seg_flip_defined:
  assumes inv: "seg_inv s" and sep: "length (seg_bytes s) \<le> unat (mPos s)"
  shows "\<exists>s'. seg_flip s = Some s' \<and> seg_inv s' \<and> seg_bytes s' = seg_bytes s
     \<and> unat (seg_remain s') = unat (mSize s) - length (seg_bytes s)
     \<and> mSize s' = mSize s \<and> segment.more s' = segment.more s"
proof (cases "mLimit s > 0")
  case False
  then have "mLimit s = 0" by (simp add: word_gt_0)
  with inv show ?thesis
    by (intro exI [of _ s]) (auto simp: seg_flip_def unat_seg_remain seg_bytes_def split: option.splits)
next
  case True
  then have "unat (mLimit s) > 0" by (simp add: unat_gt_0 word_gt_0)
  with inv obtain d where d: "mData s = Some d" "length d = unat (mSize s)"
    by (auto simp: seg_inv_nat split: option.splits)
  define n where "n = mLimit s - mPos s"
  have n: "unat n = length (seg_bytes s)" "unat n = unat (mLimit s) - unat (mPos s)"
    using seg_size_bytes [OF inv] inv by (simp_all add: n_def seg_size_def seg_inv_def unat_sub_le)
  have ok: "unat (mPos s) + unat n \<le> length d" "n \<le> mPos s"
    using n inv d sep by (auto simp: seg_inv_nat word_le_nat_alt)
  define s' where "s' = s\<lparr>mData := Some (blit d 0 (take (unat n) (drop (unat (mPos s)) d))),
                           mLimit := n, mPos := 0\<rparr>"
  have fl: "seg_flip s = Some s'"
    using True ok d(1) by (simp add: seg_flip_def s'_def n_def [symmetric] Let_def)
  have bytes: "seg_bytes s = take (unat n) (drop (unat (mPos s)) d)"
    using d n by (simp add: seg_bytes_def drop_take)
  have inv': "seg_inv s'"
    using inv ok d n by (auto simp: s'_def seg_inv_nat)
  have "seg_bytes s' = seg_bytes s"
    unfolding bytes using ok by (simp add: s'_def seg_bytes_def blit_def)
  then show ?thesis using fl inv' n
    by (intro exI [of _ s'], simp add: unat_seg_remain) (simp add: s'_def)
qed

text \<open>Outside that case the copy is undefined as soon as there is a byte to move.\<close>

lemma seg_flip_undefined:
  assumes inv: "seg_inv s" and ov: "unat (mPos s) < length (seg_bytes s)"
  shows "seg_flip s = None"
proof -
  from ov have ne: "seg_bytes s \<noteq> []" by auto
  then obtain d where d: "mData s = Some d" by (auto simp: seg_bytes_def split: option.splits)
  have n: "unat (mLimit s - mPos s) = length (seg_bytes s)"
    using seg_size_bytes [OF inv] by (simp add: seg_size_def)
  have "unat (mLimit s) > 0"
    using ne d inv by (auto simp: seg_bytes_def)
  moreover have "mLimit s - mPos s \<noteq> 0" using n ne by (auto simp: word_unat_eq_iff)
  ultimately show ?thesis using d ov n
    by (auto simp: seg_flip_def Let_def word_le_nat_alt word_gt_0 unat_gt_0)
qed

lemma seg_reset_inv: "seg_inv s \<Longrightarrow> seg_inv (seg_reset s)"
  by (auto simp: seg_reset_def seg_inv_nat split: option.splits)

lemma seg_reset_bytes: "seg_bytes (seg_reset s) = []"
  by (simp add: seg_reset_def seg_bytes_def split: option.splits)

lemma seg_mark_inv: "seg_inv s \<Longrightarrow> seg_inv (seg_mark s)"
  by (auto simp: seg_mark_def seg_inv_def split: option.splits)

lemma seg_resume_inv: "seg_inv s \<Longrightarrow> seg_inv (seg_resume s)"
  by (auto simp: seg_resume_def seg_inv_def split: option.splits)

lemma seg_set_limit_inv: "seg_inv s \<Longrightarrow> mPos s \<le> l \<Longrightarrow> seg_inv (seg_set_limit l s)"
  by (auto simp: seg_set_limit_def seg_inv_def split: option.splits)

text \<open>Consuming touches the window only, so a saved window brings every byte back.\<close>

lemma seg_consume_frame [seg_simps]:
  "mData (seg_consume n s) = mData s" "mLimit (seg_consume n s) = mLimit s"
  "mSize (seg_consume n s) = mSize s" "mMarkPos (seg_consume n s) = mMarkPos s"
  "mMarkLimit (seg_consume n s) = mMarkLimit s" "segment.more (seg_consume n s) = segment.more s"
  by (simp_all add: seg_consume_def)

lemma seg_consumes_frame [seg_simps]:
  "mData (fold seg_consume ns s) = mData s" "mMarkPos (fold seg_consume ns s) = mMarkPos s"
  "mMarkLimit (fold seg_consume ns s) = mMarkLimit s"
  by (induction ns arbitrary: s) (simp_all add: seg_simps)

lemma seg_resume_after_mark:
  "seg_bytes (seg_resume (fold seg_consume ns (seg_mark s))) = seg_bytes s"
  by (auto simp: seg_bytes_def seg_resume_def seg_simps seg_mark_def split: option.splits)

section \<open>Segments as byte queues\<close>

text \<open>
  What the users of a segment rely on (\<^verbatim>\<open>Socks5Proxy\<close> assembles its messages by successive
  writes and reads the decrypt buffer by \<^verbatim>\<open>consume\<close>, \<^verbatim>\<open>TCPSession\<close> and \<^verbatim>\<open>Router\<close> send a
  segment in pieces): bytes written come out in order.
\<close>

fun put_all :: "(bytes \<Rightarrow> 's \<Rightarrow> 's option) \<Rightarrow> bytes list \<Rightarrow> 's \<Rightarrow> 's option" where
  "put_all put [] s = Some s"
| "put_all put (xs # xss) s = Option.bind (put xs s) (put_all put xss)"

locale byte_fifo =
  fixes inv :: "'s \<Rightarrow> bool"
    and view :: "'s \<Rightarrow> bytes"
    and room :: "'s \<Rightarrow> nat"
    and put :: "bytes \<Rightarrow> 's \<Rightarrow> 's option"
    and skip :: "nat \<Rightarrow> 's \<Rightarrow> 's"
  assumes put_law: "inv s \<Longrightarrow> length xs \<le> room s \<Longrightarrow>
      \<exists>s'. put xs s = Some s' \<and> inv s' \<and> view s' = view s @ xs \<and> room s' + length xs = room s"
    and skip_law: "inv s \<Longrightarrow> n \<le> length (view s) \<Longrightarrow>
      inv (skip n s) \<and> view (skip n s) = drop n (view s) \<and> room (skip n s) = room s"
begin

lemma put_all_view:
  "inv s \<Longrightarrow> length (concat xss) \<le> room s \<Longrightarrow>
   \<exists>s'. put_all put xss s = Some s' \<and> inv s' \<and> view s' = view s @ concat xss
      \<and> room s' + length (concat xss) = room s"
proof (induction xss arbitrary: s)
  case Nil
  then show ?case by simp
next
  case (Cons xs xss)
  then have "length xs \<le> room s" by simp
  with Cons.prems(1) obtain s1 where s1: "put xs s = Some s1" "inv s1" "view s1 = view s @ xs"
      "room s1 + length xs = room s"
    using put_law by blast
  with Cons.prems(2) have "length (concat xss) \<le> room s1" by simp
  from Cons.IH [OF s1(2) this] s1 show ?case by auto
qed

lemma skip_skip:
  assumes "inv s" "m + n \<le> length (view s)"
  shows "view (skip n (skip m s)) = drop (m + n) (view s)"
  using assms skip_law [of s m] skip_law [of "skip m s" n] by (simp add: add.commute)

lemma put_then_skip:
  assumes "inv s" "length xs \<le> room s"
  shows "\<exists>s'. put xs s = Some s' \<and> inv (skip (length (view s)) s')
           \<and> view (skip (length (view s)) s') = xs"
proof -
  obtain s' where "put xs s = Some s'" "inv s'" "view s' = view s @ xs"
    using put_law [OF assms] by blast
  then show ?thesis using skip_law [of s' "length (view s)"] by auto
qed

end

interpretation seg: byte_fifo seg_inv seg_bytes "\<lambda>s. unat (seg_remain s)" seg_put
  "\<lambda>n. seg_consume (word_of_nat n)"
proof unfold_locales
  fix s :: "'a segment_scheme" and xs :: bytes
  assume "seg_inv s" "length xs \<le> unat (seg_remain s)"
  then show "\<exists>s'. seg_put xs s = Some s' \<and> seg_inv s' \<and> seg_bytes s' = seg_bytes s @ xs
      \<and> unat (seg_remain s') + length xs = unat (seg_remain s)"
    using seg_put_fits by blast
next
  fix s :: "'a segment_scheme" and n :: nat
  assume inv: "seg_inv s" and n: "n \<le> length (seg_bytes s)"
  then have "unat (word_of_nat n :: size_t) = n"
    using seg_bytes_le [OF inv] by (intro unat_word_of_nat) simp
  with inv n show "seg_inv (seg_consume (word_of_nat n) s)
      \<and> seg_bytes (seg_consume (word_of_nat n) s) = drop n (seg_bytes s)
      \<and> unat (seg_remain (seg_consume (word_of_nat n) s)) = unat (seg_remain s)"
    by (simp add: seg_consume_inv seg_consume_bytes) (simp add: seg_remain_def seg_simps)
qed
end
