(* ===== verification/TunQueue.thy ===== *)
theory TunQueue
  imports Segment IPAdpt "HOL-Library.Monad_Syntax"
begin

text \<open>
  The datagrams the sessions send back to the application and the queue of the router they pass
  through: \<^verbatim>\<open>BufferQueue\<close> of \<^verbatim>\<open>core/BufferQueue.h\<close>, the class \<^verbatim>\<open>TCPDatagram\<close> of
  \<^verbatim>\<open>core/TCPSession.h\<close>, and \<^verbatim>\<open>Router::onSyncEvent\<close> and \<^verbatim>\<open>Router::onWritable\<close> of
  \<^verbatim>\<open>core/Router.cpp\<close>. A datagram is shared by the session that built it (its back queue) and by
  \<^verbatim>\<open>Router::mData\<close>, so the model has an explicit heap: a pointer is a number, a freed one is outside
  the heap, and an operation that follows a dangling pointer, deletes twice or deletes an uninitialised
  array is \<^term>\<open>None\<close>.
\<close>

section \<open>Datagrams\<close>

record datagram = buffer_segment +
  mSeq :: u32
  mAck :: u32
  mFlag :: byte
  mChecksum :: u16
  mLength :: u16
  mACKed :: bool
  mRetry :: u32

text \<open>
  The constructor leaves \<^verbatim>\<open>mSeq\<close>, \<^verbatim>\<open>mAck\<close>, \<^verbatim>\<open>mFlag\<close>, \<^verbatim>\<open>mChecksum\<close> and \<^verbatim>\<open>mLength\<close> uninitialised; every
  caller assigns what it later reads, the zeros here stand for the values not yet assigned.
\<close>

definition datagram_new :: "size_t \<Rightarrow> datagram" where
  "datagram_new sz = buffer_segment.extend (buffer_segment_new sz)
     (datagram.fields 0 0 0 0 0 False 0)"

lemma datagram_new_fields [simp]:
  "mBuffering (datagram_new n) = False" "mAbort (datagram_new n) = False"
  "mReleaseAfterBuffering (datagram_new n) = False" "mNeedCapture (datagram_new n) = False"
  "mACKed (datagram_new n) = False" "mRetry (datagram_new n) = 0"
  "mData (datagram_new n) = mData (segment_new n)" "mSize (datagram_new n) = mSize (segment_new n)"
  "mPos (datagram_new n) = 0" "mLimit (datagram_new n) = 0"
  "mMarkPos (datagram_new n) = 0" "mMarkLimit (datagram_new n) = 0"
  by (simp_all add: datagram_new_def buffer_segment_new_def datagram.defs buffer_segment.defs
      segment.defs segment_new_def)

definition hasFlag :: "datagram \<Rightarrow> byte \<Rightarrow> bool" where
  "hasFlag d flag \<longleftrightarrow> mFlag d AND flag > 0"

text \<open>\<^verbatim>\<open>TCPDatagram::compare\<close>: the 32-bit difference converted to \<^verbatim>\<open>int\<close>.\<close>

definition datagram_compare :: "datagram \<Rightarrow> datagram \<Rightarrow> int" where
  "datagram_compare a b = sint (mSeq a - mSeq b)"

section \<open>BufferQueue\<close>

text \<open>
  The queue is a \<^verbatim>\<open>std::list\<close> of pointers; an iterator is a position in it.
  \<open>findNotSmaller_pos\<close> is over the pointees.
\<close>

definition bq_push :: "'r \<Rightarrow> 'r list \<Rightarrow> 'r list" where
  "bq_push r q = q @ [r]"

definition bq_pop :: "'r list \<Rightarrow> 'r list" where
  "bq_pop q = (case q of [] \<Rightarrow> [] | _ # rs \<Rightarrow> rs)"

definition bq_front :: "'r list \<Rightarrow> 'r option" where
  "bq_front q = (case q of [] \<Rightarrow> None | r # _ \<Rightarrow> Some r)"

fun findNotSmaller :: "'d \<Rightarrow> ('d \<Rightarrow> 'd \<Rightarrow> int) \<Rightarrow> 'd list \<Rightarrow> nat" where
  "findNotSmaller d cmp [] = 0"
| "findNotSmaller d cmp (x # xs) =
     (let diff = cmp d x in if diff = 0 \<or> diff < 0 then 0 else Suc (findNotSmaller d cmp xs))"

definition bq_insert :: "nat \<Rightarrow> 'd \<Rightarrow> 'd list \<Rightarrow> 'd list" where
  "bq_insert pos d q = take pos q @ d # drop pos q"

lemma findNotSmaller_le: "findNotSmaller d cmp q \<le> length q"
  by (induction q) (auto simp: Let_def)

lemma findNotSmaller_prefix: "i < findNotSmaller d cmp q \<Longrightarrow> 0 < cmp d (q ! i)"
  by (induction q arbitrary: i) (auto simp: Let_def nth_Cons split: if_splits nat.splits)

lemma findNotSmaller_at:
  "findNotSmaller d cmp q < length q \<Longrightarrow> cmp d (q ! findNotSmaller d cmp q) \<le> 0"
  by (induction q) (auto simp: Let_def split: if_splits)

section \<open>The router's state\<close>

text \<open>
  \<open>heap\<close> holds the live datagrams, \<open>next_ref\<close> the allocator; \<open>tunData\<close> is \<^verbatim>\<open>Router::mData\<close>, \<open>tunWrite\<close> whether
  the reactor has a write event for the tun descriptor. \<open>tunOut\<close> and \<open>captured\<close> record what
  was written to the device and to the packet capture.
\<close>

type_synonym ref = nat

record router =
  heap :: "ref \<Rightarrow> datagram option"
  next_ref :: ref
  tunData :: "ref list"
  tunWrite :: bool
  tunOut :: "bytes list"
  captured :: "bytes list"

definition store :: "ref \<Rightarrow> datagram \<Rightarrow> 'a router_scheme \<Rightarrow> 'a router_scheme" where
  "store r d w = w\<lparr>heap := (heap w)(r \<mapsto> d)\<rparr>"

text \<open>\<^verbatim>\<open>new TCPDatagram(size)\<close> followed by the assignments of its caller, and \<^verbatim>\<open>SAFE_DELETE\<close>.\<close>

definition alloc :: "datagram \<Rightarrow> 'a router_scheme \<Rightarrow> ref \<times> 'a router_scheme" where
  "alloc d w = (next_ref w, store (next_ref w) d (w\<lparr>next_ref := next_ref w + 1\<rparr>))"

definition delete :: "ref \<Rightarrow> 'a router_scheme \<Rightarrow> 'a router_scheme option" where
  "delete r w =
     (case heap w r of
        None \<Rightarrow> None
      | Some d \<Rightarrow> if seg_delete_ok d then Some (w\<lparr>heap := (heap w)(r := None)\<rparr>) else None)"

section \<open>Router::onSyncEvent and Router::onWritable\<close>

text \<open>The result is \<^verbatim>\<open>result->code\<close>, which the caller initialised to 1.\<close>

definition onSyncEvent :: "ref \<Rightarrow> 'a router_scheme \<Rightarrow> (int \<times> 'a router_scheme) option" where
  "onSyncEvent r w =
     (case heap w r of
        None \<Rightarrow> None
      | Some d \<Rightarrow>
          if seg_size d > 0 \<and> \<not> mBuffering d \<and> \<not> mAbort d
          then Some (0, store r (seg_mark (d\<lparr>mBuffering := True\<rparr>)) w
                          \<lparr>tunData := bq_push r (tunData w), tunWrite := True\<rparr>)
          else Some (1, w))"

text \<open>
  \<open>ws\<close> is what the device is ready to take at each \<^verbatim>\<open>write\<close> call of this activation, in order: the call
  returns that number or the number of bytes offered, whichever is less, and a number \<open>\<le> 0\<close>
  is its failure. After the last one the device takes nothing more (\<^verbatim>\<open>EAGAIN\<close>). \<open>finish_write\<close> is the branch of a segment written completely.
\<close>

definition finish_write :: "ref \<Rightarrow> datagram \<Rightarrow> 'a router_scheme \<Rightarrow> 'a router_scheme option" where
  "finish_write r d w =
     (let d1 = seg_resume d;
          w1 = store r d1 (w\<lparr>tunData := bq_pop (tunData w)\<rparr>);
          w2 = (if mNeedCapture d1 then w1\<lparr>captured := captured w1 @ [seg_bytes d1]\<rparr> else w1)
      in if mReleaseAfterBuffering d1 then delete r w2
         else Some (store r (d1\<lparr>mBuffering := False\<rparr>) w2))"

function (sequential) write_loop :: "int list \<Rightarrow> 'a router_scheme \<Rightarrow> 'a router_scheme option" where
  "write_loop ws w =
     (case tunData w of
        [] \<Rightarrow> Some w
      | r # rs \<Rightarrow>
          (case heap w r of
             None \<Rightarrow> None
           | Some d \<Rightarrow>
               if mAbort d
               then (let w1 = store r (d\<lparr>mBuffering := False\<rparr>) (w\<lparr>tunData := rs\<rparr>)
                     in if mReleaseAfterBuffering d
                        then (case delete r w1 of None \<Rightarrow> None | Some w2 \<Rightarrow> write_loop ws w2)
                        else write_loop ws w1)
               else
                 (case ws of
                    [] \<Rightarrow> Some w
                  | room # ns \<Rightarrow>
                      (let n = min room (uint (seg_size d))
                       in if n \<le> 0 then Some w
                          else
                            (let d1 = seg_consume (word_of_int n) d;
                                 w1 = store r d1 (w\<lparr>tunOut := tunOut w @ [take (nat n) (seg_bytes d)]\<rparr>)
                             in if seg_size d1 \<le> 0
                                then (case finish_write r d1 w1 of
                                        None \<Rightarrow> None
                                      | Some w2 \<Rightarrow> write_loop ns w2)
                                else write_loop ns w1)))))"
  by pat_completeness auto

lemma store_frame [simp]:
  "tunData (store r d w) = tunData w" "next_ref (store r d w) = next_ref w"
  "tunWrite (store r d w) = tunWrite w" "tunOut (store r d w) = tunOut w"
  "captured (store r d w) = captured w" "router.more (store r d w) = router.more w"
  "heap (store r d w) = (heap w)(r \<mapsto> d)"
  by (simp_all add: store_def)

lemma delete_frame:
  "delete r w = Some w' \<Longrightarrow> tunData w' = tunData w \<and> next_ref w' = next_ref w
     \<and> tunWrite w' = tunWrite w \<and> tunOut w' = tunOut w \<and> captured w' = captured w
     \<and> router.more w' = router.more w \<and> heap w' = (heap w)(r := None)"
  by (auto simp: delete_def split: option.splits if_splits)

text \<open>Every iteration drops the front of the queue or uses up a result of \<^verbatim>\<open>write\<close>.\<close>

termination write_loop
  by (relation "measure (\<lambda>(ws, w). 2 * length ws + length (tunData w))")
    (auto simp: finish_write_def bq_pop_def Let_def dest!: delete_frame
       split: list.splits if_splits)

declare write_loop.simps [simp del]

text \<open>The test of the empty queue before the \<^verbatim>\<open>do\<close> loop is the loop's own.\<close>

definition onWritable :: "int list \<Rightarrow> 'a router_scheme \<Rightarrow> 'a router_scheme option" where
  "onWritable ws w = map_option (\<lambda>w'. w'\<lparr>tunWrite := False\<rparr>) (write_loop ws w)"

section \<open>Ownership\<close>

text \<open>
  The bytes of the packet a datagram stands for: the unread ones, or the marked ones while the
  router has it.
\<close>

definition packet_bytes :: "datagram \<Rightarrow> bytes" where
  "packet_bytes d = (if mBuffering d then seg_bytes (seg_resume d) else seg_bytes d)"

definition dgram_ok :: "datagram \<Rightarrow> bool" where
  "dgram_ok d \<longleftrightarrow> seg_inv d \<and> mData d \<noteq> None \<and> seg_bytes d \<noteq> [] \<and> packet_bytes d \<noteq> []"

text \<open>
  \<open>B\<close> are the datagrams in the back queues of the live sessions. Every datagram of the heap is in one of
  them or in the router's queue; it is marked as buffering exactly while the router has it, and
  the router is told to delete it exactly when no session holds it any more.
\<close>

definition cell_ok :: "ref set \<Rightarrow> ref set \<Rightarrow> ref \<Rightarrow> datagram \<Rightarrow> bool" where
  "cell_ok B Q r d \<longleftrightarrow> dgram_ok d \<and> (mBuffering d \<longleftrightarrow> r \<in> Q)
     \<and> (mReleaseAfterBuffering d \<longleftrightarrow> r \<notin> B) \<and> (mAbort d \<longrightarrow> r \<notin> B)"

definition own_inv :: "ref set \<Rightarrow> 'a router_scheme \<Rightarrow> bool" where
  "own_inv B w \<longleftrightarrow>
     distinct (tunData w) \<and> dom (heap w) = B \<union> set (tunData w)
     \<and> (\<forall>r \<in> dom (heap w). r < next_ref w)
     \<and> (\<forall>r d. heap w r = Some d \<longrightarrow> cell_ok B (set (tunData w)) r d)"

lemma own_invI:
  assumes "distinct (tunData w)" "dom (heap w) = B \<union> set (tunData w)"
    "\<And>r d. heap w r = Some d \<Longrightarrow> r < next_ref w"
    "\<And>r d. heap w r = Some d \<Longrightarrow> cell_ok B (set (tunData w)) r d"
  shows "own_inv B w"
  using assms by (auto simp: own_inv_def)

lemma own_invD:
  assumes "own_inv B w"
  shows "distinct (tunData w)" "dom (heap w) = B \<union> set (tunData w)"
    "heap w r = Some d \<Longrightarrow> r < next_ref w"
    "heap w r = Some d \<Longrightarrow> cell_ok B (set (tunData w)) r d"
  using assms by (auto simp: own_inv_def)

lemma own_inv_deref:
  assumes "own_inv B w" "r \<in> B \<union> set (tunData w)"
  obtains d where "heap w r = Some d" "cell_ok B (set (tunData w)) r d"
  using assms own_invD(2,4) [OF assms(1)] by (metis domD)

lemma own_inv_frame:
  assumes "heap w' = heap w" "tunData w' = tunData w" "next_ref w' = next_ref w"
  shows "own_inv B w' \<longleftrightarrow> own_inv B w"
  using assms by (simp add: own_inv_def)

text \<open>The flags and the TCP fields do not touch the bytes.\<close>

lemma own_inv_outputs [simp]:
  "own_inv B (w\<lparr>tunOut := out\<rparr>) = own_inv B w" "own_inv B (w\<lparr>captured := cs\<rparr>) = own_inv B w"
  "own_inv B (w\<lparr>tunWrite := b\<rparr>) = own_inv B w"
  by (simp_all add: own_inv_def)

lemma seg_bytes_cong:
  "mData d = mData e \<Longrightarrow> mPos d = mPos e \<Longrightarrow> mLimit d = mLimit e \<Longrightarrow> seg_bytes d = seg_bytes e"
  by (simp add: seg_bytes_def split: option.splits)

lemma seg_inv_cong:
  "mData d = mData e \<Longrightarrow> mPos d = mPos e \<Longrightarrow> mLimit d = mLimit e \<Longrightarrow> mSize d = mSize e
   \<Longrightarrow> mMarkPos d = mMarkPos e \<Longrightarrow> mMarkLimit d = mMarkLimit e \<Longrightarrow> seg_inv d = seg_inv e"
  by (simp add: seg_inv_def split: option.splits)

lemma seg_bytes_fields [simp]:
  "seg_bytes (d\<lparr>mBuffering := b\<rparr>) = seg_bytes d" "seg_bytes (d\<lparr>mAbort := b\<rparr>) = seg_bytes d"
  "seg_bytes (d\<lparr>mReleaseAfterBuffering := b\<rparr>) = seg_bytes d"
  "seg_bytes (d\<lparr>mNeedCapture := b\<rparr>) = seg_bytes d"
  "seg_bytes (e\<lparr>mACKed := b\<rparr>) = seg_bytes e" "seg_bytes (e\<lparr>mRetry := n\<rparr>) = seg_bytes e"
  by (rule seg_bytes_cong; simp)+

lemma seg_inv_fields [simp]:
  "seg_inv (d\<lparr>mBuffering := b\<rparr>) = seg_inv d" "seg_inv (d\<lparr>mAbort := b\<rparr>) = seg_inv d"
  "seg_inv (d\<lparr>mReleaseAfterBuffering := b\<rparr>) = seg_inv d"
  "seg_inv (d\<lparr>mNeedCapture := b\<rparr>) = seg_inv d"
  "seg_inv (e\<lparr>mACKed := b\<rparr>) = seg_inv e" "seg_inv (e\<lparr>mRetry := n\<rparr>) = seg_inv e"
  by (rule seg_inv_cong; simp)+

text \<open>Replacing the pointee of a live pointer by one with the same role.\<close>

lemma own_inv_store:
  assumes inv: "own_inv B w" and r: "heap w r = Some d" and ok: "cell_ok B (set (tunData w)) r d'"
  shows "own_inv B (store r d' w)"
proof (rule own_invI)
  show "dom (heap (store r d' w)) = B \<union> set (tunData (store r d' w))"
    using own_invD(2) [OF inv] r by auto
qed (use inv r ok in \<open>auto simp: own_invD split: if_splits\<close>)

lemma own_inv_alloc:
  assumes inv: "own_inv B w" and d: "dgram_ok d" "\<not> mBuffering d" "\<not> mReleaseAfterBuffering d" "\<not> mAbort d"
    and al: "alloc d w = (r, w')"
  shows "own_inv (insert r B) w'" "heap w r = None" "r \<notin> B" "r \<notin> set (tunData w)"
proof -
  have r: "r = next_ref w" and w': "w' = store r d (w\<lparr>next_ref := next_ref w + 1\<rparr>)"
    using al unfolding alloc_def by blast+
  show none: "heap w r = None" using own_invD(3) [OF inv, of r] r by (cases "heap w r") auto
  then have "r \<notin> dom (heap w)" by auto
  then show nB: "r \<notin> B" "r \<notin> set (tunData w)" using own_invD(2) [OF inv] by simp_all
  have heap': "heap w' = (heap w)(r \<mapsto> d)" "tunData w' = tunData w" "next_ref w' = Suc r"
    by (simp_all add: w' r)
  have old: "cell_ok (insert r B) Q s e" if "cell_ok B Q s e" "s \<noteq> r" for Q s e
    using that by (simp add: cell_ok_def)
  show "own_inv (insert r B) w'"
  proof (rule own_invI)
    show "dom (heap w') = insert r B \<union> set (tunData w')"
      using own_invD(2) [OF inv] by (simp add: heap')
    show "s < next_ref w'" if "heap w' s = Some e" for s e
      using that own_invD(3) [OF inv, of s e] r by (auto simp: heap' split: if_splits)
    show "cell_ok (insert r B) (set (tunData w')) s e" if "heap w' s = Some e" for s e
      using that own_invD(4) [OF inv, of s e] old d nB
      by (cases "s = r") (auto simp: heap' cell_ok_def)
  qed (simp add: heap' own_invD(1) [OF inv])
qed

lemma packet_bytes_sync:
  "\<not> mBuffering d \<Longrightarrow> packet_bytes (seg_mark (d\<lparr>mBuffering := True\<rparr>)) = packet_bytes d"
  by (cases "mData d") (simp_all add: packet_bytes_def seg_mark_def seg_resume_def seg_bytes_def)

lemma seg_mark_flags [seg_simps]:
  "mBuffering (seg_mark d) = mBuffering d" "mAbort (seg_mark d) = mAbort d"
  "mReleaseAfterBuffering (seg_mark d) = mReleaseAfterBuffering d"
  "mData (seg_mark d) = mData d" "seg_bytes (seg_mark d) = seg_bytes d"
  by (simp_all add: seg_mark_def) (rule seg_bytes_cong; simp)

lemma dgram_ok_sync:
  assumes "dgram_ok d" "\<not> mBuffering d"
  shows "dgram_ok (seg_mark (d\<lparr>mBuffering := True\<rparr>))"
proof -
  have "seg_inv (seg_mark (d\<lparr>mBuffering := True\<rparr>))"
    using assms(1) by (intro seg_mark_inv) (simp add: dgram_ok_def)
  then show ?thesis
    using assms by (simp add: dgram_ok_def packet_bytes_sync seg_simps)
qed

lemma seg_size_pos: "seg_inv d \<Longrightarrow> seg_size d > 0 \<longleftrightarrow> seg_bytes d \<noteq> []"
  using seg_size_bytes [of d] by (auto simp: word_gt_0 unat_eq_0 simp flip: unat_gt_0)

text \<open>Handing a datagram of a session to the router.\<close>

lemma onSyncEvent_owned:
  assumes inv: "own_inv B w" and r: "r \<in> B"
  shows "\<exists>c w'. onSyncEvent r w = Some (c, w') \<and> own_inv B w'
     \<and> (c = 0 \<longleftrightarrow> r \<notin> set (tunData w))
     \<and> tunData w' = (if r \<in> set (tunData w) then tunData w else tunData w @ [r])
     \<and> router.more w' = router.more w"
proof -
  obtain d where d: "heap w r = Some d" and c: "cell_ok B (set (tunData w)) r d"
    using own_inv_deref [OF inv] r by blast
  have size: "seg_size d > 0" using c by (simp add: cell_ok_def dgram_ok_def seg_size_pos)
  show ?thesis
  proof (cases "r \<in> set (tunData w)")
    case True
    with d c inv show ?thesis by (simp add: onSyncEvent_def cell_ok_def)
  next
    case False
    then have nb: "\<not> mBuffering d" "\<not> mAbort d" using c r by (auto simp: cell_ok_def)
    define d' where "d' = seg_mark (d\<lparr>mBuffering := True\<rparr>)"
    define w' where "w' = store r d' w\<lparr>tunData := bq_push r (tunData w), tunWrite := True\<rparr>"
    have w'_simps: "heap w' = (heap w)(r \<mapsto> d')" "tunData w' = tunData w @ [r]"
        "next_ref w' = next_ref w" "router.more w' = router.more w"
      by (simp_all add: w'_def bq_push_def)
    have ok: "cell_ok B (set (tunData w')) r d'"
      using c nb r dgram_ok_sync [of d] by (simp add: cell_ok_def d'_def seg_simps w'_simps)
    have old: "cell_ok B (set (tunData w')) s e" if "cell_ok B (set (tunData w)) s e" "s \<noteq> r" for s e
      using that by (simp add: cell_ok_def w'_simps)
    have "own_inv B w'"
    proof (rule own_invI)
      show "dom (heap w') = B \<union> set (tunData w')"
        using own_invD(2) [OF inv] r by (auto simp: w'_simps)
      show "s < next_ref w'" if "heap w' s = Some e" for s e
        using that own_invD(3) [OF inv, of s] d by (auto simp: w'_simps split: if_splits)
      show "cell_ok B (set (tunData w')) s e" if "heap w' s = Some e" for s e
        using that own_invD(4) [OF inv, of s e] ok old by (cases "s = r") (auto simp: w'_simps(1))
    qed (use own_invD(1) [OF inv] False in \<open>simp add: w'_simps\<close>)
    moreover have "onSyncEvent r w = Some (0, w')"
      using d size nb by (simp add: onSyncEvent_def w'_def d'_def)
    ultimately show ?thesis using False by (simp add: w'_simps)
  qed
qed

section \<open>Draining the queue\<close>

text \<open>What a session sees of one of its datagrams, whatever the router does with it.\<close>

definition dgram_view :: "datagram \<Rightarrow> bytes \<times> size_t \<times> u32 \<times> u32 \<times> byte \<times> u16 \<times> bool \<times> u32" where
  "dgram_view d = (packet_bytes d, mSize d, mSeq d, mAck d, mFlag d, mLength d, mACKed d, mRetry d)"

definition same_view :: "ref set \<Rightarrow> 'a router_scheme \<Rightarrow> 'a router_scheme \<Rightarrow> bool" where
  "same_view B w w' \<longleftrightarrow> (\<forall>r \<in> B. map_option dgram_view (heap w' r) = map_option dgram_view (heap w r))"

lemma same_view_refl: "same_view B w w"
  by (simp add: same_view_def)

lemma same_view_trans: "same_view B w1 w2 \<Longrightarrow> same_view B w2 w3 \<Longrightarrow> same_view B w1 w3"
  by (simp add: same_view_def)

text \<open>The bytes still to be written, in order.\<close>

definition pending_of :: "'a router_scheme \<Rightarrow> ref \<Rightarrow> bytes" where
  "pending_of w r = (case heap w r of None \<Rightarrow> [] | Some d \<Rightarrow> if mAbort d then [] else seg_bytes d)"

definition pending :: "'a router_scheme \<Rightarrow> bytes" where
  "pending w = concat (map (pending_of w) (tunData w))"

text \<open>The two ways a datagram leaves the queue.\<close>

lemma own_inv_unqueue_keep:
  assumes inv: "own_inv B w" and q: "tunData w = r # rs" and r: "r \<in> B"
    and d': "dgram_ok d'" "\<not> mBuffering d'" "\<not> mReleaseAfterBuffering d'" "\<not> mAbort d'"
    and w': "heap w' = (heap w)(r \<mapsto> d')" "tunData w' = rs" "next_ref w' = next_ref w"
  shows "own_inv B w'"
proof -
  have nr: "r \<notin> set rs" "distinct rs" using own_invD(1) [OF inv] q by simp_all
  have dom: "dom (heap w) = B \<union> set rs" using own_invD(2) [OF inv] q r by auto
  have old: "cell_ok B (set rs) s e" if "cell_ok B (set (tunData w)) s e" "s \<noteq> r" for s e
    using that q by (simp add: cell_ok_def)
  show ?thesis
  proof (rule own_invI)
    show "s < next_ref w'" if "heap w' s = Some e" for s e
    proof -
      have "s \<in> dom (heap w)" using that dom r by (auto simp: w' split: if_splits)
      then show ?thesis using own_invD(3) [OF inv] by (auto simp: w')
    qed
    show "cell_ok B (set (tunData w')) s e" if "heap w' s = Some e" for s e
      using that own_invD(4) [OF inv, of s e] old d' r nr
      by (cases "s = r") (auto simp: w' cell_ok_def)
  qed (use nr dom r in \<open>auto simp: w'\<close>)
qed

lemma own_inv_unqueue_free:
  assumes inv: "own_inv B w" and q: "tunData w = r # rs" and r: "r \<notin> B"
    and w': "heap w' = (heap w)(r := None)" "tunData w' = rs" "next_ref w' = next_ref w"
  shows "own_inv B w'"
proof -
  have nr: "r \<notin> set rs" "distinct rs" using own_invD(1) [OF inv] q by simp_all
  have old: "cell_ok B (set rs) s e" if "cell_ok B (set (tunData w)) s e" "s \<noteq> r" for s e
    using that q by (simp add: cell_ok_def)
  show ?thesis
  proof (rule own_invI)
    show "dom (heap w') = B \<union> set (tunData w')"
      using own_invD(2) [OF inv] q r nr by (auto simp: w')
    show "s < next_ref w'" if "heap w' s = Some e" for s e
      using that own_invD(3) [OF inv, of s e] by (auto simp: w' split: if_splits)
    show "cell_ok B (set (tunData w')) s e" if "heap w' s = Some e" for s e
      using that own_invD(4) [OF inv, of s e] old by (auto simp: w' split: if_splits)
  qed (use nr in \<open>simp add: w'\<close>)
qed

text \<open>
  What every iteration guarantees: ownership is kept, the sessions see their datagrams
  unchanged, and the bytes written are exactly the bytes that are pending no more.
\<close>

definition drained :: "ref set \<Rightarrow> 'a router_scheme \<Rightarrow> 'a router_scheme \<Rightarrow> bool" where
  "drained B w w' \<longleftrightarrow> own_inv B w' \<and> same_view B w w' \<and> router.more w' = router.more w
     \<and> (\<exists>out. tunOut w' = tunOut w @ out \<and> pending w = concat out @ pending w')"

lemma drained_refl: "own_inv B w \<Longrightarrow> drained B w w"
  by (simp add: drained_def same_view_refl)

lemma drained_trans: "drained B w1 w2 \<Longrightarrow> drained B w2 w3 \<Longrightarrow> drained B w1 w3"
  unfolding drained_def using same_view_trans by fastforce

lemma drainedI:
  assumes "own_inv B w'" "same_view B w w'" "router.more w' = router.more w"
    "tunOut w' = tunOut w @ out" "pending w = concat out @ pending w'"
  shows "drained B w w'"
  using assms unfolding drained_def by blast

lemma pending_front:
  assumes "tunData w = r # rs" "heap w r = Some d"
  shows "pending w = (if mAbort d then [] else seg_bytes d) @ concat (map (pending_of w) rs)"
  using assms by (simp add: pending_def pending_of_def)

lemma pending_rest:
  assumes "\<And>s. s \<in> set rs \<Longrightarrow> heap w' s = heap w s"
  shows "concat (map (pending_of w') rs) = concat (map (pending_of w) rs)"
  using assms by (intro arg_cong [where f = concat] map_cong refl) (simp add: pending_of_def)

lemma abort_step:
  assumes inv: "own_inv B w" and q: "tunData w = r # rs" and d: "heap w r = Some d" and ab: "mAbort d"
  shows "mReleaseAfterBuffering d"
    and "\<exists>w2. delete r (store r (d\<lparr>mBuffering := False\<rparr>) (w\<lparr>tunData := rs\<rparr>)) = Some w2 \<and> drained B w w2"
proof -
  have c: "cell_ok B (set (tunData w)) r d" using own_invD(4) [OF inv d] .
  then have rB: "r \<notin> B" using ab by (simp add: cell_ok_def)
  with c show "mReleaseAfterBuffering d" by (simp add: cell_ok_def)
  have nr: "r \<notin> set rs" using own_invD(1) [OF inv] q by simp
  have "seg_delete_ok (d\<lparr>mBuffering := False\<rparr>)" using c by (simp add: cell_ok_def dgram_ok_def seg_delete_ok_def)
  then obtain w2 where del: "delete r (store r (d\<lparr>mBuffering := False\<rparr>) (w\<lparr>tunData := rs\<rparr>)) = Some w2"
    by (simp add: delete_def)
  note fr = delete_frame [OF del]
  have heap2: "heap w2 = (heap w)(r := None)" using fr by simp
  have "own_inv B w2" using fr q by (intro own_inv_unqueue_free [OF inv q rB heap2]) auto
  moreover have "same_view B w w2" using rB by (auto simp: same_view_def heap2)
  moreover have "pending w = concat [] @ pending w2"
  proof -
    have "concat (map (pending_of w2) rs) = concat (map (pending_of w) rs)"
      using nr by (intro pending_rest) (auto simp: heap2)
    then show ?thesis using fr ab by (simp add: pending_front [OF q d]) (simp add: pending_def)
  qed
  ultimately have "drained B w w2" using fr by (intro drainedI [where out = "[]"]) simp_all
  with del show "\<exists>w2. delete r (store r (d\<lparr>mBuffering := False\<rparr>) (w\<lparr>tunData := rs\<rparr>)) = Some w2 \<and> drained B w w2"
    by blast
qed

lemma seg_resume_consume [seg_simps]:
  "seg_bytes (seg_resume (seg_consume n s)) = seg_bytes (seg_resume s)"
  by (rule seg_bytes_cong) (simp_all add: seg_resume_def seg_simps)

lemma seg_consume_flags [seg_simps]:
  "mBuffering (seg_consume n d) = mBuffering d" "mAbort (seg_consume n d) = mAbort d"
  "mReleaseAfterBuffering (seg_consume n d) = mReleaseAfterBuffering d"
  "mNeedCapture (seg_consume n d) = mNeedCapture d"
  by (simp_all add: seg_consume_def)

lemma seg_resume_flags [seg_simps]:
  "mBuffering (seg_resume d) = mBuffering d" "mAbort (seg_resume d) = mAbort d"
  "mReleaseAfterBuffering (seg_resume d) = mReleaseAfterBuffering d"
  "mNeedCapture (seg_resume d) = mNeedCapture d"
  "mData (seg_resume d) = mData d" "mSize (seg_resume d) = mSize d"
  by (simp_all add: seg_resume_def)

lemma datagram_fields_consume [seg_simps]:
  "mSeq (seg_consume n d) = mSeq d" "mAck (seg_consume n d) = mAck d" "mFlag (seg_consume n d) = mFlag d"
  "mLength (seg_consume n d) = mLength d" "mACKed (seg_consume n d) = mACKed d"
  "mRetry (seg_consume n d) = mRetry d"
  "mSeq (seg_resume d) = mSeq d" "mAck (seg_resume d) = mAck d" "mFlag (seg_resume d) = mFlag d"
  "mLength (seg_resume d) = mLength d" "mACKed (seg_resume d) = mACKed d"
  "mRetry (seg_resume d) = mRetry d"
  by (simp_all add: seg_consume_def seg_resume_def)

lemma consume_part:
  assumes "seg_inv d" "0 < n" "n \<le> uint (seg_size d)"
  shows "seg_bytes (seg_consume (word_of_int n) d) = drop (nat n) (seg_bytes d)"
proof -
  have "int (unat (seg_size d)) = uint (seg_size d)" by simp
  then have le: "nat n \<le> length (seg_bytes d)" using assms seg_size_bytes [OF assms(1)] by linarith
  moreover have "length (seg_bytes d) \<le> 524288" using seg_bytes_le [OF assms(1)] by simp
  ultimately have "unat (word_of_nat (nat n) :: size_t) = nat n" by (intro unat_word_of_nat) simp
  moreover have "(word_of_int n :: size_t) = word_of_nat (nat n)"
    using assms(2) by (metis int_nat_eq of_int_of_nat_eq order_less_le)
  ultimately show ?thesis using seg_consume_bytes [OF assms(1), of "word_of_nat (nat n)"] le by simp
qed

lemma partial_step:
  assumes inv: "own_inv B w" and q: "tunData w = r # rs" and d: "heap w r = Some d" and na: "\<not> mAbort d"
    and n: "0 < n" "n \<le> uint (seg_size d)"
    and left: "seg_size (seg_consume (word_of_int n) d) > 0"
  shows "drained B w (store r (seg_consume (word_of_int n) d)
           (w\<lparr>tunOut := tunOut w @ [take (nat n) (seg_bytes d)]\<rparr>))" (is "drained B w ?w1")
proof -
  define d1 where "d1 = seg_consume (word_of_int n) d"
  have c: "cell_ok B (set (tunData w)) r d" using own_invD(4) [OF inv d] .
  then have si: "seg_inv d" "mBuffering d" using q by (simp_all add: cell_ok_def dgram_ok_def)
  have b1: "seg_bytes d1 = drop (nat n) (seg_bytes d)" using consume_part [OF si(1) n] by (simp add: d1_def)
  have i1: "seg_inv d1" using si by (simp add: d1_def seg_consume_inv)
  have view: "dgram_view d1 = dgram_view d"
    using si by (simp add: dgram_view_def packet_bytes_def d1_def seg_simps)
  have "packet_bytes d1 = packet_bytes d" using view by (simp add: dgram_view_def)
  moreover have "seg_bytes d1 \<noteq> []" using left seg_size_pos [OF i1] by (simp add: d1_def)
  moreover have "mData d1 = mData d" by (simp add: d1_def seg_simps)
  ultimately have "dgram_ok d1" using c i1 by (simp add: dgram_ok_def cell_ok_def)
  then have c1: "cell_ok B (set (tunData w)) r d1"
    using c by (simp add: cell_ok_def d1_def seg_simps)
  have "own_inv B (store r d1 (w\<lparr>tunOut := tunOut w @ [take (nat n) (seg_bytes d)]\<rparr>))"
    using inv d c1 by (intro own_inv_store) simp_all
  moreover have "same_view B w (store r d1 (w\<lparr>tunOut := tunOut w @ [take (nat n) (seg_bytes d)]\<rparr>))"
    using d view by (simp add: same_view_def)
  moreover have "pending w = concat [take (nat n) (seg_bytes d)]
      @ pending (store r d1 (w\<lparr>tunOut := tunOut w @ [take (nat n) (seg_bytes d)]\<rparr>))"
  proof -
    define w1 where "w1 = store r d1 (w\<lparr>tunOut := tunOut w @ [take (nat n) (seg_bytes d)]\<rparr>)"
    have q1: "tunData w1 = r # rs" "heap w1 r = Some d1" "mAbort d1 = mAbort d"
      using q by (simp_all add: w1_def d1_def seg_simps)
    have "concat (map (pending_of w1) rs) = concat (map (pending_of w) rs)"
      using own_invD(1) [OF inv] q by (intro pending_rest) (auto simp: w1_def)
    then show ?thesis using na q1
      by (simp add: pending_front [OF q d] pending_front [OF q1(1,2)] b1 flip: w1_def)
  qed
  ultimately show ?thesis unfolding d1_def [symmetric]
    by (intro drainedI [where out = "[take (nat n) (seg_bytes d)]"]) simp_all
qed

text \<open>The front datagram leaves the queue, written: a session keeps it, or it is freed.\<close>

lemma pending_unqueue:
  assumes "own_inv B w" "tunData w = r # rs" "heap w r = Some d" "\<not> mAbort d"
    and "heap w2 = (heap w)(r := x)" "tunData w2 = rs"
  shows "pending w = concat [seg_bytes d] @ pending w2"
proof -
  have "r \<notin> set rs" using own_invD(1) [OF assms(1)] assms(2) by simp
  then have "concat (map (pending_of w2) rs) = concat (map (pending_of w) rs)"
    by (intro pending_rest) (auto simp: assms(5))
  then show ?thesis using assms(4) by (simp add: pending_front [OF assms(2,3)] pending_def [of w2] assms(6))
qed

lemma drained_keep:
  assumes inv: "own_inv B w" and q: "tunData w = r # rs" and d: "heap w r = Some d" "\<not> mAbort d" and r: "r \<in> B"
    and d3: "dgram_ok d3" "\<not> mBuffering d3" "\<not> mReleaseAfterBuffering d3" "\<not> mAbort d3" "dgram_view d3 = dgram_view d"
    and w2: "heap w2 = (heap w)(r \<mapsto> d3)" "tunData w2 = rs" "next_ref w2 = next_ref w" "tunOut w2 = tunOut w @ [seg_bytes d]"
      "router.more w2 = router.more w"
  shows "drained B w w2"
proof (rule drainedI)
  show "own_inv B w2" by (rule own_inv_unqueue_keep [OF inv q r d3(1-4) w2(1-3)])
  show "same_view B w w2" using d(1) d3(5) by (simp add: same_view_def w2(1))
  show "pending w = concat [seg_bytes d] @ pending w2" by (rule pending_unqueue [OF inv q d w2(1,2)])
qed (simp_all add: w2)

lemma drained_free:
  assumes inv: "own_inv B w" and q: "tunData w = r # rs" and d: "heap w r = Some d" "\<not> mAbort d" and r: "r \<notin> B"
    and w2: "heap w2 = (heap w)(r := None)" "tunData w2 = rs" "next_ref w2 = next_ref w" "tunOut w2 = tunOut w @ [seg_bytes d]"
      "router.more w2 = router.more w"
  shows "drained B w w2"
proof (rule drainedI)
  show "own_inv B w2" by (rule own_inv_unqueue_free [OF inv q r w2(1-3)])
  show "same_view B w w2" using r by (auto simp: same_view_def w2(1))
  show "pending w = concat [seg_bytes d] @ pending w2" by (rule pending_unqueue [OF inv q d w2(1,2)])
qed (simp_all add: w2)

text \<open>The datagram after the last byte: resuming it brings back the packet that the session built.\<close>

lemma resumed_dgram:
  assumes c: "cell_ok B Q r d" and Q: "r \<in> Q" and n: "0 < n" "n \<le> uint (seg_size d)"
    and left: "seg_size (seg_consume (word_of_int n) d) \<le> 0" and na: "\<not> mAbort d"
  defines "d2 \<equiv> seg_resume (seg_consume (word_of_int n) d)"
  shows "take (nat n) (seg_bytes d) = seg_bytes d" "mReleaseAfterBuffering d2 \<longleftrightarrow> r \<notin> B" "seg_delete_ok d2"
    "dgram_ok (d2\<lparr>mBuffering := False\<rparr>)" "dgram_view (d2\<lparr>mBuffering := False\<rparr>) = dgram_view d" "\<not> mAbort d2"
proof -
  have si: "seg_inv d" "mBuffering d" "mData d \<noteq> None" "packet_bytes d \<noteq> []"
    using c Q by (simp_all add: cell_ok_def dgram_ok_def)
  define d1 where "d1 = seg_consume (word_of_int n) d"
  have d2: "d2 = seg_resume d1" by (simp add: d2_def d1_def)
  have i1: "seg_inv d1" using si by (simp add: d1_def seg_consume_inv)
  have "seg_bytes d1 = []" using left i1 seg_size_pos [of d1] by (auto simp: d1_def)
  then show "take (nat n) (seg_bytes d) = seg_bytes d" using consume_part [OF si(1) n] by (simp add: d1_def)
  have b2: "seg_bytes d2 = packet_bytes d" using si by (simp add: d2 d1_def seg_simps packet_bytes_def)
  have flags: "mReleaseAfterBuffering d2 = mReleaseAfterBuffering d" "mAbort d2 = mAbort d" "mData d2 = mData d"
    by (simp_all add: d2 d1_def seg_simps)
  show "mReleaseAfterBuffering d2 \<longleftrightarrow> r \<notin> B" using c flags Q by (auto simp: cell_ok_def)
  show "seg_delete_ok d2" using si flags by (simp add: seg_delete_ok_def)
  show "\<not> mAbort d2" using na flags by simp
  have "seg_inv (d2\<lparr>mBuffering := False\<rparr>)" using i1 by (simp add: d2 seg_resume_inv)
  then show "dgram_ok (d2\<lparr>mBuffering := False\<rparr>)" using si b2 flags by (simp add: dgram_ok_def packet_bytes_def)
  have "packet_bytes (d2\<lparr>mBuffering := False\<rparr>) = packet_bytes d"
    unfolding packet_bytes_def [of "d2\<lparr>mBuffering := False\<rparr>"] using b2 by simp
  then show "dgram_view (d2\<lparr>mBuffering := False\<rparr>) = dgram_view d"
    unfolding dgram_view_def by (simp add: d2 d1_def seg_simps)
qed

lemma finish_step:
  assumes inv: "own_inv B w" and q: "tunData w = r # rs" and d: "heap w r = Some d" and na: "\<not> mAbort d"
    and n: "0 < n" "n \<le> uint (seg_size d)"
    and left: "seg_size (seg_consume (word_of_int n) d) \<le> 0"
  shows "\<exists>w2. finish_write r (seg_consume (word_of_int n) d)
            (store r (seg_consume (word_of_int n) d) (w\<lparr>tunOut := tunOut w @ [take (nat n) (seg_bytes d)]\<rparr>))
          = Some w2 \<and> drained B w w2"
proof -
  define d1 where "d1 = seg_consume (word_of_int n) d"
  define d2 where "d2 = seg_resume d1"
  define w1 where "w1 = store r d1 (w\<lparr>tunOut := tunOut w @ [take (nat n) (seg_bytes d)]\<rparr>)"
  have "r \<in> set (tunData w)" using q by simp
  note R = resumed_dgram [OF own_invD(4) [OF inv d] this n left na, folded d1_def, folded d2_def]
  define wc where "wc = (if mNeedCapture d2
      then (store r d2 (w1\<lparr>tunData := rs\<rparr>))\<lparr>captured := captured w1 @ [seg_bytes d2]\<rparr>
      else store r d2 (w1\<lparr>tunData := rs\<rparr>))"
  have wc: "heap wc = (heap w)(r \<mapsto> d2)" "tunData wc = rs" "next_ref wc = next_ref w"
      "tunOut wc = tunOut w @ [seg_bytes d]" "router.more wc = router.more w"
    by (simp_all add: wc_def w1_def R(1))
  have unf: "finish_write r d1 w1 = (if mReleaseAfterBuffering d2 then delete r wc
      else Some (store r (d2\<lparr>mBuffering := False\<rparr>) wc))"
    by (simp add: finish_write_def Let_def d2_def [symmetric] wc_def) (simp add: w1_def q bq_pop_def)
  have "\<exists>w2. finish_write r d1 w1 = Some w2 \<and> drained B w w2"
  proof (cases "r \<in> B")
    case True
    have "drained B w (store r (d2\<lparr>mBuffering := False\<rparr>) wc)"
      using R True by (intro drained_keep [OF inv q d na True R(4)]) (simp_all add: wc)
    then show ?thesis using R(2) True by (simp add: unf)
  next
    case False
    obtain w2 where del: "delete r wc = Some w2" using R(3) by (auto simp: delete_def wc)
    have "drained B w w2"
      using delete_frame [OF del] by (intro drained_free [OF inv q d na False]) (auto simp: wc)
    then show ?thesis using R(2) False del by (simp add: unf)
  qed
  then show ?thesis by (simp add: w1_def d1_def)
qed

text \<open>The branches of the loop, and the loop after a step that keeps everything in order.\<close>

lemma write_loop_aborted:
  assumes "tunData w = r # rs" "heap w r = Some d" "mAbort d" "mReleaseAfterBuffering d"
    "delete r (store r (d\<lparr>mBuffering := False\<rparr>) (w\<lparr>tunData := rs\<rparr>)) = Some w2"
  shows "write_loop ws w = write_loop ws w2"
  using assms by (simp add: write_loop.simps [of ws w] Let_def)

lemma write_loop_written:
  assumes "tunData w = r # rs" "heap w r = Some d" "\<not> mAbort d" "n = min room (uint (seg_size d))" "\<not> n \<le> 0"
  defines "d1 \<equiv> seg_consume (word_of_int n) d"
  defines "w1 \<equiv> store r d1 (w\<lparr>tunOut := tunOut w @ [take (nat n) (seg_bytes d)]\<rparr>)"
  shows "seg_size d1 \<le> 0 \<Longrightarrow> finish_write r d1 w1 = Some w2 \<Longrightarrow> write_loop (room # ns) w = write_loop ns w2"
    "\<not> seg_size d1 \<le> 0 \<Longrightarrow> write_loop (room # ns) w = write_loop ns w1"
  using assms(1-3,5)
  by (simp_all add: write_loop.simps [of "room # ns" w] Let_def assms(4) [symmetric] d1_def [symmetric] w1_def [symmetric])

lemma write_loop_blocked:
  assumes "tunData w = r # rs" "heap w r = Some d" "\<not> mAbort d" "ws = [] \<or> min (hd ws) (uint (seg_size d)) \<le> 0"
  shows "write_loop ws w = Some w"
  unfolding write_loop.simps [of ws w] using assms by (cases ws) (simp_all add: Let_def)

lemma drained_continue:
  assumes "drained B w w2" "write_loop ws w = write_loop ns w2"
    "own_inv B w2 \<Longrightarrow> \<exists>w'. write_loop ns w2 = Some w' \<and> drained B w2 w'"
  shows "\<exists>w'. write_loop ws w = Some w' \<and> drained B w w'"
  using assms drained_trans [OF assms(1)] by (auto simp: drained_def [of B w w2])

lemma write_loop_drained:
  "own_inv B w \<Longrightarrow> \<exists>w'. write_loop ws w = Some w' \<and> drained B w w'"
proof (induction ws w rule: write_loop.induct)
  case (1 ws w)
  note inv = 1(5)
  show ?case
  proof (cases "tunData w")
    case Nil
    then show ?thesis using inv by (simp add: write_loop.simps [of ws w] drained_refl)
  next
    case (Cons r rs)
    obtain d where d: "heap w r = Some d" using own_inv_deref [OF inv, of r] Cons by auto
    show ?thesis
    proof (cases "mAbort d")
      case True
      note st = abort_step [OF inv Cons d True]
      obtain w2 where w2: "delete r (store r (d\<lparr>mBuffering := False\<rparr>) (w\<lparr>tunData := rs\<rparr>)) = Some w2" "drained B w w2"
        using st(2) by blast
      show ?thesis
        by (rule drained_continue [OF w2(2) write_loop_aborted [OF Cons d True st(1) w2(1)] 1(1) [OF Cons d True refl st(1) w2(1)]])
    next
      case False
      show ?thesis
      proof (cases "ws = [] \<or> min (hd ws) (uint (seg_size d)) \<le> 0")
        case True
        then show ?thesis using write_loop_blocked [OF Cons d False] inv by (simp add: drained_refl)
      next
        case go: False
        obtain room ns where ws: "ws = room # ns" using go by (cases ws) auto
        define n where "n = min room (uint (seg_size d))"
        have pos: "\<not> n \<le> 0" using go by (simp add: n_def ws)
        then have n: "0 < n" "n \<le> uint (seg_size d)" unfolding n_def by linarith+
        define d1 where "d1 = seg_consume (word_of_int n) d"
        define w1 where "w1 = store r d1 (w\<lparr>tunOut := tunOut w @ [take (nat n) (seg_bytes d)]\<rparr>)"
        note W = write_loop_written [OF Cons d False n_def pos, folded d1_def, folded w1_def]
        show ?thesis
        proof (cases "seg_size d1 \<le> 0")
          case True
          obtain w2 where w2: "finish_write r d1 w1 = Some w2" "drained B w w2"
            using finish_step [OF inv Cons d False n] True by (auto simp: d1_def w1_def)
          show ?thesis unfolding ws
            by (rule drained_continue [OF w2(2) W(1) [OF True w2(1)] 1(3) [OF Cons d False ws n_def pos d1_def w1_def True w2(1)]])
        next
          case left: False
          have dr: "drained B w w1"
            using partial_step [OF inv Cons d False n] left by (simp add: d1_def w1_def word_gt_0)
          show ?thesis unfolding ws
            by (rule drained_continue [OF dr W(2) [OF left] 1(4) [OF Cons d False ws n_def pos d1_def w1_def left]])
        qed
      qed
    qed
  qed
qed

section \<open>Properties\<close>

text \<open>The state after \<^verbatim>\<open>Router::Router\<close>.\<close>

definition router0 :: router where
  "router0 = \<lparr>heap = (\<lambda>_. None), next_ref = 0, tunData = [], tunWrite = False, tunOut = [], captured = []\<rparr>"

lemma router0_inv: "own_inv {} router0"
  by (simp add: own_inv_def router0_def)

text \<open>A session's datagram of one byte, queued.\<close>

definition sample_dgram :: datagram where
  "sample_dgram = seg_set_limit 1 (datagram_new 1)"

definition sample_router :: router where
  "sample_router = snd (the (onSyncEvent 0 (snd (alloc sample_dgram router0))))"

lemma sample_dgram_ok: "dgram_ok sample_dgram" "\<not> mBuffering sample_dgram" "\<not> mAbort sample_dgram"
    "\<not> mReleaseAfterBuffering sample_dgram" "seg_bytes sample_dgram = [0]"
  by (simp_all add: sample_dgram_def datagram_new_def buffer_segment_new_def segment_new_def
      datagram.defs buffer_segment.defs segment.defs seg_max_def seg_set_limit_def dgram_ok_def seg_inv_def
      seg_bytes_def packet_bytes_def)

lemma sample_router_inv: "own_inv {0} sample_router"
proof -
  have "own_inv {0} (snd (alloc sample_dgram router0))"
    using own_inv_alloc(1) [OF router0_inv sample_dgram_ok(1,2,4,3), of 0]
    by (simp add: alloc_def router0_def)
  from onSyncEvent_owned [OF this, of 0] show ?thesis
    by (auto simp: sample_router_def)
qed

text \<open>
  Claim C10. Whatever the device accepts, the router's writable handler follows no dangling pointer
  and frees nothing twice, keeps the ownership of every datagram, leaves the datagrams of the
  sessions as they were (a half-written one included, once it is written), and writes exactly the
  bytes that leave the pending data, in queue order.
\<close>

theorem onWritable_safe:
  assumes "own_inv B w"
  shows "\<exists>w' out. onWritable ws w = Some w' \<and> own_inv B w' \<and> same_view B w w'
    \<and> tunOut w' = tunOut w @ out \<and> pending w = concat out @ pending w'"
proof -
  obtain w1 where w1: "write_loop ws w = Some w1" "drained B w w1"
    using write_loop_drained [OF assms] by blast
  then obtain out where "tunOut w1 = tunOut w @ out" "pending w = concat out @ pending w1"
      "own_inv B w1" "same_view B w w1"
    unfolding drained_def by blast
  moreover have "pending_of (w1\<lparr>tunWrite := False\<rparr>) = pending_of w1"
    by (rule ext) (simp add: pending_of_def)
  then have "pending (w1\<lparr>tunWrite := False\<rparr>) = pending w1" by (simp add: pending_def)
  moreover have "same_view B w (w1\<lparr>tunWrite := False\<rparr>) = same_view B w w1"
    by (simp add: same_view_def)
  ultimately show ?thesis
    using w1(1) by (intro exI [of _ "w1\<lparr>tunWrite := False\<rparr>"] exI [of _ out]) (simp add: onWritable_def)
qed

theorem onWritable_safe_witness:
  "\<exists>w' out. onWritable [1, 1500] sample_router = Some w' \<and> own_inv {0} w' \<and> same_view {0} sample_router w'
    \<and> tunOut w' = tunOut sample_router @ out \<and> pending sample_router = concat out @ pending w'"
  by (rule onWritable_safe [OF sample_router_inv])

text \<open>
  When the device takes nothing, the handler removes its write event while the queue
  still holds the packet: nothing is written until some session queues another packet.
\<close>

theorem onWritable_stalls:
  assumes "tunData w = r # rs" "heap w r = Some d" "\<not> mAbort d" "n \<le> 0"
  shows "onWritable [n] w = Some (w\<lparr>tunWrite := False\<rparr>)"
proof -
  have "min n (uint (seg_size d)) \<le> 0" using assms(4) by simp
  then show ?thesis
    using assms(1-3) by (simp add: onWritable_def write_loop.simps [of "[n]" w] Let_def)
qed

theorem onWritable_stalls_witness:
  "onWritable [-1] sample_router = Some (sample_router\<lparr>tunWrite := False\<rparr>)"
proof -
  have "heap sample_router 0 = Some (seg_mark (sample_dgram\<lparr>mBuffering := True\<rparr>))"
      "tunData sample_router = [0]"
    using sample_dgram_ok seg_size_pos [of sample_dgram]
    by (simp_all add: sample_router_def alloc_def onSyncEvent_def router0_def bq_push_def dgram_ok_def)
  then show ?thesis
    by (intro onWritable_stalls) (assumption, assumption, simp_all add: seg_simps sample_dgram_ok)
qed

end
