(* ===== verification/TCPSession.thy ===== *)
theory TCPSession
  imports TunQueue Checksum Utils
begin

text \<open>
  \<^verbatim>\<open>core/TCPSession.h\<close> and \<^verbatim>\<open>core/TCPSession.cpp\<close>: the user-space TCP endpoint that talks to the local
  application through the tun device on one side and to a tunnel (\<^verbatim>\<open>ITunnel\<close>) on the other. The state
  extends the router's: a session and the router share the datagrams of the back queue.
  Every handler returns \<^term>\<open>None\<close> where the C++ code has no defined outcome: a dangling
  pointer, a second delete, the delete of an uninitialised array, a read behind the 65535
  bytes of the packet buffer, a shift by more bits than the type allows, or an option search that does not return. Logging is left out;
  the events for the user interface, the calls on the tunnel and the captured packets are recorded
  in order in \<open>effects\<close>.
\<close>

section \<open>State\<close>

text \<open>
  \<^verbatim>\<open>dispatcher::dispatch\<close> queues an event for the thread that reports to Java; the
  numbers are the fields of its \<^verbatim>\<open>ConnInfo\<close> the receiver uses. The rest are calls on \<^verbatim>\<open>mTunnel\<close>.
\<close>

datatype effect =
    CONN_BORN | CONN_DIE
  | CONN_STATE TCP_STATE
  | CONN_TRAFFIC_ACCEPT u32 u32 u32
  | CONN_TRAFFIC_BACK u32 u32 u16
  | CONN_TRAFFIC_SENT u32
  | CONN_TRAFFIC_RECV u32
  | T_destroyTunnel | T_keepAlive | T_requestSendData | T_pauseSendData
  | T_pauseReceiveData | T_resumeReceiveData
  | T_sendData bytes bool

text \<open>
  \<open>tunAlive\<close> is \<^verbatim>\<open>mTunnel->isAlive()\<close>; \<open>tunAvail k\<close> is what the \<open>k\<close>-th call of \<^verbatim>\<open>getAvailableBufferSize()\<close>
  answers (two \<^verbatim>\<open>ioctl\<close>s on the socket), \<open>tunQueries\<close> counts these calls.
\<close>

record session = router +
  mIPVer :: byte
  mSrcPort :: u16
  mDestPort :: u16
  mSrcAddr :: u32
  mDestAddr :: u32
  mTotalAccept :: u32
  mTotalBack :: u32
  mTotalRecv :: u32
  mTotalSent :: u32
  mLastTime :: int
  mAlive :: bool
  mForwardQueue :: "datagram list"
  mForwardQueueDataSize :: u32
  mBackQueue :: "ref list"
  mBackQueueDataSize :: u32
  mState :: TCP_STATE
  mRemoteFinished :: bool
  mSack :: bool
  mLocalSeq :: u32
  mLocalNext :: u32
  mLocalSeqBase :: u32
  mRemoteNext :: u32
  mRemoteSeqBase :: u32
  mSendWindow :: u32
  mReceiveWindow :: u32
  mWindowScale :: byte
  mMSS :: u16
  mCtrlType :: int
  tunAlive :: bool
  tunAvail :: "nat \<Rightarrow> u32"
  tunQueries :: nat
  effects :: "effect list"

text \<open>The macros at the head of the file.\<close>

definition TCP_RELATIVE_SEQ :: "u32 \<Rightarrow> u32 \<Rightarrow> u32" where
  "TCP_RELATIVE_SEQ seq base = (if seq > base then seq - base else (0xFFFFFFFF - base) + seq)"

definition TCP_SESSION_BUFFER_SIZE :: u32 where "TCP_SESSION_BUFFER_SIZE = 262144"
definition TCP_MAX_SEND_WINDOW :: u32 where "TCP_MAX_SEND_WINDOW = 65536"
definition TCP_MAX_SEND_PACKET :: byte where "TCP_MAX_SEND_PACKET = 1"
definition TCP_IP_PAYLOAD_SIZE :: nat where "TCP_IP_PAYLOAD_SIZE = 61440"

definition emit :: "effect \<Rightarrow> session \<Rightarrow> session" where
  "emit e s = s\<lparr>effects := effects s @ [e]\<rparr>"

section \<open>Closing and state changes\<close>

definition close :: "session \<Rightarrow> session" where
  "close s = emit T_destroyTunnel (s\<lparr>mAlive := False, tunAlive := False\<rparr>)"

definition switchState :: "TCP_STATE \<Rightarrow> session \<Rightarrow> session" where
  "switchState st s =
     (if mState s \<noteq> st
      then (let s1 = s\<lparr>mState := st\<rparr>;
                s2 = (if mState s1 = CLOSED then close s1 else s1)
            in emit (CONN_STATE (mState s2)) s2)
      else s)"

definition timeout :: "int \<Rightarrow> session \<Rightarrow> bool" where
  "timeout now s =
     (let t = now - mLastTime s; lim = (if mState s = ESTABLISHED then 3600 else 10) in t > lim)"

definition hasClosed :: "int \<Rightarrow> session \<Rightarrow> bool" where
  "hasClosed now s \<longleftrightarrow> \<not> mAlive s \<or> timeout now s"

text \<open>
  \<^verbatim>\<open>mWindowScale\<close> is a byte of the application's SYN, and the code shifts by it without a check. A shift of a \<^verbatim>\<open>uint32_t\<close> is
  undefined from 32 on. In \<^verbatim>\<open>0xFFFF<<mWindowScale\<close> an \<^verbatim>\<open>int\<close> is shifted, which in C++11 is undefined as soon as the result does
  not fit into an \<^verbatim>\<open>unsigned int\<close>, so from 17 on. (RFC 7323 allows scales up to 14.)
\<close>

definition shl32 :: "u32 \<Rightarrow> byte \<Rightarrow> u32 option" where
  "shl32 x n = (if n < 32 then Some (push_bit (unat n) x) else None)"

definition max_scale :: byte where "max_scale = 16"

definition updateWindowSize :: "session \<Rightarrow> session option" where
  "updateWindowSize s =
     (if mWindowScale s > max_scale then None
      else
        (let maxw = push_bit (unat (mWindowScale s)) 0xFFFF :: u32;
             (w0, s1) = (if tunAlive s then (tunAvail s (tunQueries s), s\<lparr>tunQueries := tunQueries s + 1\<rparr>)
                         else (maxw, s));
             windowSize = (if w0 > maxw then maxw else w0)
         in Some (s1\<lparr>mReceiveWindow := (if windowSize \<le> mForwardQueueDataSize s1 then 0
                                        else windowSize - mForwardQueueDataSize s1)\<rparr>)))"

section \<open>Building a packet\<close>

definition st32 :: "u32 \<Rightarrow> bytes" where
  "st32 v = st16 (ucast v) @ st16 (ucast (drop_bit 16 v))"

text \<open>
  The IPv4 header, its checksum field as a parameter; the fields the code does not
  assign keep the zeros of the new segment.
\<close>

definition ip4_header :: "session \<Rightarrow> nat \<Rightarrow> u16 \<Rightarrow> bytes" where
  "ip4_header s ttlen checksum =
     [0x45, 0] @ st16 (swap16 (word_of_nat ttlen)) @ [0, 0, 0, 0, 64, PROTO_TCP] @ st16 checksum
     @ st32 (mDestAddr s) @ st32 (mSrcAddr s)"

definition ippseudo :: "session \<Rightarrow> nat \<Rightarrow> bytes" where
  "ippseudo s tcplen =
     st32 (mDestAddr s) @ st32 (mSrcAddr s) @ [0, PROTO_TCP] @ st16 (swap16 (word_of_nat tcplen))"

text \<open>The length of the option area: 10 bytes with \<^verbatim>\<open>SYN\<close>.\<close>

definition syn_optlen :: "byte \<Rightarrow> nat" where
  "syn_optlen flag = (if flag AND SYN \<noteq> 0 then 10 else 0)"

text \<open>
  The window is shifted to the right by \<^verbatim>\<open>mWindowScale\<close>; both callers of \<open>buildPackage\<close> have been through \<open>updateWindowSize\<close>, which is
  undefined for the scales for which this shift would be.
\<close>

definition tcp_header :: "session \<Rightarrow> byte \<Rightarrow> u16 \<Rightarrow> bytes" where
  "tcp_header s flag checksum =
     st16 (mDestPort s) @ st16 (mSrcPort s)
     @ st32 (swap32 (mLocalSeq s + mLocalSeqBase s)) @ st32 (swap32 (mRemoteNext s + mRemoteSeqBase s))
     @ [push_bit 4 (word_of_nat ((20 + syn_optlen flag) div 4)), flag]
     @ st16 (swap16 (ucast (drop_bit (unat (mWindowScale s)) (mReceiveWindow s))))
     @ st16 checksum @ st16 0"

definition syn_options :: "session \<Rightarrow> byte \<Rightarrow> bytes" where
  "syn_options s flag =
     (if flag AND SYN \<noteq> 0
      then [2, 4] @ st16 10000 @ [3, 3, mWindowScale s, 4, 1, 0]
      else [])"

definition tcp_sum :: "session \<Rightarrow> byte \<Rightarrow> bytes \<Rightarrow> u16" where
  "tcp_sum s flag data =
     (let c0 = computeChecksum 0 (ippseudo s (20 + length data + syn_optlen flag));
          c1 = computeChecksum c0 (tcp_header s flag 0);
          c2 = computeChecksum c1 (syn_options s flag)
      in computeChecksum c2 data)"

definition package_bytes :: "session \<Rightarrow> byte \<Rightarrow> bytes \<Rightarrow> bytes" where
  "package_bytes s flag data =
     (let ttlen = 20 + 20 + syn_optlen flag + length data;
          ipsum = NOT (computeChecksum 0 (ip4_header s ttlen 0))
      in ip4_header s ttlen ipsum @ tcp_header s flag (NOT (tcp_sum s flag data))
         @ syn_options s flag @ data)"

text \<open>\<open>length data\<close> is the \<^verbatim>\<open>uint16_t length\<close>; the result \<^term>\<open>None\<close> is \<^verbatim>\<open>NULL\<close>.\<close>

definition buildPackage :: "byte \<Rightarrow> bytes \<Rightarrow> session \<Rightarrow> datagram option" where
  "buildPackage flag data s =
     (if mIPVer s = 4
      then (let ttlen = word_of_nat (20 + 20 + syn_optlen flag + length data);
                d = seg_set_limit ttlen (datagram_new ttlen)
            in Some (d\<lparr>mData := Some (package_bytes s flag data),
                       mSeq := mLocalSeq s, mAck := mRemoteNext s, mFlag := flag,
                       mLength := word_of_nat (length data)\<rparr>))
      else None)"

section \<open>The back queue\<close>

definition safeReleaseSegment :: "ref \<Rightarrow> 'a router_scheme \<Rightarrow> 'a router_scheme option" where
  "safeReleaseSegment r s =
     (case heap s r of
        None \<Rightarrow> None
      | Some d \<Rightarrow>
          if mBuffering d then Some (store r (d\<lparr>mAbort := True, mReleaseAfterBuffering := True\<rparr>) s)
          else delete r s)"

text \<open>\<^verbatim>\<open>clearBackQueue\<close> releases the front and pops it until the queue is empty.\<close>

fun each :: "('r \<Rightarrow> 'w \<Rightarrow> 'w option) \<Rightarrow> 'r list \<Rightarrow> 'w \<Rightarrow> 'w option" where
  "each f [] w = Some w"
| "each f (r # rs) w = do { w1 \<leftarrow> f r w; each f rs w1 }"

definition clearBackQueue :: "session \<Rightarrow> session option" where
  "clearBackQueue s =
     do { s1 \<leftarrow> each safeReleaseSegment (mBackQueue s) s;
          Some (s1\<lparr>mBackQueue := [], mBackQueueDataSize := 0\<rparr>) }"

text \<open>The result is the number of bytes, or -1.\<close>

definition sendBackSegment :: "ref \<Rightarrow> session \<Rightarrow> (int \<times> session) option" where
  "sendBackSegment r s =
     do { d \<leftarrow> heap s r;
          if seg_size d \<le> 0 then Some (-1, s)
          else do {
            (code, s1) \<leftarrow> onSyncEvent r (store r (d\<lparr>mRetry := mRetry d + 1\<rparr>) s);
            if code \<noteq> 0 then Some (-1, s1)
            else do {
              d1 \<leftarrow> heap s1 r;
              Some (sint (seg_size d1), emit (CONN_TRAFFIC_BACK (mSeq d1) (mAck d1) (mLength d1)) s1) } } }"

text \<open>\<^verbatim>\<open>setReleaseAfterBuffering\<close> on the \<^verbatim>\<open>NULL\<close> of an unsupported IP version is undefined.\<close>

definition resetConnection :: "session \<Rightarrow> (int \<times> session) option" where
  "resetConnection s =
     do { s1 \<leftarrow> updateWindowSize s;
          let s2 = s1\<lparr>mLocalSeq := mLocalNext s1\<rparr>;
          d \<leftarrow> buildPackage (RST OR ACK) [] s2;
          let (r, s3) = alloc (d\<lparr>mReleaseAfterBuffering := True\<rparr>) s2;
          (n, s4) \<leftarrow> sendBackSegment r s3;
          if n > 0 then Some (1, switchState CLOSED s4)
          else do { s5 \<leftarrow> delete r s4; Some (0, s5) } }"

text \<open>\<^verbatim>\<open>pushInBackQueue\<close> up to its call of \<^verbatim>\<open>flushBackQueue\<close>; false where it returns -1.\<close>

definition push_segment :: "byte \<Rightarrow> bytes \<Rightarrow> session \<Rightarrow> (bool \<times> session) option" where
  "push_segment flag data s =
     (if mLocalNext s > mLocalSeq s then Some (False, s)
      else do {
        s1 \<leftarrow> updateWindowSize s;
        Some (case buildPackage flag data s1 of
              None \<Rightarrow> (False, s1)
            | Some d \<Rightarrow>
                (let (r, s2) = alloc (d\<lparr>mNeedCapture := (mCtrlType s1 AND CTRL_CAPTURE) \<noteq> 0\<rparr>) s1
                 in (True, s2\<lparr>mBackQueue := bq_push r (mBackQueue s2),
                              mBackQueueDataSize := mBackQueueDataSize s2 + seg_capacity d,
                              mLocalSeq := (if hasFlag d (FIN OR SYN) then mLocalSeq s2 + 1
                                            else mLocalSeq s2 + word_of_nat (length data))\<rparr>))) })"

text \<open>The first loop of \<^verbatim>\<open>flushBackQueue\<close>: acknowledged packets, and pure ACKs sent once, leave the queue.\<close>

definition flush_done :: "datagram \<Rightarrow> session \<Rightarrow> bool" where
  "flush_done d s \<longleftrightarrow> mSeq d < mLocalNext s \<or> (mLength d \<le> 0 \<and> mFlag d = ACK \<and> mRetry d > 0)"

fun pop_loop :: "ref list \<Rightarrow> session \<Rightarrow> session option" where
  "pop_loop [] s = Some s"
| "pop_loop (r # rs) s =
     do { d \<leftarrow> heap s r;
          if flush_done d s
          then do { s1 \<leftarrow> safeReleaseSegment r
                      (s\<lparr>mBackQueue := rs, mTotalBack := mTotalBack s + ucast (mLength d),
                         mBackQueueDataSize := mBackQueueDataSize s - seg_capacity d\<rparr>);
                    pop_loop rs s1 }
          else Some s }"

definition pop_acked :: "session \<Rightarrow> session option" where
  "pop_acked s = pop_loop (mBackQueue s) s"

text \<open>The last loop: \<open>its\<close> is the rest of the iteration, the result \<^term>\<open>None\<close> the early \<^verbatim>\<open>return 0\<close>.\<close>

fun send_loop :: "ref list \<Rightarrow> u32 \<Rightarrow> u32 \<Rightarrow> u32 \<Rightarrow> byte \<Rightarrow> session \<Rightarrow> (u32 option \<times> session) option" where
  "send_loop [] lim w sent packet s = Some (Some sent, s)"
| "send_loop (r # its) lim w sent packet s =
     do { d \<leftarrow> heap s r;
          if w > 0 \<and> hasFlag d FIN then Some (Some sent, s)
          else if w = 0 \<and> mLocalNext s < mSeq d
          then do { (_, s1) \<leftarrow> resetConnection s; Some (None, s1) }
          else
            (let len = seg_size d; w1 = w + len
             in if w1 < lim \<and> packet < TCP_MAX_SEND_PACKET
                then if \<not> mBuffering d \<and> \<not> mACKed d
                     then do { (n, s1) \<leftarrow> sendBackSegment r s;
                               if n > 0 then send_loop its lim w1 (sent + len) (packet + 1) s1
                               else Some (Some sent, s1) }
                     else send_loop its lim w1 sent (packet + 1) s
                else Some (Some sent, s)) }"

definition send_window :: "session \<Rightarrow> (int \<times> session) option" where
  "send_window s =
     (let lim = (if mSendWindow s > TCP_MAX_SEND_WINDOW then TCP_MAX_SEND_WINDOW else mSendWindow s)
      in do { (r, s1) \<leftarrow> send_loop (mBackQueue s) lim 0 0 0 s;
              (case r of
                 None \<Rightarrow> Some (0, s1)
               | Some sent \<Rightarrow>
                   let s2 = (if mState s1 = ESTABLISHED \<and> mBackQueueDataSize s1 < drop_bit 1 TCP_SESSION_BUFFER_SIZE
                             then emit T_resumeReceiveData s1 else s1)
                   in Some (sint sent, s2)) })"

text \<open>The finish condition, tested after the first loop.\<close>

definition fin_due :: "session \<Rightarrow> bool" where
  "fin_due s \<longleftrightarrow> mRemoteFinished s \<and> (mState s = ESTABLISHED \<or> mState s = CLOSE_WAIT) \<and> mBackQueue s = []"

lemma updateWindowSize_iff: "updateWindowSize s = None \<longleftrightarrow> mWindowScale s > max_scale"
  by (simp add: updateWindowSize_def Let_def split: prod.splits)

lemma updateWindowSize_frame:
  assumes "updateWindowSize s = Some s'"
  obtains q v where "s' = s\<lparr>tunQueries := q, mReceiveWindow := v\<rparr>"
proof -
  have "s' = s\<lparr>tunQueries := tunQueries s', mReceiveWindow := mReceiveWindow s'\<rparr>"
    using assms by (cases "tunAlive s") (auto simp: updateWindowSize_def Let_def split: if_splits)
  then show ?thesis by (rule that)
qed

lemma buildPackage_fields:
  assumes "buildPackage flag data s = Some d"
  shows "mSeq d = mLocalSeq s" "mAck d = mRemoteNext s" "mFlag d = flag"
    "mLength d = word_of_nat (length data)" "mRetry d = 0" "mACKed d = False"
    "mBuffering d = False" "mAbort d = False" "mReleaseAfterBuffering d = False"
  using assms
  by (auto simp: buildPackage_def Let_def seg_set_limit_def split: if_splits)

text \<open>What a successful \<open>push_segment\<close> did.\<close>

lemma push_segment_True:
  assumes "push_segment flag data s = Some (True, s')"
  obtains d q v where "buildPackage flag data (s\<lparr>tunQueries := q, mReceiveWindow := v\<rparr>) = Some d"
    "mLocalNext s \<le> mLocalSeq s"
    "s' = s\<lparr>tunQueries := q, mReceiveWindow := v, next_ref := next_ref s + 1,
            heap := (heap s)(next_ref s \<mapsto> d\<lparr>mNeedCapture := (mCtrlType s AND CTRL_CAPTURE) \<noteq> 0\<rparr>),
            mBackQueue := mBackQueue s @ [next_ref s],
            mBackQueueDataSize := mBackQueueDataSize s + seg_capacity d,
            mLocalSeq := (if hasFlag d (FIN OR SYN) then mLocalSeq s + 1
                          else mLocalSeq s + word_of_nat (length data))\<rparr>"
proof -
  have le: "\<not> mLocalNext s > mLocalSeq s"
    using assms by (auto simp: push_segment_def)
  with assms obtain s1 where s1: "updateWindowSize s = Some s1" by (auto simp: push_segment_def split: bind_splits)
  then obtain q v where u: "updateWindowSize s = Some (s\<lparr>tunQueries := q, mReceiveWindow := v\<rparr>)"
    by (metis updateWindowSize_frame)
  with assms u le obtain d where d: "buildPackage flag data (s\<lparr>tunQueries := q, mReceiveWindow := v\<rparr>) = Some d"
    by (cases "buildPackage flag data (s\<lparr>tunQueries := q, mReceiveWindow := v\<rparr>)") (simp_all add: push_segment_def)
  show ?thesis
  proof (rule that [OF d])
    show "mLocalNext s \<le> mLocalSeq s" using le by simp
    show "s' = s\<lparr>tunQueries := q, mReceiveWindow := v, next_ref := next_ref s + 1,
            heap := (heap s)(next_ref s \<mapsto> d\<lparr>mNeedCapture := (mCtrlType s AND CTRL_CAPTURE) \<noteq> 0\<rparr>),
            mBackQueue := mBackQueue s @ [next_ref s],
            mBackQueueDataSize := mBackQueueDataSize s + seg_capacity d,
            mLocalSeq := (if hasFlag d (FIN OR SYN) then mLocalSeq s + 1
                          else mLocalSeq s + word_of_nat (length data))\<rparr>"
      using assms u d le
      by (cases "hasFlag d (FIN OR SYN)")
        (simp_all add: push_segment_def Let_def alloc_def store_def bq_push_def)
  qed
qed

lemma hd_unflushed:
  "mBackQueue s = r # rs \<Longrightarrow> heap s r = Some d \<Longrightarrow> \<not> flush_done d s \<Longrightarrow> pop_acked s = Some s"
  by (simp add: pop_acked_def)

text \<open>
  A \<^verbatim>\<open>FIN\<close> pushed onto the empty queue stays there through the next call's first loop, which is why the
  recursion of \<open>flushBackQueue\<close> through \<open>pushInBackQueue\<close> stops after one level.
\<close>

lemma push_fin_stays:
  assumes "push_segment (FIN OR ACK) [] s = Some (True, s')" "mBackQueue s = []"
  shows "pop_acked s' = Some s'" "\<not> fin_due s'"
proof -
  from assms(1) show "pop_acked s' = Some s'"
  proof (rule push_segment_True)
    fix d q v
    assume d: "buildPackage (FIN OR ACK) [] (s\<lparr>tunQueries := q, mReceiveWindow := v\<rparr>) = Some d"
      and le: "mLocalNext s \<le> mLocalSeq s"
      and s': "s' = s\<lparr>tunQueries := q, mReceiveWindow := v, next_ref := next_ref s + 1,
            heap := (heap s)(next_ref s \<mapsto> d\<lparr>mNeedCapture := (mCtrlType s AND CTRL_CAPTURE) \<noteq> 0\<rparr>),
            mBackQueue := mBackQueue s @ [next_ref s],
            mBackQueueDataSize := mBackQueueDataSize s + seg_capacity d,
            mLocalSeq := (if hasFlag d (FIN OR SYN) then mLocalSeq s + 1
                          else mLocalSeq s + word_of_nat (length []))\<rparr>"
    show ?thesis
      using buildPackage_fields [OF d] le assms(2)
      by (intro hd_unflushed [where r = "next_ref s" and rs = "[]"
            and d = "d\<lparr>mNeedCapture := (mCtrlType s AND CTRL_CAPTURE) \<noteq> 0\<rparr>"])
        (simp_all add: s' flush_done_def flag_defs)
  qed
  from assms(1) show "\<not> fin_due s'"
    by (rule push_segment_True) (simp add: fin_due_def)
qed

function flushBackQueue :: "session \<Rightarrow> (int \<times> session) option" where
  "flushBackQueue s =
     (case pop_acked s of
        None \<Rightarrow> None
      | Some s1 \<Rightarrow>
          if fin_due s1
          then (case push_segment (FIN OR ACK) [] s1 of
                  None \<Rightarrow> None
                | Some (ok, s2) \<Rightarrow>
                    if ok
                    then (case flushBackQueue s2 of
                            None \<Rightarrow> None
                          | Some (n, s3) \<Rightarrow>
                              Some (0, switchState (if mState s3 = ESTABLISHED then FIN_WAIT1 else LAST_ACK) s3))
                    else Some (0, s2))
          else send_window s1)"
  by pat_completeness auto

termination
proof (relation "measure (\<lambda>s. case pop_acked s of None \<Rightarrow> 0 | Some s1 \<Rightarrow> if fin_due s1 then 1 else 0)",
    goal_cases)
  case 1
  then show ?case by simp
next
  case (2 s s1 r ok s2)
  then have "push_segment (FIN OR ACK) [] s1 = Some (True, s2)" "mBackQueue s1 = []"
    by (simp_all add: fin_due_def)
  from push_fin_stays [OF this] 2 show ?case by simp
qed

declare flushBackQueue.simps [simp del]

definition pushInBackQueue :: "byte \<Rightarrow> bytes \<Rightarrow> session \<Rightarrow> (int \<times> session) option" where
  "pushInBackQueue flag data s =
     do { (ok, s1) \<leftarrow> push_segment flag data s;
          if ok then do { (n, s2) \<leftarrow> flushBackQueue s1; Some (int (length data), s2) }
          else Some (-1, s1) }"

text \<open>The inlined call in \<open>flushBackQueue\<close> is \<open>pushInBackQueue\<close>.\<close>

lemma flushBackQueue_unfold:
  "flushBackQueue s =
     do { s1 \<leftarrow> pop_acked s;
          if fin_due s1
          then do { (n, s2) \<leftarrow> pushInBackQueue (FIN OR ACK) [] s1;
                    Some (0, if n \<ge> 0
                             then switchState (if mState s2 = ESTABLISHED then FIN_WAIT1 else LAST_ACK) s2
                             else s2) }
          else send_window s1 }"
  by (subst flushBackQueue.simps)
    (auto simp: pushInBackQueue_def split: option.splits bind_splits prod.splits)

section \<open>Packets from the application\<close>

text \<open>
  The payload as the code copies it: \<open>n\<close> bytes, of which the packet buffer has those before its end.
\<close>

definition payload_bytes :: "packet \<Rightarrow> size_t \<Rightarrow> bytes" where
  "payload_bytes ip n = ip_payload ip (min (unat n) (65535 - getPayloadOffset ip))"

definition rel_seq :: "packet \<Rightarrow> session \<Rightarrow> u32" where
  "rel_seq ip s = TCP_RELATIVE_SEQ (tcp_seq ip) (mRemoteSeqBase s)"

definition rel_ack :: "packet \<Rightarrow> session \<Rightarrow> u32" where
  "rel_ack ip s = TCP_RELATIVE_SEQ (tcp_ack_seq ip) (mLocalSeqBase s)"

text \<open>
  A negative payload length becomes a huge \<^verbatim>\<open>size_t\<close>. The result is \<^verbatim>\<open>datagram->size()\<close>, 0 where nothing was
  queued.
\<close>

definition enqueueIfNeed :: "packet \<Rightarrow> session \<Rightarrow> (u32 \<times> session) option" where
  "enqueueIfNeed ip s =
     (let len = word_of_int (getPayloadLen ip) :: size_t;
          seq = rel_seq ip s
      in if len = 0 then Some (0, s)
         else if compare_u32 seq (mRemoteNext s) < 0
         then do { (n, s1) \<leftarrow> pushInBackQueue ACK [] s; Some (0, s1) }
         else
           (let d = (datagram_new len)\<lparr>mSeq := seq, mFlag := tcp_flags ip,
                       mChecksum := tcp_checksum ip, mLength := ucast len\<rparr>;
                itr = findNotSmaller d datagram_compare (mForwardQueue s)
            in if itr < length (mForwardQueue s) \<and> mSeq (mForwardQueue s ! itr) = mSeq d
               then (if seg_delete_ok d then Some (0, s) else None)
               else do {
                 (l, d1) \<leftarrow> seg_write (payload_bytes ip len) len d;
                 let s1 = s\<lparr>mForwardQueue := bq_insert itr d1 (mForwardQueue s),
                            mForwardQueueDataSize := mForwardQueueDataSize s + seg_size d1\<rparr>;
                 let s2 = (if mForwardQueueDataSize s1 > 0 then emit T_requestSendData s1 else s1);
                 Some (seg_size d1, s2) }))"

text \<open>One block of \<^verbatim>\<open>onSack\<close>: datagrams of the back queue with sequence numbers in \<open>[sb, tb)\<close>.\<close>

fun sack_block :: "ref list \<Rightarrow> u32 \<Rightarrow> u32 \<Rightarrow> session \<Rightarrow> session option" where
  "sack_block [] sb tb s = Some s"
| "sack_block (r # its) sb tb s =
     do { d \<leftarrow> heap s r;
          if mSeq d \<ge> tb then Some s
          else sack_block its sb tb (if sb \<le> mSeq d then store r (d\<lparr>mACKed := True\<rparr>) s else s) }"

fun sack_blocks :: "packet \<Rightarrow> nat list \<Rightarrow> session \<Rightarrow> session option" where
  "sack_blocks ip [] s = Some s"
| "sack_blocks ip (p # ps) s =
     do { s1 \<leftarrow> sack_block (mBackQueue s) (TCP_RELATIVE_SEQ (swap32 (ld32 ip p)) (mLocalSeqBase s))
             (TCP_RELATIVE_SEQ (swap32 (ld32 ip (p + 4))) (mLocalSeqBase s)) s;
          sack_blocks ip ps s1 }"

text \<open>\<open>p\<close> is the address \<^verbatim>\<open>sack\<close>; the blocks start after the byte it reads.\<close>

definition onSack :: "packet \<Rightarrow> nat \<Rightarrow> session \<Rightarrow> session option" where
  "onSack ip p s =
     (let n = ip p
      in if n \<noteq> 10 \<and> n \<noteq> 18 \<and> n \<noteq> 26 \<and> n \<noteq> 34 then Some s
         else sack_blocks ip (map (\<lambda>i. p + 1 + 8 * i) [0..<(unat n - 2) div 8]) s)"

definition onReceiveSYN :: "packet \<Rightarrow> u32 \<Rightarrow> session \<Rightarrow> (int \<times> session) option" where
  "onReceiveSYN ip rnd s =
     (if mState s \<noteq> LISTEN
      then do { (n, s1) \<leftarrow> flushBackQueue s; Some (1, s1) }
      else do {
        let t = getHeaderLen ip;
        sackf \<leftarrow> getOptionAddr ip t OPT_SACKF;
        let s1 = (if sackf \<noteq> None then s\<lparr>mSack := True\<rparr> else s);
        pmss \<leftarrow> getOptionAddr ip t OPT_MSS;
        let s2 = (case pmss of None \<Rightarrow> s1 | Some p \<Rightarrow> s1\<lparr>mMSS := ld16 ip (p + 2)\<rparr>);
        pws \<leftarrow> getOptionAddr ip t OPT_WS;
        let s3 = (case pws of None \<Rightarrow> s2 | Some p \<Rightarrow> s2\<lparr>mWindowScale := ip (p + 2)\<rparr>);
        w \<leftarrow> shl32 (ucast (tcp_window ip)) (mWindowScale s3);
        let s4 = s3\<lparr>mSendWindow := w, mRemoteSeqBase := tcp_seq ip, mLocalSeqBase := rnd,
                    mLocalSeq := 0, mLocalNext := 0, mRemoteNext := 1\<rparr>;
        (n, s5) \<leftarrow> pushInBackQueue (SYN OR ACK) [] s4;
        if n < 0 then Some (1, s5) else Some (0, switchState SYN_RCVED s5) })"

definition onReceiveRST :: "packet \<Rightarrow> session \<Rightarrow> session" where
  "onReceiveRST ip s = switchState CLOSED s"

definition onReceiveFIN :: "packet \<Rightarrow> session \<Rightarrow> session option" where
  "onReceiveFIN ip s =
     (let seq = rel_seq ip s;
          ack = rel_ack ip s;
          s1 = (if mLocalNext s \<le> ack then s\<lparr>mLocalNext := ack\<rparr> else s);
          s2 = s1\<lparr>mRemoteNext := seq + 1\<rparr>
      in do { (n, s3) \<leftarrow> pushInBackQueue ACK [] s2;
              Some (if mState s2 = ESTABLISHED then if n < 0 then s3 else switchState CLOSE_WAIT s3
                    else if mState s2 = FIN_WAIT1
                    then if n < 0 then s3
                         else switchState (if ack = mLocalNext s3 then TIME_WAIT else CLOSING) s3
                    else if mState s2 = FIN_WAIT2
                    then if n < 0 then s3 else switchState TIME_WAIT s3
                    else s3) })"

text \<open>The part of \<^verbatim>\<open>accept\<close> for a segment without \<^verbatim>\<open>SYN\<close>, \<^verbatim>\<open>FIN\<close> and \<^verbatim>\<open>RST\<close>.\<close>

definition accept_established :: "packet \<Rightarrow> session \<Rightarrow> (bool \<times> session) option" where
  "accept_established ip s =
     do { s1 \<leftarrow> (if mSack s
                then do { sack \<leftarrow> getOptionAddr ip (getHeaderLen ip) OPT_SACK;
                          (case sack of None \<Rightarrow> Some s | Some p \<Rightarrow> onSack ip p s) }
                else Some s);
          (l, s2) \<leftarrow> enqueueIfNeed ip s1;
          if sint l > 0
          then do { (n, s3) \<leftarrow> pushInBackQueue ACK [] (s2\<lparr>mRemoteNext := mRemoteNext s2 + l\<rparr>);
                    Some (True, s3) }
          else Some (False, s2) }"

definition accept_segment :: "packet \<Rightarrow> u32 \<Rightarrow> session \<Rightarrow> session option" where
  "accept_segment ip ack s =
     do { w \<leftarrow> shl32 (ucast (tcp_window ip)) (mWindowScale s);
         let s1 = s\<lparr>mSendWindow := w\<rparr>;
         if mLocalNext s1 \<le> ack
         then do {
           let s2 = s1\<lparr>mLocalNext := ack\<rparr>;
           (flushed, s3) \<leftarrow>
             (if mState s2 = SYN_RCVED
              then do { (l, s3) \<leftarrow> enqueueIfNeed ip (switchState ESTABLISHED s2);
                        Some (False, s3\<lparr>mRemoteNext := mRemoteNext s3 + l\<rparr>) }
              else if mState s2 = FIN_WAIT1 then Some (False, switchState FIN_WAIT2 s2)
              else if mState s2 = LAST_ACK then Some (False, switchState CLOSED s2)
              else if mState s2 = CLOSING then Some (False, switchState TIME_WAIT s2)
              else if mState s2 = ESTABLISHED then accept_established ip s2
              else Some (False, s2));
           if flushed then Some s3 else do { (n, s4) \<leftarrow> flushBackQueue s3; Some s4 } }
         else Some (if ack + 1 = mLocalNext s1 then emit T_keepAlive s1 else s1) }"

text \<open>\<open>now\<close> is \<^verbatim>\<open>time(NULL)\<close> and \<open>rnd\<close> the value of \<^verbatim>\<open>rand()\<close>.\<close>

definition accept :: "packet \<Rightarrow> int \<Rightarrow> u32 \<Rightarrow> session \<Rightarrow> session option" where
  "accept ip now rnd s =
     (let len = word_of_int (getPayloadLen ip);
          seq = rel_seq ip s;
          ack = rel_ack ip s;
          s1 = s\<lparr>mTotalAccept := mTotalAccept s + len\<rparr>;
          s2 = (if (mCtrlType s1 AND CTRL_CAPTURE) \<noteq> 0
                then s1\<lparr>captured := captured s1 @ [map ip [0..<unat (getTTLEN ip)]]\<rparr> else s1);
          s3 = emit (CONN_TRAFFIC_ACCEPT seq ack len) s2
      in do { s4 \<leftarrow> (if tcp_flags ip AND SYN \<noteq> 0 then map_option snd (onReceiveSYN ip rnd s3)
                    else if tcp_flags ip AND FIN \<noteq> 0 then onReceiveFIN ip s3
                    else if tcp_flags ip AND RST \<noteq> 0 then Some (onReceiveRST ip s3)
                    else accept_segment ip ack s3);
              Some (s4\<lparr>mLastTime := now\<rparr>) })"

section \<open>The tunnel's callbacks\<close>

definition onRemoteFinished :: "session \<Rightarrow> session option" where
  "onRemoteFinished s = map_option snd (flushBackQueue (s\<lparr>mRemoteFinished := True\<rparr>))"

definition onTunnelDisconnected :: "session \<Rightarrow> session option" where
  "onTunnelDisconnected s =
     (if mState s \<in> {CLOSE_WAIT, ESTABLISHED} then onRemoteFinished s
      else if mState s \<in> {TIME_WAIT, CLOSING, FIN_WAIT1, FIN_WAIT2} then Some (switchState CLOSED s)
      else map_option snd (resetConnection s))"

text \<open>The loop of \<^verbatim>\<open>onTunnelDataBack\<close>; the result is its counter \<^verbatim>\<open>i\<close>.\<close>

function relay_loop :: "bytes \<Rightarrow> u32 \<Rightarrow> session \<Rightarrow> (u32 \<times> session) option" where
  "relay_loop data i s =
     (if data = [] then Some (i, s)
      else
        (let chunk = take TCP_IP_PAYLOAD_SIZE data
         in do { (n, s1) \<leftarrow> pushInBackQueue ACK chunk s;
                 if n < 0 then Some (i, s1)
                 else relay_loop (drop TCP_IP_PAYLOAD_SIZE data) (i + word_of_nat (length chunk)) s1 }))"
  by pat_completeness auto

termination
  by (relation "measure (\<lambda>(data, i, s). length data)") (auto simp: TCP_IP_PAYLOAD_SIZE_def)

declare relay_loop.simps [simp del]

definition onTunnelDataBack :: "bytes \<Rightarrow> int \<Rightarrow> session \<Rightarrow> session option" where
  "onTunnelDataBack data now s =
     do { s4 \<leftarrow> (if data = [] then onRemoteFinished (emit T_pauseReceiveData s)
                else do {
                  (i, s1) \<leftarrow> relay_loop data 0 s;
                  let s2 = (if i > 0 then emit (CONN_TRAFFIC_RECV i) (s1\<lparr>mTotalRecv := mTotalRecv s1 + i\<rparr>) else s1);
                  Some (if mBackQueueDataSize s2 \<ge> TCP_SESSION_BUFFER_SIZE
                        then emit T_pauseReceiveData s2 else s2) });
          Some (s4\<lparr>mLastTime := now\<rparr>) }"

text \<open>
  \<^verbatim>\<open>TCPTunnel::sendData\<close> of \<^verbatim>\<open>core/TCPTunnel.cpp\<close> (the tunnel of a connection that is not proxied): \<open>k\<close> is
  what the socket is ready to take, a negative one the error of \<^verbatim>\<open>send\<close>, \<^verbatim>\<open>EAGAIN\<close> included.
\<close>

definition TCPTunnel_sendData :: "int \<Rightarrow> bytes \<Rightarrow> bool \<Rightarrow> session \<Rightarrow> (int \<times> session) option" where
  "TCPTunnel_sendData k data more_data s =
     (if \<not> tunAlive s then Some (0, s)
      else if k < 0
      then do { s1 \<leftarrow> onTunnelDisconnected (emit T_destroyTunnel (s\<lparr>tunAlive := False\<rparr>)); Some (k, s1) }
      else (let n = min k (int (length data))
            in Some (n, emit (T_sendData (take (nat n) data) more_data) s)))"

text \<open>
  The loop of \<^verbatim>\<open>onTunnelWritable\<close> over the answers \<open>ks\<close> of the socket; after the last one it would block.
\<close>

fun forward_loop :: "int list \<Rightarrow> u32 \<Rightarrow> session \<Rightarrow> (u32 \<times> session) option" where
  "forward_loop ks sent s =
     (case mForwardQueue s of
        [] \<Rightarrow> Some (sent, s)
      | d # ds \<Rightarrow>
          (case ks of
             [] \<Rightarrow> map_option (\<lambda>(n, s1). (sent, s1)) (TCPTunnel_sendData (-1) (seg_bytes d) (\<not> hasFlag d PSH) s)
           | k # ks1 \<Rightarrow>
               do { (n, s1) \<leftarrow> TCPTunnel_sendData k (seg_bytes d) (\<not> hasFlag d PSH) s;
                    if n \<le> 0 then Some (sent, s1)
                    else
                      (let d1 = seg_consume (word_of_int n) d
                       in if seg_size d1 \<le> 0
                          then if seg_delete_ok d1
                               then forward_loop ks1 (sent + word_of_int n) (s1\<lparr>mForwardQueue := ds\<rparr>)
                               else None
                          else forward_loop ks1 (sent + word_of_int n) (s1\<lparr>mForwardQueue := d1 # ds\<rparr>)) }))"

declare forward_loop.simps [simp del]

definition onTunnelWritable :: "int list \<Rightarrow> session \<Rightarrow> (u32 \<times> session) option" where
  "onTunnelWritable ks s =
     (if mForwardQueue s \<noteq> []
      then do { (sent, s1) \<leftarrow> forward_loop ks 0 s;
                Some (sent, if sent > 0
                            then emit (CONN_TRAFFIC_SENT sent)
                                   (s1\<lparr>mTotalSent := mTotalSent s1 + sent,
                                       mForwardQueueDataSize := mForwardQueueDataSize s1 - sent\<rparr>)
                            else emit T_pauseSendData s1) }
      else Some (0, emit T_pauseSendData s))"

section \<open>Birth and death of a session\<close>

text \<open>
  What the environment decides when a session is created: the answer of \<^verbatim>\<open>JniBridge::queryControlStrategy\<close>,
  the IP version of the proxy in the settings, the result of \<^verbatim>\<open>mTunnel->establish()\<close>, the answers of the
  tunnel's \<^verbatim>\<open>getAvailableBufferSize\<close>, and the values of the members no constructor initialises.
\<close>

record birth =
  b_ctrl :: int
  b_proxy_ipver :: int
  b_establish :: int
  b_avail :: "nat \<Rightarrow> u32"
  b_stale_time :: int
  b_stale_state :: TCP_STATE
  b_stale_mss :: u16

definition session_new :: "birth \<Rightarrow> router \<Rightarrow> session" where
  "session_new b w = router.extend w
     \<lparr>mIPVer = 0, mSrcPort = 0, mDestPort = 0, mSrcAddr = 0, mDestAddr = 0,
      mTotalAccept = 0, mTotalBack = 0, mTotalRecv = 0, mTotalSent = 0, mLastTime = b_stale_time b, mAlive = False,
      mForwardQueue = [], mForwardQueueDataSize = 0, mBackQueue = [], mBackQueueDataSize = 0,
      mState = b_stale_state b, mRemoteFinished = False, mSack = False, mLocalSeq = 0, mLocalNext = 0,
      mLocalSeqBase = 0, mRemoteNext = 0, mRemoteSeqBase = 0, mSendWindow = 0, mReceiveWindow = 0,
      mWindowScale = 0, mMSS = b_stale_mss b, mCtrlType = 0, tunAlive = False, tunAvail = b_avail b,
      tunQueries = 0, effects = []\<rparr>"

text \<open>The uid and the application name \<^verbatim>\<open>initBaseInfo\<close> looks up only go into reports.\<close>

definition initBaseInfo :: "packet \<Rightarrow> session \<Rightarrow> int \<times> session" where
  "initBaseInfo ip s =
     (let s1 = s\<lparr>mIPVer := getIPVer ip\<rparr>
      in if mIPVer s1 = 4
         then (0, s1\<lparr>mSrcAddr := getSrc ip, mDestAddr := getDest ip,
                    mSrcPort := getSrcPort ip, mDestPort := getDestPort ip\<rparr>)
         else (1, s1))"

definition init :: "packet \<Rightarrow> birth \<Rightarrow> session \<Rightarrow> int \<times> session" where
  "init ip b s =
     (let s1 = s\<lparr>mCtrlType := b_ctrl b\<rparr>
      in if tcp_flags ip AND SYN = 0 then (1, s1)
         else if mCtrlType s1 AND CTRL_PROXY > 0 \<and> b_proxy_ipver b \<noteq> 4 then (1, s1)
         else if b_establish b \<noteq> 0 then (1, s1)
         else (0, s1\<lparr>tunAlive := True, mAlive := True, mState := LISTEN\<rparr>))"

text \<open>
  \<^verbatim>\<open>Session::buildSession\<close> for a TCP packet. Where it returns \<^verbatim>\<open>NULL\<close> it has deleted the new
  session, whose queues are empty.
\<close>

definition buildSession :: "packet \<Rightarrow> birth \<Rightarrow> router \<Rightarrow> session option" where
  "buildSession ip b w =
     (case initBaseInfo ip (session_new b w) of
        (e, s) \<Rightarrow> if e \<noteq> 0 then None
                  else (case init ip b s of
                          (e', s') \<Rightarrow> if e' \<noteq> 0 then None else Some (emit CONN_BORN s')))"

text \<open>
  The destructor \<^verbatim>\<open>~TCPSession\<close> and \<^verbatim>\<open>Session::releaseSession\<close>: the tunnel is destroyed, the forward
  queue deleted (\<^verbatim>\<open>BufferQueue::clear\<close>) and the back queue handed over to the router.
\<close>

definition session_delete :: "session \<Rightarrow> session option" where
  "session_delete s =
     (let s1 = emit T_destroyTunnel (s\<lparr>tunAlive := False\<rparr>)
      in if list_all seg_delete_ok (mForwardQueue s1)
         then clearBackQueue (s1\<lparr>mForwardQueue := []\<rparr>) else None)"

definition releaseSession :: "session \<Rightarrow> session option" where
  "releaseSession s = session_delete (emit CONN_DIE s)"

text \<open>The state a successful \<^verbatim>\<open>buildSession\<close> leaves.\<close>

definition session_born :: "router \<Rightarrow> packet \<Rightarrow> birth \<Rightarrow> session" where
  "session_born w ip b = router.extend w
     \<lparr>mIPVer = 4, mSrcPort = getSrcPort ip, mDestPort = getDestPort ip, mSrcAddr = getSrc ip,
      mDestAddr = getDest ip, mTotalAccept = 0, mTotalBack = 0, mTotalRecv = 0, mTotalSent = 0,
      mLastTime = b_stale_time b, mAlive = True,
      mForwardQueue = [], mForwardQueueDataSize = 0, mBackQueue = [], mBackQueueDataSize = 0,
      mState = LISTEN, mRemoteFinished = False, mSack = False, mLocalSeq = 0, mLocalNext = 0,
      mLocalSeqBase = 0, mRemoteNext = 0, mRemoteSeqBase = 0, mSendWindow = 0, mReceiveWindow = 0,
      mWindowScale = 0, mMSS = b_stale_mss b, mCtrlType = b_ctrl b, tunAlive = True, tunAvail = b_avail b,
      tunQueries = 0, effects = [CONN_BORN]\<rparr>"

lemma buildSession_iff:
  "buildSession ip b w = Some s \<longleftrightarrow>
     getIPVer ip = 4 \<and> tcp_flags ip AND SYN \<noteq> 0 \<and> b_establish b = 0
     \<and> \<not> (b_ctrl b AND CTRL_PROXY > 0 \<and> b_proxy_ipver b \<noteq> 4) \<and> s = session_born w ip b"
  by (auto simp: buildSession_def initBaseInfo_def init_def session_new_def session_born_def emit_def
      router.defs Let_def)

lemma buildSession_born: "buildSession ip b w = Some s \<Longrightarrow> s = session_born w ip b"
  by (simp add: buildSession_iff)

lemma session_born_fields [simp]:
  "heap (session_born w ip b) = heap w" "tunData (session_born w ip b) = tunData w"
  "next_ref (session_born w ip b) = next_ref w" "tunWrite (session_born w ip b) = tunWrite w"
  "mBackQueue (session_born w ip b) = []" "mBackQueueDataSize (session_born w ip b) = 0"
  "mForwardQueue (session_born w ip b) = []" "mForwardQueueDataSize (session_born w ip b) = 0"
  "mIPVer (session_born w ip b) = 4" "mState (session_born w ip b) = LISTEN" "mAlive (session_born w ip b)"
  "effects (session_born w ip b) = [CONN_BORN]" "mCtrlType (session_born w ip b) = b_ctrl b"
  "mLocalSeq (session_born w ip b) = 0" "mLocalNext (session_born w ip b) = 0"
  "mLocalSeqBase (session_born w ip b) = 0" "mRemoteNext (session_born w ip b) = 0"
  "mRemoteSeqBase (session_born w ip b) = 0" "mRemoteFinished (session_born w ip b) = False"
  "mWindowScale (session_born w ip b) = 0"
  by (simp_all add: session_born_def router.defs)

text \<open>A session to test the theorems on: a SYN from 1.0.0.0 port 2 to 3.0.0.0 port 4, sent directly.\<close>

definition sample_syn :: packet where
  "sample_syn = mem_of ([0x45, 0, 0, 40] @ replicate 5 0 @ [6, 0, 0, 1, 0, 0, 0, 3, 0, 0, 0, 2, 0, 4, 0]
      @ replicate 8 0 @ [0x50, 2] @ replicate 6 0)"

definition sample_birth :: birth where
  "sample_birth = \<lparr>b_ctrl = 0, b_proxy_ipver = 0, b_establish = 0, b_avail = (\<lambda>_. 65535),
                   b_stale_time = 0, b_stale_state = CLOSED, b_stale_mss = 0\<rparr>"

definition sample_session :: session where
  "sample_session = session_born router0 sample_syn sample_birth"

lemma sample_syn_builds: "buildSession sample_syn sample_birth w = Some (session_born w sample_syn sample_birth)"
  by (simp add: buildSession_iff sample_syn_def sample_birth_def getIPVer_def tcp_flags_def getHeaderLen_def
      mem_of_def nth_append SYN_def)

lemma sample_session_built: "buildSession sample_syn sample_birth router0 = Some sample_session"
  by (simp add: sample_session_def sample_syn_builds)

end
