(* ===== verification/TCPPacket.thy ===== *)
theory TCPPacket
  imports TCPSession
begin

text \<open>
  What \<^verbatim>\<open>TCPSession::buildPackage\<close> puts on the wire: the sizes, both checksums, and the fields as
  the accessors of \<^verbatim>\<open>IPAdpt.cpp\<close> (or the receiver's stack) read them back.
\<close>

lemma length_st32 [simp]: "length (st32 v) = 4"
  by (simp add: st32_def)

lemma length_ip4_header [simp]: "length (ip4_header s n c) = 20"
  by (simp add: ip4_header_def)

lemma length_ippseudo [simp]: "length (ippseudo s n) = 12"
  by (simp add: ippseudo_def)

lemma length_tcp_header [simp]: "length (tcp_header s flag c) = 20"
  by (simp add: tcp_header_def)

lemma length_syn_options [simp]: "length (syn_options s flag) = syn_optlen flag"
  by (simp add: syn_options_def syn_optlen_def)

lemma syn_optlen_cases: "syn_optlen flag = 0 \<or> syn_optlen flag = 10"
  by (simp add: syn_optlen_def)

lemma length_package_bytes [simp]:
  "length (package_bytes s flag data) = 40 + syn_optlen flag + length data"
  by (simp add: package_bytes_def Let_def)

text \<open>The built datagram is well formed.\<close>

lemma buildPackage_ok:
  assumes d: "buildPackage flag data s = Some d" and len: "length data \<le> 65535"
  shows "seg_bytes d = package_bytes s flag data" "dgram_ok d"
    "mSize d = word_of_nat (40 + syn_optlen flag + length data)"
proof -
  define n where "n = 40 + syn_optlen flag + length data"
  have n: "n \<le> 65585" "0 < n" using syn_optlen_cases [of flag] len by (auto simp: n_def)
  then have un: "unat (word_of_nat n :: size_t) = n" by simp
  then have ok: "\<not> (word_of_nat n :: size_t) < 1" "\<not> seg_max < (word_of_nat n :: size_t)"
    using n by (simp_all add: word_less_nat_alt)
  have fields: "mData d = Some (package_bytes s flag data)" "mSize d = word_of_nat n" "mPos d = 0"
      "mLimit d = word_of_nat n" "mMarkPos d = 0" "mMarkLimit d = 0"
  proof -
    have nn: "20 + 20 + syn_optlen flag + length data = n" by (simp add: n_def)
    have "d = (seg_set_limit (word_of_nat n) (datagram_new (word_of_nat n)))
        \<lparr>mData := Some (package_bytes s flag data), mSeq := mLocalSeq s, mAck := mRemoteNext s,
         mFlag := flag, mLength := word_of_nat (length data)\<rparr>"
      using d unfolding buildPackage_def Let_def nn by (simp split: if_splits)
    moreover have "mSize (segment_new (word_of_nat n)) = word_of_nat n"
      using ok by (simp add: segment_new_def)
    ultimately show "mData d = Some (package_bytes s flag data)" "mSize d = word_of_nat n" "mPos d = 0"
      "mLimit d = word_of_nat n" "mMarkPos d = 0" "mMarkLimit d = 0"
      by (simp_all add: seg_set_limit_def)
  qed
  have len': "length (package_bytes s flag data) = n" by (simp add: n_def)
  show "mSize d = word_of_nat (40 + syn_optlen flag + length data)" using fields by (simp add: n_def)
  show bytes: "seg_bytes d = package_bytes s flag data"
    using len' un by (simp add: seg_bytes_def fields)
  have "seg_inv d"
    unfolding seg_inv_nat using fields un n len' by simp
  moreover have "package_bytes s flag data \<noteq> []" using len' n by (metis length_0_conv less_irrefl)
  ultimately show "dgram_ok d"
    using bytes buildPackage_fields [OF d] by (simp add: dgram_ok_def packet_bytes_def fields)
qed

lemma buildPackage_Some: "mIPVer s = 4 \<Longrightarrow> \<exists>d. buildPackage flag data s = Some d"
  by (simp add: buildPackage_def Let_def)

section \<open>Checksums\<close>

lemma ip4_header_split:
  "ip4_header s n c = ([0x45, 0] @ st16 (swap16 (word_of_nat n)) @ [0, 0, 0, 0, 64, PROTO_TCP]) @ st16 c
     @ st32 (mDestAddr s) @ st32 (mSrcAddr s)"
  by (simp add: ip4_header_def)

definition tcp_pre :: "session \<Rightarrow> byte \<Rightarrow> bytes" where
  "tcp_pre s flag =
     st16 (mDestPort s) @ st16 (mSrcPort s)
     @ st32 (swap32 (mLocalSeq s + mLocalSeqBase s)) @ st32 (swap32 (mRemoteNext s + mRemoteSeqBase s))
     @ [push_bit 4 (word_of_nat ((20 + syn_optlen flag) div 4)), flag]
     @ st16 (swap16 (ucast (drop_bit (unat (mWindowScale s)) (mReceiveWindow s))))"

lemma length_tcp_pre [simp]: "length (tcp_pre s flag) = 16"
  by (simp add: tcp_pre_def)

lemma tcp_header_split: "tcp_header s flag c = tcp_pre s flag @ st16 c @ st16 0"
  by (simp add: tcp_header_def tcp_pre_def)

text \<open>The four calls compute one sum over pseudo header, header, options and data.\<close>

lemma tcp_sum_whole:
  assumes "length data \<le> 65535"
  shows "tcp_sum s flag data =
    computeChecksum 0 ((ippseudo s (20 + length data + syn_optlen flag) @ tcp_pre s flag) @ st16 0
      @ (st16 0 @ syn_options s flag @ data))"
proof -
  have ev: "even (syn_optlen flag)" using syn_optlen_cases [of flag] by auto
  define P where "P = ippseudo s (20 + length data + syn_optlen flag)"
  have lP: "length P = 12" by (simp add: P_def)
  have le: "syn_optlen flag \<le> 10" using syn_optlen_cases [of flag] by auto
  have "tcp_sum s flag data = computeChecksum 0 (((P @ tcp_header s flag 0) @ syn_options s flag) @ data)"
    unfolding tcp_sum_def Let_def P_def [symmetric]
    using ev le assms lP by (simp add: computeChecksum_append del: append_assoc)
  then show ?thesis by (simp add: tcp_header_split P_def)
qed

text \<open>
  Claim C6. Every packet the session builds, whatever its flags and data (of any length a uint16_t can
  hold), has a valid IPv4 header checksum and a valid TCP checksum: the sums over the header, and over
  pseudo header and segment, are all ones.
\<close>

theorem package_checksums:
  assumes "length data \<le> 65535"
  shows "computeChecksum 0 (take 20 (package_bytes s flag data)) = 0xFFFF
    \<and> computeChecksum 0 (ippseudo s (20 + length data + syn_optlen flag)
         @ drop 20 (package_bytes s flag data)) = 0xFFFF"
proof
  define n where "n = 20 + 20 + syn_optlen flag + length data"
  have "take 20 (package_bytes s flag data) = ip4_header s n (NOT (computeChecksum 0 (ip4_header s n 0)))"
    by (simp add: package_bytes_def Let_def n_def)
  then show "computeChecksum 0 (take 20 (package_bytes s flag data)) = 0xFFFF"
    using checksum_field_verifies [of "[0x45, 0] @ st16 (swap16 (word_of_nat n)) @ [0, 0, 0, 0, 64, PROTO_TCP]"
        "st32 (mDestAddr s) @ st32 (mSrcAddr s)" 0]
    by (simp add: ip4_header_split)
next
  define P where "P = ippseudo s (20 + length data + syn_optlen flag)"
  have le: "syn_optlen flag \<le> 10" using syn_optlen_cases [of flag] by auto
  have "P @ drop 20 (package_bytes s flag data)
      = (P @ tcp_pre s flag) @ st16 (NOT (tcp_sum s flag data)) @ (st16 0 @ syn_options s flag @ data)"
    by (simp add: package_bytes_def Let_def tcp_header_split)
  also have "tcp_sum s flag data
      = computeChecksum 0 ((P @ tcp_pre s flag) @ st16 0 @ (st16 0 @ syn_options s flag @ data))"
    using tcp_sum_whole [OF assms] by (simp add: P_def)
  finally show "computeChecksum 0 (P @ drop 20 (package_bytes s flag data)) = 0xFFFF"
    using checksum_field_verifies [of "P @ tcp_pre s flag" "st16 0 @ syn_options s flag @ data" 0] assms le
    by (simp add: P_def)
qed

theorem package_checksums_witness:
  "computeChecksum 0 (take 20 (package_bytes sample_session SYN [1, 2, 3])) = 0xFFFF
    \<and> computeChecksum 0 (ippseudo sample_session (20 + length [1 :: byte, 2, 3] + syn_optlen SYN)
         @ drop 20 (package_bytes sample_session SYN [1, 2, 3])) = 0xFFFF"
  by (rule package_checksums) simp

section \<open>Reading the packet back\<close>

lemma laid_out_mem_of: "laid_out (mem_of (pre @ xs @ post)) (length pre) xs"
proof (induction xs arbitrary: pre)
  case Nil
  then show ?case by simp
next
  case (Cons x xs)
  have "mem_of (pre @ (x # xs) @ post) (length pre) = x" by (simp add: mem_of_def)
  moreover have "laid_out (mem_of (pre @ (x # xs) @ post)) (length pre + 1) xs"
    using Cons [of "pre @ [x]"] by simp
  ultimately show ?case by simp
qed

lemma laid_out_self: "laid_out (mem_of xs) 0 xs"
  using laid_out_mem_of [of "[]" xs "[]"] by simp

lemma ld16_st16: "laid_out m a (st16 v) \<Longrightarrow> ld16 m a = v"
  by (simp add: st16_def ld16_def le16_st16)

lemma ld32_st32: "laid_out m a (st32 v) \<Longrightarrow> ld32 m a = v"
proof -
  assume "laid_out m a (st32 v)"
  then have "laid_out m a (st16 (ucast v))" "laid_out m (a + 2) (st16 (ucast (drop_bit 16 v)))"
    by (simp_all add: st32_def laid_out_append)
  then have "ld16 m a = ucast v" "ld16 m (a + 2) = ucast (drop_bit 16 v)"
    using ld16_st16 by blast+
  then show ?thesis unfolding ld32_def
    by (intro bit_word_eqI) (auto simp: bit_simps)
qed

text \<open>Where each part of the packet lies.\<close>

lemma package_layout:
  assumes "m = mem_of (package_bytes s flag data)"
  shows "m 0 = 0x45" "laid_out m 2 (st16 (swap16 (word_of_nat (40 + syn_optlen flag + length data))))"
    "m 9 = PROTO_TCP" "laid_out m 12 (st32 (mDestAddr s))" "laid_out m 16 (st32 (mSrcAddr s))"
    "laid_out m 20 (st16 (mDestPort s))" "laid_out m 22 (st16 (mSrcPort s))"
    "laid_out m 24 (st32 (swap32 (mLocalSeq s + mLocalSeqBase s)))"
    "laid_out m 28 (st32 (swap32 (mRemoteNext s + mRemoteSeqBase s)))"
    "m 32 = push_bit 4 (word_of_nat ((20 + syn_optlen flag) div 4))" "m 33 = flag"
    "laid_out m 34 (st16 (swap16 (ucast (drop_bit (unat (mWindowScale s)) (mReceiveWindow s)))))"
    "laid_out m 40 (syn_options s flag)" "laid_out m (40 + syn_optlen flag) data"
proof -
  have "laid_out m 0 (package_bytes s flag data)"
    using assms laid_out_self by simp
  then show "m 0 = 0x45" "laid_out m 2 (st16 (swap16 (word_of_nat (40 + syn_optlen flag + length data))))"
    "m 9 = PROTO_TCP" "laid_out m 12 (st32 (mDestAddr s))" "laid_out m 16 (st32 (mSrcAddr s))"
    "laid_out m 20 (st16 (mDestPort s))" "laid_out m 22 (st16 (mSrcPort s))"
    "laid_out m 24 (st32 (swap32 (mLocalSeq s + mLocalSeqBase s)))"
    "laid_out m 28 (st32 (swap32 (mRemoteNext s + mRemoteSeqBase s)))"
    "m 32 = push_bit 4 (word_of_nat ((20 + syn_optlen flag) div 4))" "m 33 = flag"
    "laid_out m 34 (st16 (swap16 (ucast (drop_bit (unat (mWindowScale s)) (mReceiveWindow s)))))"
    "laid_out m 40 (syn_options s flag)" "laid_out m (40 + syn_optlen flag) data"
    by (simp_all add: package_bytes_def Let_def ip4_header_def tcp_header_def laid_out_append
        del: One_nat_def)
qed

lemma laid_out_map: "laid_out m p xs \<Longrightarrow> map (\<lambda>i. m (p + i)) [0..<length xs] = xs"
proof (induction xs arbitrary: p)
  case Nil
  then show ?case by simp
next
  case (Cons x xs)
  have "[0..<length (x # xs)] = 0 # map Suc [0..<length xs]"
    by (simp only: length_Cons map_Suc_upt) (simp add: upt_rec)
  moreover have "map (\<lambda>i. m (Suc p + i)) [0..<length xs] = xs"
    using Cons.prems by (intro Cons.IH) simp
  ultimately show ?case using Cons.prems by (simp add: comp_def del: upt_Suc)
qed

lemma package_header:
  assumes "m = mem_of (package_bytes s flag data)"
  shows "getHeaderLen m = 20" "getTCPHeaderLen m 20 = (if flag AND SYN \<noteq> 0 then 28 else 20)"
    "getPayloadOffset m = (if flag AND SYN \<noteq> 0 then 48 else 40)"
proof -
  note l = package_layout [OF assms]
  show h: "getHeaderLen m = 20" by (simp add: getHeaderLen_def l)
  show t: "getTCPHeaderLen m 20 = (if flag AND SYN \<noteq> 0 then 28 else 20)"
    by (simp add: getTCPHeaderLen_def tcp_dataoff_def l syn_optlen_def)
  show "getPayloadOffset m = (if flag AND SYN \<noteq> 0 then 48 else 40)"
    by (simp add: getPayloadOffset_def getProtocol_def l h t PROTO_TCP_def PROTO_UDP_def)
qed

text \<open>
  Claim C7. The accessors read back from every packet without SYN what the session meant to send: version,
  protocol, total length, swapped addresses and ports, its sequence and acknowledgement numbers, the
  flags and exactly the data.
\<close>

theorem package_readback:
  assumes "length data \<le> 61440" "flag AND SYN = 0"
  shows "let m = mem_of (package_bytes s flag data) in
    getIPVer m = 4 \<and> getProtocol m = PROTO_TCP \<and> unat (getTTLEN m) = 40 + length data
    \<and> getSrc m = mDestAddr s \<and> getDest m = mSrcAddr s
    \<and> getSrcPort m = mDestPort s \<and> getDestPort m = mSrcPort s
    \<and> tcp_seq m = mLocalSeq s + mLocalSeqBase s \<and> tcp_ack_seq m = mRemoteNext s + mRemoteSeqBase s
    \<and> tcp_flags m = flag \<and> getPayloadLen m = int (length data)
    \<and> ip_payload m (length data) = data"
proof -
  define m where "m = mem_of (package_bytes s flag data)"
  note l = package_layout [OF m_def] and h = package_header [OF m_def]
  have o0: "syn_optlen flag = 0" using assms(2) by (simp add: syn_optlen_def)
  have ttl: "unat (getTTLEN m) = 40 + length data"
    using l(2) assms(1) o0 by (simp add: getTTLEN_def ld16_st16 unat_of_nat take_bit_eq_mod flip: of_nat_add)
  have "ip_payload m (length data) = data"
    using laid_out_map [of m 40 data] l(14) o0 h assms(2) by (simp add: ip_payload_def)
  moreover have "getPayloadLen m = int (length data)"
    using ttl h assms(2) by (simp add: getPayloadLen_def)
  moreover have "getSrcPort m = mDestPort s" "getDestPort m = mSrcPort s"
    using ld16_st16 [OF l(6)] ld16_st16 [OF l(7)] l(3) h
    by (simp_all add: getSrcPort_def getDestPort_def getProtocol_def)
  moreover have "getIPVer m = 4" by (simp add: getIPVer_def l)
  ultimately show ?thesis
    unfolding Let_def m_def [symmetric]
    using ttl l(3) ld32_st32 [OF l(4)] ld32_st32 [OF l(5)] ld32_st32 [OF l(8)] ld32_st32 [OF l(9)] l(11) h
    by (simp add: getProtocol_def getSrc_def getDest_def tcp_seq_def tcp_ack_seq_def tcp_flags_def)
qed

theorem package_readback_witness:
  "let m = mem_of (package_bytes sample_session ACK [7, 8]) in
    getIPVer m = 4 \<and> getProtocol m = PROTO_TCP \<and> unat (getTTLEN m) = 40 + length [7 :: byte, 8]
    \<and> getSrc m = mDestAddr sample_session \<and> getDest m = mSrcAddr sample_session
    \<and> getSrcPort m = mDestPort sample_session \<and> getDestPort m = mSrcPort sample_session
    \<and> tcp_seq m = mLocalSeq sample_session + mLocalSeqBase sample_session \<and> tcp_ack_seq m = mRemoteNext sample_session + mRemoteSeqBase sample_session
    \<and> tcp_flags m = ACK \<and> getPayloadLen m = int (length [7 :: byte, 8])
    \<and> ip_payload m (length [7 :: byte, 8]) = [7, 8]"
  by (rule package_readback) (simp_all add: ACK_def SYN_def)

text \<open>
  The handshake packet is malformed: its ten option bytes do not fill the data offset field of
  seven words, so every receiver sees a header of 28 bytes, a SACK-permitted option cut off after its kind,
  and two bytes of payload (1 and 0) the session never meant to send.
\<close>

theorem handshake_header_short:
  "let m = mem_of (package_bytes s (SYN OR ACK) []) in
    getTCPHeaderLen m (getHeaderLen m) = 28 \<and> getPayloadLen m = 2 \<and> ip_payload m 2 = [1, 0]
    \<and> m (getPayloadOffset m - 1) = OPT_SACKF"
proof -
  define m where "m = mem_of (package_bytes s (SYN OR ACK) [])"
  have f: "(SYN OR ACK) AND SYN \<noteq> 0" by (simp add: flag_defs)
  note l = package_layout [OF m_def] and h = package_header [OF m_def]
  have o: "syn_optlen (SYN OR ACK) = 10" using f by (simp add: syn_optlen_def)
  have "unat (getTTLEN m) = 50"
    using l(2) o by (simp add: getTTLEN_def ld16_st16)
  moreover have "m 47 = 4 \<and> m 48 = 1 \<and> m 49 = 0"
    using l(13) f by (simp add: syn_options_def st16_def)
  ultimately show ?thesis
    unfolding Let_def m_def [symmetric]
    using f h by (simp add: getPayloadLen_def ip_payload_def OPT_SACKF_def numeral_2_eq_2)
qed

end
