(* ===== verification/TCPOwn.thy ===== *)
theory TCPOwn
  imports TCPPacket
begin

text \<open>
  Memory safety of a TCP session: whatever packets arrive and whatever the tunnel does, no handler
  of \<^verbatim>\<open>TCPSession\<close> follows a dangling pointer, deletes a datagram twice or loses one, and the byte count
  of the back queue is exact. \<open>Other\<close> are the datagrams in the back queues of the other
  sessions, which share the router.
\<close>

section \<open>The contract between a session and the pool of datagrams\<close>

text \<open>
  A session may rely on two laws: a datagram it holds can be handed to the router, and it can be given up.
\<close>

locale datagram_pool =
  fixes inv :: "'r set \<Rightarrow> 'w \<Rightarrow> bool"
    and send :: "'r \<Rightarrow> 'w \<Rightarrow> (int \<times> 'w) option"
    and release :: "'r \<Rightarrow> 'w \<Rightarrow> 'w option"
    and sees :: "'r set \<Rightarrow> 'w \<Rightarrow> 'w \<Rightarrow> bool"
  assumes send_law: "inv B w \<Longrightarrow> r \<in> B \<Longrightarrow>
      \<exists>c w'. send r w = Some (c, w') \<and> inv B w' \<and> sees B w w'"
    and release_law: "inv B w \<Longrightarrow> r \<in> B \<Longrightarrow>
      \<exists>w'. release r w = Some w' \<and> inv (B - {r}) w' \<and> sees (B - {r}) w w'"
    and sees_refl: "sees B w w"
    and sees_trans: "sees B w1 w2 \<Longrightarrow> sees B w2 w3 \<Longrightarrow> sees B w1 w3"
    and sees_mono: "sees B w1 w2 \<Longrightarrow> C \<subseteq> B \<Longrightarrow> sees C w1 w2"
begin

text \<open>Giving up a whole list of datagrams leaves the rest as they were.\<close>

lemma release_each:
  "inv B w \<Longrightarrow> distinct rs \<Longrightarrow> set rs \<subseteq> B \<Longrightarrow>
   \<exists>w'. each release rs w = Some w' \<and> inv (B - set rs) w' \<and> sees (B - set rs) w w'"
proof (induction rs arbitrary: B w)
  case Nil
  then show ?case by (simp add: sees_refl)
next
  case (Cons r rs)
  then obtain w1 where w1: "release r w = Some w1" "inv (B - {r}) w1" "sees (B - {r}) w w1"
    using release_law [of B w r] by auto
  have "set rs \<subseteq> B - {r}" using Cons.prems by auto
  then obtain w2 where w2: "each release rs w1 = Some w2" "inv (B - {r} - set rs) w2"
      "sees (B - {r} - set rs) w1 w2"
    using Cons.IH [OF w1(2)] Cons.prems by auto
  have "B - {r} - set rs = B - set (r # rs)" by auto
  moreover have "sees (B - {r} - set rs) w w1" using w1(3) by (rule sees_mono) auto
  ultimately show ?case using w1(1) w2 sees_trans by auto
qed

lemma send_then_release:
  assumes "inv B w" "r \<in> B"
  shows "\<exists>c w1 w2. send r w = Some (c, w1) \<and> release r w1 = Some w2 \<and> inv (B - {r}) w2
     \<and> sees (B - {r}) w w2"
proof -
  obtain c w1 where w1: "send r w = Some (c, w1)" "inv B w1" "sees B w w1"
    using send_law [OF assms] by blast
  then obtain w2 where w2: "release r w1 = Some w2" "inv (B - {r}) w2" "sees (B - {r}) w1 w2"
    using release_law [OF _ assms(2)] by blast
  have "sees (B - {r}) w w1" using w1(3) by (rule sees_mono) auto
  with w1(1) w2 show ?thesis using sees_trans by blast
qed

end

section \<open>Releasing\<close>

lemma safeReleaseSegment_owned:
  assumes inv: "own_inv B w" and r: "r \<in> B"
  shows "\<exists>w'. safeReleaseSegment r w = Some w' \<and> own_inv (B - {r}) w' \<and> same_view (B - {r}) w w'
     \<and> router.more w' = router.more w"
proof -
  obtain d where d: "heap w r = Some d" and c: "cell_ok B (set (tunData w)) r d"
    using own_inv_deref [OF inv] r by blast
  have old: "cell_ok (B - {r}) Q s e" if "cell_ok B Q s e" "s \<noteq> r" for Q s e
    using that by (simp add: cell_ok_def)
  show ?thesis
  proof (cases "mBuffering d")
    case True
    define d' where "d' = d\<lparr>mAbort := True, mReleaseAfterBuffering := True\<rparr>"
    define w' where "w' = store r d' w"
    have rq: "r \<in> set (tunData w)" using c True by (simp add: cell_ok_def)
    have "seg_resume d' = (seg_resume d)\<lparr>mAbort := True, mReleaseAfterBuffering := True\<rparr>"
      by (simp add: d'_def seg_resume_def)
    then have "packet_bytes d' = packet_bytes d"
      by (simp add: packet_bytes_def) (simp add: d'_def)
    then have "dgram_ok d'" using c by (simp add: dgram_ok_def cell_ok_def) (simp add: d'_def)
    then have c': "cell_ok (B - {r}) (set (tunData w)) r d'"
      using rq True by (simp add: cell_ok_def d'_def)
    have "own_inv (B - {r}) w'"
    proof (rule own_invI)
      show "dom (heap w') = B - {r} \<union> set (tunData w')"
        using own_invD(2) [OF inv] rq by (auto simp: w'_def)
      show "s < next_ref w'" if "heap w' s = Some e" for s e
        using that own_invD(3) [OF inv, of s] d by (auto simp: w'_def split: if_splits)
      show "cell_ok (B - {r}) (set (tunData w')) s e" if "heap w' s = Some e" for s e
        using that own_invD(4) [OF inv, of s e] old c' by (cases "s = r") (auto simp: w'_def)
    qed (simp add: w'_def own_invD(1) [OF inv])
    moreover have "same_view (B - {r}) w w'" by (auto simp: same_view_def w'_def)
    ultimately show ?thesis using d True by (simp add: safeReleaseSegment_def w'_def d'_def)
  next
    case False
    have nq: "r \<notin> set (tunData w)" using c False by (simp add: cell_ok_def)
    have "seg_delete_ok d" using c by (simp add: cell_ok_def dgram_ok_def seg_delete_ok_def)
    then obtain w' where del: "delete r w = Some w'" using d by (simp add: delete_def)
    note fr = delete_frame [OF del]
    have "own_inv (B - {r}) w'"
    proof (rule own_invI)
      show "dom (heap w') = B - {r} \<union> set (tunData w')"
        using own_invD(2) [OF inv] nq fr by auto
      show "s < next_ref w'" if "heap w' s = Some e" for s e
        using that own_invD(3) [OF inv, of s e] fr by (auto split: if_splits)
      show "cell_ok (B - {r}) (set (tunData w')) s e" if "heap w' s = Some e" for s e
        using that own_invD(4) [OF inv, of s e] old fr by (auto split: if_splits)
    qed (use fr own_invD(1) [OF inv] in simp)
    moreover have "same_view (B - {r}) w w'" using fr by (auto simp: same_view_def)
    ultimately show ?thesis using d False del fr by (simp add: safeReleaseSegment_def)
  qed
qed

lemma onSyncEvent_view:
  assumes "onSyncEvent r w = Some (c, w')" shows "same_view B w w'"
proof -
  have "dgram_view (seg_mark (d\<lparr>mBuffering := True\<rparr>)) = dgram_view d" if "\<not> mBuffering d" for d
    using packet_bytes_sync [OF that] by (simp add: dgram_view_def) (simp add: seg_mark_def)
  then show ?thesis
    using assms by (auto simp: onSyncEvent_def same_view_def split: option.splits if_splits)
qed

lemma same_view_mono: "same_view B w1 w2 \<Longrightarrow> C \<subseteq> B \<Longrightarrow> same_view C w1 w2"
  by (auto simp: same_view_def)

text \<open>The router and the release of a session keep the contract.\<close>

interpretation pool: datagram_pool own_inv onSyncEvent safeReleaseSegment same_view
proof unfold_locales
  fix B and w :: "'a router_scheme" and r
  assume "own_inv B w" "r \<in> B"
  then show "\<exists>c w'. onSyncEvent r w = Some (c, w') \<and> own_inv B w' \<and> same_view B w w'"
    using onSyncEvent_owned onSyncEvent_view by blast
next
  fix B and w :: "'a router_scheme" and r
  assume "own_inv B w" "r \<in> B"
  then show "\<exists>w'. safeReleaseSegment r w = Some w' \<and> own_inv (B - {r}) w' \<and> same_view (B - {r}) w w'"
    using safeReleaseSegment_owned by blast
qed (auto intro: same_view_refl same_view_trans same_view_mono)

section \<open>The invariant of a session\<close>

definition cap_of :: "'a router_scheme \<Rightarrow> ref \<Rightarrow> u32" where
  "cap_of s r = (case heap s r of None \<Rightarrow> 0 | Some d \<Rightarrow> mSize d)"

definition sess_inv :: "ref set \<Rightarrow> session \<Rightarrow> bool" where
  "sess_inv Other s \<longleftrightarrow>
     own_inv (Other \<union> set (mBackQueue s)) s \<and> distinct (mBackQueue s)
     \<and> Other \<inter> set (mBackQueue s) = {} \<and> mBackQueueDataSize s = sum_list (map (cap_of s) (mBackQueue s))
     \<and> mIPVer s = 4 \<and> mWindowScale s \<le> max_scale \<and> (\<forall>d \<in> set (mForwardQueue s). seg_inv d \<and> mData d \<noteq> None)"

text \<open>The bytes handed to the tunnel, and the receiving side, which no operation on the back queue touches.\<close>

fun sent_of :: "effect \<Rightarrow> bytes" where
  "sent_of (T_sendData data md) = data"
| "sent_of _ = []"

abbreviation tunnel_bytes :: "session \<Rightarrow> bytes" where
  "tunnel_bytes s \<equiv> concat (map sent_of (effects s))"

definition rx :: "session \<Rightarrow> datagram list \<times> u32 \<times> u32 \<times> u32 \<times> u32 \<times> u32 \<times> bool \<times> bytes" where
  "rx s = (mForwardQueue s, mForwardQueueDataSize s, mRemoteNext s, mRemoteSeqBase s, mLocalSeqBase s,
           mLocalNext s, mRemoteFinished s, tunnel_bytes s)"

definition back_step :: "ref set \<Rightarrow> session \<Rightarrow> session \<Rightarrow> bool" where
  "back_step Other s s' \<longleftrightarrow> sess_inv Other s' \<and> same_view Other s s' \<and> rx s' = rx s"

lemma back_step_refl: "sess_inv Other s \<Longrightarrow> back_step Other s s"
  by (simp add: back_step_def same_view_refl)

lemma back_step_trans [trans]: "back_step Other s1 s2 \<Longrightarrow> back_step Other s2 s3 \<Longrightarrow> back_step Other s1 s3"
  unfolding back_step_def using same_view_trans by metis

lemma back_stepD: "back_step Other s s' \<Longrightarrow> sess_inv Other s'"
  by (simp add: back_step_def)

text \<open>Changes that do not touch what the invariant reads.\<close>

definition sess_core ::
  "session \<Rightarrow> (ref \<Rightarrow> datagram option) \<times> ref list \<times> ref \<times> ref list \<times> u32 \<times> byte \<times> byte \<times> datagram list" where
  "sess_core s =
     (heap s, tunData s, next_ref s, mBackQueue s, mBackQueueDataSize s, mIPVer s, mWindowScale s, mForwardQueue s)"

lemma sess_inv_core: "sess_core s' = sess_core s \<Longrightarrow> sess_inv Other s' = sess_inv Other s"
proof -
  assume eq: "sess_core s' = sess_core s"
  then have "cap_of s' = cap_of s" by (intro ext) (simp add: sess_core_def cap_of_def)
  moreover have "own_inv B s' = own_inv B s" for B
    using eq by (intro own_inv_frame) (simp_all add: sess_core_def)
  ultimately show ?thesis using eq by (simp add: sess_inv_def sess_core_def)
qed

lemma back_step_core:
  "sess_inv Other s \<Longrightarrow> sess_core s' = sess_core s \<Longrightarrow> rx s' = rx s \<Longrightarrow> back_step Other s s'"
  unfolding back_step_def
  using sess_inv_core [of s' s Other] by (auto simp: sess_core_def same_view_def)

lemma emit_core [simp]: "sess_core (emit e s) = sess_core s" "sent_of e = [] \<Longrightarrow> rx (emit e s) = rx s"
  by (simp_all add: emit_def sess_core_def rx_def)

lemma switchState_core [simp]: "sess_core (switchState st s) = sess_core s" "rx (switchState st s) = rx s"
  by (simp_all add: switchState_def close_def emit_def sess_core_def rx_def Let_def)

lemma updateWindowSize_core:
  assumes "updateWindowSize s = Some s'"
  shows "sess_core s' = sess_core s" "rx s' = rx s" "mLocalNext s' = mLocalNext s" "next_ref s' = next_ref s"
  by (rule updateWindowSize_frame [OF assms], simp add: sess_core_def rx_def)+

lemma updateWindowSize_step:
  assumes "sess_inv Other s"
  obtains s' where "updateWindowSize s = Some s'" "back_step Other s s'"
proof -
  have "updateWindowSize s \<noteq> None" using assms unfolding updateWindowSize_iff sess_inv_def by (simp add: not_less)
  then obtain s' where "updateWindowSize s = Some s'" by blast
  then show ?thesis using that back_step_core [OF assms] updateWindowSize_core by blast
qed

text \<open>The router changes none of the session's own fields.\<close>

lemma session_more:
  fixes s t :: session
  assumes "router.more s = router.more t"
  shows "s = t\<lparr>heap := heap s, next_ref := next_ref s, tunData := tunData s, tunWrite := tunWrite s,
               tunOut := tunOut s, captured := captured s\<rparr>"
  using assms by (cases s, cases t) simp

lemma session_fields:
  fixes s t :: session
  assumes "router.more s = router.more t"
  shows "mBackQueue s = mBackQueue t" "mBackQueueDataSize s = mBackQueueDataSize t" "mIPVer s = mIPVer t"
    "mForwardQueue s = mForwardQueue t" "rx s = rx t" "mState s = mState t" "effects s = effects t"
    "mWindowScale s = mWindowScale t"
  by (subst session_more [OF assms], simp add: rx_def)+

lemma same_view_cap: "same_view B w w' \<Longrightarrow> r \<in> B \<Longrightarrow> cap_of w' r = cap_of w r"
  by (auto simp: same_view_def cap_of_def dgram_view_def split: option.splits dest!: bspec)

lemma same_view_caps:
  "same_view B w w' \<Longrightarrow> set rs \<subseteq> B
   \<Longrightarrow> sum_list (map (cap_of w') rs) = sum_list (map (cap_of w) rs)"
  using same_view_cap by (intro arg_cong [where f = sum_list] map_cong refl) blast

section \<open>The back queue\<close>

text \<open>What the router does between two handlers of the session.\<close>

lemma sess_inv_router:
  assumes inv: "sess_inv Other s" and own: "own_inv (Other \<union> set (mBackQueue s)) s'"
    and view: "same_view (Other \<union> set (mBackQueue s)) s s'" and more: "router.more s' = router.more s"
  shows "back_step Other s s'"
proof -
  note f = session_fields [OF more]
  have "sum_list (map (cap_of s') (mBackQueue s)) = sum_list (map (cap_of s) (mBackQueue s))"
    by (rule same_view_caps [OF view]) simp
  then have "sess_inv Other s'" using inv own by (simp add: sess_inv_def f)
  moreover have "same_view Other s s'" using view by (rule same_view_mono) simp
  ultimately show ?thesis by (simp add: back_step_def f)
qed

lemma pop_loop_step:
  "sess_inv Other s \<Longrightarrow> mBackQueue s = rs \<Longrightarrow> \<exists>s'. pop_loop rs s = Some s' \<and> back_step Other s s'"
proof (induction rs arbitrary: s)
  case Nil
  then show ?case by (simp add: back_step_refl)
next
  case (Cons r rs)
  note inv = Cons.prems(1) and q = Cons.prems(2)
  have own: "own_inv (Other \<union> set (r # rs)) s" and nr: "r \<notin> set rs" "r \<notin> Other" "distinct rs"
    using inv q by (auto simp: sess_inv_def)
  obtain d where d: "heap s r = Some d" using own_inv_deref [OF own, of r] by auto
  show ?case
  proof (cases "flush_done d s")
    case False
    then show ?thesis using d inv by (simp add: back_step_refl)
  next
    case True
    define s1 where "s1 = s\<lparr>mBackQueue := rs, mTotalBack := mTotalBack s + ucast (mLength d),
                         mBackQueueDataSize := mBackQueueDataSize s - seg_capacity d\<rparr>"
    have "own_inv (Other \<union> set (r # rs)) s1" using own by (simp add: s1_def own_inv_def)
    then obtain s2 where s2: "safeReleaseSegment r s1 = Some s2"
        "own_inv (Other \<union> set (r # rs) - {r}) s2" "same_view (Other \<union> set (r # rs) - {r}) s1 s2"
        "router.more s2 = router.more s1"
      using safeReleaseSegment_owned [of "Other \<union> set (r # rs)" s1 r] by auto
    have B: "Other \<union> set (r # rs) - {r} = Other \<union> set rs" using nr by auto
    note f = session_fields [OF s2(4)]
    have q2: "mBackQueue s2 = rs" using f by (simp add: s1_def)
    have "sum_list (map (cap_of s2) rs) = sum_list (map (cap_of s1) rs)"
      by (rule same_view_caps [OF s2(3)]) (use nr in auto)
    moreover have "cap_of s1 = cap_of s" by (rule ext) (simp add: cap_of_def s1_def)
    moreover have "mBackQueueDataSize s = mSize d + sum_list (map (cap_of s) rs)"
      using inv q d by (simp add: sess_inv_def cap_of_def)
    ultimately have "mBackQueueDataSize s2 = sum_list (map (cap_of s2) rs)"
      by (simp add: f) (simp add: s1_def seg_capacity_def)
    then have inv2: "sess_inv Other s2"
      using inv s2(2) nr q unfolding B sess_inv_def by (simp add: f) (simp add: s1_def)
    have "same_view Other s s2"
      using same_view_mono [OF s2(3)] nr by (auto simp: same_view_def s1_def)
    then have st: "back_step Other s s2"
      using inv2 by (simp add: back_step_def f) (simp add: s1_def rx_def)
    obtain s3 where "pop_loop rs s2 = Some s3" "back_step Other s2 s3"
      using Cons.IH [OF inv2 q2] by blast
    then show ?thesis using d True s2(1) back_step_trans [OF st] by (simp add: s1_def)
  qed
qed

lemma pop_acked_step:
  "sess_inv Other s \<Longrightarrow> \<exists>s'. pop_acked s = Some s' \<and> back_step Other s s'"
  using pop_loop_step by (simp add: pop_acked_def)

lemma push_segment_defined:
  assumes inv: "sess_inv Other s"
  obtains ok s' where "push_segment flag data s = Some (ok, s')" "ok \<longleftrightarrow> mLocalNext s \<le> mLocalSeq s" "ok \<or> s' = s"
proof -
  obtain s1 where s1: "updateWindowSize s = Some s1" "back_step Other s s1" by (rule updateWindowSize_step [OF inv])
  have "mIPVer s1 = 4" using back_stepD [OF s1(2)] by (simp add: sess_inv_def)
  then obtain d where d: "buildPackage flag data s1 = Some d" using buildPackage_Some by blast
  show ?thesis
  proof (cases "mLocalNext s > mLocalSeq s")
    case True
    then show ?thesis by (intro that [of False s]) (simp_all add: push_segment_def)
  next
    case False
    then have "push_segment flag data s = Some (True, snd (the (push_segment flag data s)))"
      by (simp add: push_segment_def s1(1) d alloc_def)
    then show ?thesis using False by (intro that [of True "snd (the (push_segment flag data s))"]) simp_all
  qed
qed

lemma push_segment_step:
  assumes inv: "sess_inv Other s" and len: "length data \<le> 65535"
  obtains ok s' where "push_segment flag data s = Some (ok, s')" "back_step Other s s'" "ok \<longleftrightarrow> mLocalNext s \<le> mLocalSeq s"
proof -
  obtain ok s' where push: "push_segment flag data s = Some (ok, s')" "ok \<longleftrightarrow> mLocalNext s \<le> mLocalSeq s" "ok \<or> s' = s"
    by (rule push_segment_defined [OF inv, of flag data])
  have "back_step Other s s'"
  proof (cases ok)
    case False
    then show ?thesis using push(3) inv by (simp add: back_step_refl)
  next
    case True
    with push have "push_segment flag data s = Some (True, s')" by simp
    then obtain d q v where d: "buildPackage flag data (s\<lparr>tunQueries := q, mReceiveWindow := v\<rparr>) = Some d"
      and s': "s' = s\<lparr>tunQueries := q, mReceiveWindow := v, next_ref := next_ref s + 1,
            heap := (heap s)(next_ref s \<mapsto> d\<lparr>mNeedCapture := (mCtrlType s AND CTRL_CAPTURE) \<noteq> 0\<rparr>),
            mBackQueue := mBackQueue s @ [next_ref s],
            mBackQueueDataSize := mBackQueueDataSize s + seg_capacity d,
            mLocalSeq := (if hasFlag d (FIN OR SYN) then mLocalSeq s + 1
                          else mLocalSeq s + word_of_nat (length data))\<rparr>"
      by (rule push_segment_True)
    define r d' where "r = next_ref s" and "d' = d\<lparr>mNeedCapture := (mCtrlType s AND CTRL_CAPTURE) \<noteq> 0\<rparr>"
    have d'ok: "dgram_ok d'" "\<not> mBuffering d'" "\<not> mReleaseAfterBuffering d'" "\<not> mAbort d'"
      using buildPackage_ok(2) [OF d len] buildPackage_fields [OF d]
      by (simp_all add: d'_def dgram_ok_def packet_bytes_def)
    have own: "own_inv (Other \<union> set (mBackQueue s)) s" using inv by (simp add: sess_inv_def)
    obtain w where al: "alloc d' s = (r, w)" by (simp add: alloc_def r_def)
    note new = own_inv_alloc [OF own d'ok al]
    have f: "heap s' = heap w" "tunData s' = tunData w" "next_ref s' = next_ref w"
      using al by (auto simp: s' alloc_def store_def d'_def)
    have hs: "heap s' = (heap s)(r \<mapsto> d')" "mBackQueue s' = mBackQueue s @ [r]"
        "mForwardQueue s' = mForwardQueue s" "mIPVer s' = mIPVer s" "mWindowScale s' = mWindowScale s"
        "mBackQueueDataSize s' = mBackQueueDataSize s + mSize d" "rx s' = rx s"
      by (simp_all add: s' r_def d'_def seg_capacity_def rx_def)
    have "own_inv (Other \<union> set (mBackQueue s')) s'"
      using new(1) own_inv_frame [OF f] by (simp add: hs)
    moreover have "sum_list (map (cap_of s') (mBackQueue s)) = sum_list (map (cap_of s) (mBackQueue s))"
      using new(3) by (intro arg_cong [where f = sum_list] map_cong refl) (auto simp: cap_of_def hs)
    moreover have "cap_of s' r = mSize d" by (simp add: cap_of_def hs d'_def)
    ultimately have "sess_inv Other s'"
      using inv new(3) by (simp add: sess_inv_def hs)
    moreover have "same_view Other s s'" using new(3) by (auto simp: same_view_def hs)
    ultimately show ?thesis by (simp add: back_step_def hs)
  qed
  then show ?thesis using that push(1,2) by blast
qed

text \<open>Sending a datagram of the back queue.\<close>

lemma sendBackSegment_step:
  assumes inv: "sess_inv Other s" and r: "r \<in> set (mBackQueue s)"
  shows "\<exists>n s'. sendBackSegment r s = Some (n, s') \<and> back_step Other s s' \<and> mBackQueue s' = mBackQueue s
     \<and> mState s' = mState s"
proof -
  define B where "B = Other \<union> set (mBackQueue s)"
  have own: "own_inv B s" and rB: "r \<in> B" using inv r by (simp_all add: sess_inv_def B_def)
  obtain d where d: "heap s r = Some d" and c: "cell_ok B (set (tunData s)) r d"
    using own_inv_deref [OF own] rB by blast
  define d' where "d' = d\<lparr>mRetry := mRetry d + 1\<rparr>"
  define s1 where "s1 = store r d' s"
  have "seg_resume d' = (seg_resume d)\<lparr>mRetry := mRetry d + 1\<rparr>" by (simp add: d'_def seg_resume_def)
  then have "packet_bytes d' = packet_bytes d" by (simp add: packet_bytes_def) (simp add: d'_def)
  then have "cell_ok B (set (tunData s)) r d'"
    using c by (simp add: cell_ok_def dgram_ok_def) (simp add: d'_def)
  then have own1: "own_inv B s1" using own_inv_store [OF own d] by (simp add: s1_def)
  have q1: "mBackQueue s1 = mBackQueue s" "mBackQueueDataSize s1 = mBackQueueDataSize s"
      "mIPVer s1 = mIPVer s" "mForwardQueue s1 = mForwardQueue s" "rx s1 = rx s" "mState s1 = mState s"
      "mWindowScale s1 = mWindowScale s"
    by (simp_all add: s1_def store_def rx_def)
  have cap: "cap_of s1 = cap_of s" using d by (intro ext) (simp add: cap_of_def s1_def d'_def)
  have inv1: "sess_inv Other s1" using inv own1 by (simp add: sess_inv_def q1 B_def cap)
  have "same_view Other s s1" using inv r by (auto simp: same_view_def sess_inv_def s1_def)
  then have st1: "back_step Other s s1" using inv1 by (simp add: back_step_def q1)
  have "seg_size d > 0" using c by (simp add: cell_ok_def dgram_ok_def seg_size_pos)
  then have pos: "seg_size d \<noteq> 0" by auto
  obtain code s2 where s2: "onSyncEvent r s1 = Some (code, s2)" "own_inv B s2" "router.more s2 = router.more s1"
    using onSyncEvent_owned [OF own1 rB] by blast
  have st2: "back_step Other s1 s2"
    using s2 onSyncEvent_view [OF s2(1)] by (intro sess_inv_router [OF inv1]) (simp_all add: q1 B_def)
  note f = session_fields [OF s2(3)]
  show ?thesis
  proof (cases "code = 0")
    case False
    then show ?thesis using d pos s2(1) back_step_trans [OF st1 st2] f q1
      by (simp add: sendBackSegment_def s1_def [symmetric] d'_def [symmetric])
  next
    case True
    obtain d1 where d1: "heap s2 r = Some d1" using own_inv_deref [OF s2(2), of r] rB by auto
    have "back_step Other s2 (emit (CONN_TRAFFIC_BACK (mSeq d1) (mAck d1) (mLength d1)) s2)"
      using back_stepD [OF st2] by (intro back_step_core) simp_all
    then have "back_step Other s (emit (CONN_TRAFFIC_BACK (mSeq d1) (mAck d1) (mLength d1)) s2)"
      using back_step_trans st1 st2 by blast
    then show ?thesis using True d pos s2(1) d1 f q1
      by (simp add: sendBackSegment_def s1_def [symmetric] d'_def [symmetric]) (simp add: emit_def)
  qed
qed

text \<open>The reset packet belongs to no session: the router frees it once it is written.\<close>

lemma own_inv_enqueue_fresh:
  assumes inv: "own_inv B w" and d: "dgram_ok d" "mBuffering d" "mReleaseAfterBuffering d"
    and w': "heap w' = (heap w)(next_ref w \<mapsto> d)" "tunData w' = tunData w @ [next_ref w]"
      "next_ref w' = next_ref w + 1"
  shows "own_inv B w'" "next_ref w \<notin> B"
proof -
  define r where "r = next_ref w"
  have "heap w r = None" using own_invD(3) [OF inv, of r] r_def by (cases "heap w r") auto
  then have "r \<notin> dom (heap w)" by auto
  then have nr: "r \<notin> B" "r \<notin> set (tunData w)" using own_invD(2) [OF inv] by simp_all
  then show "next_ref w \<notin> B" by (simp add: r_def)
  have old: "cell_ok B (set (tunData w')) s e" if "cell_ok B (set (tunData w)) s e" "s \<noteq> r" for s e
    using that by (simp add: cell_ok_def w' r_def)
  show "own_inv B w'"
  proof (rule own_invI)
    show "dom (heap w') = B \<union> set (tunData w')" using own_invD(2) [OF inv] by (auto simp: w')
    show "s < next_ref w'" if "heap w' s = Some e" for s e
      using that own_invD(3) [OF inv, of s e] by (auto simp: w' split: if_splits)
    show "cell_ok B (set (tunData w')) s e" if "heap w' s = Some e" for s e
      using that own_invD(4) [OF inv, of s e] old d nr
      by (cases "s = r") (auto simp: w' cell_ok_def r_def)
  qed (use nr own_invD(1) [OF inv] in \<open>simp add: w' r_def\<close>)
qed

text \<open>The reset packet: it belongs to nobody but the router's queue, which frees it.\<close>

lemma reset_dgram:
  assumes d: "buildPackage (RST OR ACK) [] s = Some d"
  defines "d2 \<equiv> d\<lparr>mReleaseAfterBuffering := True\<rparr>\<lparr>mRetry := 1\<rparr>"
  defines "d3 \<equiv> seg_mark (d2\<lparr>mBuffering := True\<rparr>)"
  shows "seg_size d2 = 40" "seg_size d3 = 40" "\<not> mBuffering d2 \<and> \<not> mAbort d2" "mRetry d + 1 = 1"
    "dgram_ok d3" "mBuffering d3" "mReleaseAfterBuffering d3"
proof -
  have "length ([] :: bytes) \<le> 65535" by simp
  note bf = buildPackage_fields [OF d] and bok = buildPackage_ok [OF d this]
  have "seg_inv d" using bok(2) by (simp add: dgram_ok_def)
  then have "unat (seg_size d) = 40"
    using seg_size_bytes [of d] by (simp add: bok(1) syn_optlen_def flag_defs)
  then have "seg_size d = 40" by (simp add: word_unat_eq_iff)
  then show "seg_size d2 = 40" "seg_size d3 = 40" by (simp_all add: seg_size_def d2_def d3_def seg_mark_def)
  have d2: "dgram_ok d2" "\<not> mBuffering d2" "\<not> mAbort d2"
    using bok(2) bf by (simp_all add: d2_def dgram_ok_def packet_bytes_def)
  then show "\<not> mBuffering d2 \<and> \<not> mAbort d2" "dgram_ok d3" "mBuffering d3" "mReleaseAfterBuffering d3"
    using dgram_ok_sync [of d2] by (simp_all add: d3_def seg_simps d2_def)
  show "mRetry d + 1 = 1" using bf by simp
qed

lemma send_reset:
  assumes inv: "sess_inv Other s" and d: "buildPackage (RST OR ACK) [] s = Some d"
  defines "r \<equiv> next_ref s"
  shows "\<exists>s'. sendBackSegment r (store r (d\<lparr>mReleaseAfterBuffering := True\<rparr>) (s\<lparr>next_ref := next_ref s + 1\<rparr>)) = Some (40, s')
    \<and> back_step Other s s' \<and> sess_inv Other s'"
proof -
  define d1 where "d1 = d\<lparr>mReleaseAfterBuffering := True\<rparr>"
  define d2 where "d2 = d1\<lparr>mRetry := 1\<rparr>"
  define d3 where "d3 = seg_mark (d2\<lparr>mBuffering := True\<rparr>)"
  note R = reset_dgram [OF d, folded d1_def, folded d2_def, folded d3_def]
  define s3 where "s3 = store r d1 (s\<lparr>next_ref := next_ref s + 1\<rparr>)"
  define s4 where "s4 = store r d3 (store r d2 s3)\<lparr>tunData := bq_push r (tunData s3), tunWrite := True\<rparr>"
  define s5 where "s5 = emit (CONN_TRAFFIC_BACK (mSeq d3) (mAck d3) (mLength d3)) s4"
  have own: "own_inv (Other \<union> set (mBackQueue s)) s" using inv by (simp add: sess_inv_def)
  have "onSyncEvent r (store r d2 s3) = Some (0, s4)"
    using R(1,3) by (simp add: onSyncEvent_def s4_def d3_def)
  moreover have "store r (d1\<lparr>mRetry := mRetry d1 + 1\<rparr>) s3 = store r d2 s3" using R(4) by (simp add: d2_def d1_def)
  moreover have "seg_size d1 = 40" using R(1) by (simp add: d2_def seg_size_def)
  ultimately have send: "sendBackSegment r s3 = Some (40, s5)"
    using R(2) by (simp add: sendBackSegment_def s5_def s4_def s3_def)
  have h4: "heap s4 = (heap s)(r \<mapsto> d3)" "tunData s4 = tunData s @ [r]" "next_ref s4 = next_ref s + 1"
      "mBackQueue s4 = mBackQueue s" "mIPVer s4 = mIPVer s" "mForwardQueue s4 = mForwardQueue s"
      "mBackQueueDataSize s4 = mBackQueueDataSize s" "rx s4 = rx s" "mWindowScale s4 = mWindowScale s"
    by (simp_all add: s4_def s3_def store_def bq_push_def rx_def)
  note fresh = own_inv_enqueue_fresh [OF own R(5-7) h4(1-3) [unfolded r_def]]
  have "sum_list (map (cap_of s4) (mBackQueue s)) = sum_list (map (cap_of s) (mBackQueue s))"
    using fresh(2) by (intro arg_cong [where f = sum_list] map_cong refl) (auto simp: cap_of_def h4 r_def)
  then have inv4: "sess_inv Other s4" using inv fresh(1) by (simp add: sess_inv_def h4)
  have "same_view Other s s4" using fresh(2) by (auto simp: same_view_def h4 r_def)
  then have "back_step Other s s4" using inv4 by (simp add: back_step_def h4)
  moreover have "back_step Other s4 s5" using inv4 by (intro back_step_core) (simp_all add: s5_def)
  ultimately have "back_step Other s s5" by (rule back_step_trans)
  then show ?thesis using send unfolding s3_def d1_def by (auto simp: back_step_def)
qed

lemma resetConnection_step:
  assumes inv: "sess_inv Other s"
  shows "\<exists>s'. resetConnection s = Some (1, s') \<and> back_step Other s s' \<and> mState s' = CLOSED"
proof -
  obtain s1 where s1: "updateWindowSize s = Some s1" by (rule updateWindowSize_step [OF inv])
  define s2 where "s2 = s1\<lparr>mLocalSeq := mLocalNext s1\<rparr>"
  have "sess_core s2 = sess_core s" "rx s2 = rx s"
    using updateWindowSize_core [OF s1] by (simp_all add: s2_def sess_core_def rx_def)
  with inv have st2: "back_step Other s s2" by (intro back_step_core)
  then have inv2: "sess_inv Other s2" by (simp add: back_step_def)
  then have "mIPVer s2 = 4" by (simp add: sess_inv_def)
  then obtain d where d: "buildPackage (RST OR ACK) [] s2 = Some d" using buildPackage_Some by blast
  obtain s5 where s5: "sendBackSegment (next_ref s2) (store (next_ref s2) (d\<lparr>mReleaseAfterBuffering := True\<rparr>)
        (s2\<lparr>next_ref := next_ref s2 + 1\<rparr>)) = Some (40, s5)" "back_step Other s2 s5" "sess_inv Other s5"
    using send_reset [OF inv2 d] by blast
  have "next_ref s1 = next_ref s2" by (simp add: s2_def)
  then have reset: "resetConnection s = Some (1, switchState CLOSED s5)"
    using d s5(1) by (simp add: resetConnection_def s1 Let_def s2_def [symmetric] alloc_def)
  have "back_step Other s5 (switchState CLOSED s5)" using s5(3) by (intro back_step_core) simp_all
  then have "back_step Other s (switchState CLOSED s5)" using back_step_trans st2 s5(2) by blast
  with reset show ?thesis
    by (intro exI [of _ "switchState CLOSED s5"]) (simp, simp add: switchState_def Let_def close_def emit_def)
qed

lemma send_loop_step:
  "sess_inv Other s \<Longrightarrow> set its \<subseteq> set (mBackQueue s) \<Longrightarrow>
   \<exists>n s'. send_loop its lim w sent packet s = Some (n, s') \<and> back_step Other s s'"
proof (induction its arbitrary: w sent packet s)
  case Nil
  then show ?case by (simp add: back_step_refl)
next
  case (Cons r its)
  note inv = Cons.prems(1)
  have r: "r \<in> set (mBackQueue s)" and its: "set its \<subseteq> set (mBackQueue s)" using Cons.prems(2) by auto
  have own: "own_inv (Other \<union> set (mBackQueue s)) s" using inv by (simp add: sess_inv_def)
  obtain d where d: "heap s r = Some d" using own_inv_deref [OF own, of r] r by auto
  obtain s1 where s1: "resetConnection s = Some (1, s1)" "back_step Other s s1"
    using resetConnection_step [OF inv] by blast
  obtain n s2 where s2: "sendBackSegment r s = Some (n, s2)" "back_step Other s s2"
      "mBackQueue s2 = mBackQueue s"
    using sendBackSegment_step [OF inv r] by blast
  have rec: "\<exists>k s'. send_loop its lim w' sent' packet' s2 = Some (k, s') \<and> back_step Other s s'"
    for w' sent' packet'
    using Cons.IH [OF back_stepD [OF s2(2)], of w' sent' packet'] its s2(3) back_step_trans [OF s2(2)]
    by fastforce
  have skip: "\<exists>k s'. send_loop its lim w' sent packet' s = Some (k, s') \<and> back_step Other s s'"
    for w' packet'
    using Cons.IH [OF inv its] .
  show ?case
    using d s1 s2 rec skip inv by (simp add: Let_def back_step_refl)
qed

lemma send_window_step:
  assumes "sess_inv Other s"
  shows "\<exists>n s'. send_window s = Some (n, s') \<and> back_step Other s s'"
proof -
  define lim where "lim = (if mSendWindow s > TCP_MAX_SEND_WINDOW then TCP_MAX_SEND_WINDOW else mSendWindow s)"
  obtain r s1 where s1: "send_loop (mBackQueue s) lim 0 0 0 s = Some (r, s1)" "back_step Other s s1"
    using send_loop_step [OF assms] by blast
  have "back_step Other s (emit T_resumeReceiveData s1)"
    using back_step_trans [OF s1(2)] back_stepD [OF s1(2)] by (simp add: back_step_core)
  then show ?thesis using s1
    by (cases r) (auto simp: send_window_def lim_def [symmetric] Let_def)
qed

lemma flushBackQueue_step:
  "sess_inv Other s \<Longrightarrow> \<exists>n s'. flushBackQueue s = Some (n, s') \<and> back_step Other s s'"
proof (induction s rule: flushBackQueue.induct)
  case (1 s)
  obtain s1 where s1: "pop_acked s = Some s1" "back_step Other s s1"
    using pop_acked_step [OF 1(2)] by blast
  show ?case
  proof (cases "fin_due s1")
    case False
    then show ?thesis
      using s1 send_window_step [OF back_stepD [OF s1(2)]] back_step_trans [OF s1(2)]
      by (subst flushBackQueue.simps) fastforce
  next
    case True
    have "length ([] :: bytes) \<le> 65535" by simp
    from push_segment_step [OF back_stepD [OF s1(2)] this, of "FIN OR ACK"] obtain ok s2 where
      push: "push_segment (FIN OR ACK) [] s1 = Some (ok, s2)" and s2: "back_step Other s1 s2" by blast
    show ?thesis
    proof (cases ok)
      case False
      then show ?thesis using s1 True push back_step_trans [OF s1(2) s2]
        by (subst flushBackQueue.simps) simp
    next
      case ok: True
      obtain n s3 where s3: "flushBackQueue s2 = Some (n, s3)" "back_step Other s2 s3"
        using 1(1) [OF s1(1) True push refl ok back_stepD [OF s2]] by blast
      have "back_step Other s3 (switchState st s3)" for st
        using back_stepD [OF s3(2)] by (intro back_step_core) simp_all
      then have "back_step Other s (switchState st s3)" for st
        using back_step_trans s1(2) s2 s3(2) by blast
      then show ?thesis using s1 True push ok s3
        by (subst flushBackQueue.simps) simp
    qed
  qed
qed

lemma pushInBackQueue_step:
  assumes inv: "sess_inv Other s" and len: "length data \<le> 65535"
  shows "\<exists>n s'. pushInBackQueue flag data s = Some (n, s') \<and> back_step Other s s'
     \<and> (n = (if mLocalNext s \<le> mLocalSeq s then int (length data) else -1))"
proof -
  obtain ok s1 where push: "push_segment flag data s = Some (ok, s1)"
    and s1: "back_step Other s s1" "ok \<longleftrightarrow> mLocalNext s \<le> mLocalSeq s"
    by (rule push_segment_step [OF inv len])
  obtain n s2 where s2: "flushBackQueue s1 = Some (n, s2)" "back_step Other s1 s2"
    using flushBackQueue_step [OF back_stepD [OF s1(1)]] by blast
  then show ?thesis using push s1 back_step_trans [OF s1(1) s2(2)]
    by (cases ok) (auto simp: pushInBackQueue_def)
qed

section \<open>The handlers\<close>

text \<open>
  When the handler of a packet has no defined outcome. A first SYN is searched for three options, and its window scale may be too
  large for the shift. Later packets are searched for one option, if the session has selective acknowledgements.
  (An option of length 0 makes a search run for ever, see \<open>getOptionAddr_hangs\<close>.)
\<close>

definition scale_ok :: "packet \<Rightarrow> bool" where
  "scale_ok ip \<longleftrightarrow>
     (case getOptionAddr ip (getHeaderLen ip) OPT_WS of Some (Some p) \<Rightarrow> ip (p + 2) \<le> max_scale | _ \<Rightarrow> True)"

definition syn_bad :: "packet \<Rightarrow> bool" where
  "syn_bad ip \<longleftrightarrow> getOptionAddr ip (getHeaderLen ip) OPT_SACKF = None \<or> getOptionAddr ip (getHeaderLen ip) OPT_MSS = None
     \<or> getOptionAddr ip (getHeaderLen ip) OPT_WS = None \<or> \<not> scale_ok ip"

definition sack_bad :: "packet \<Rightarrow> session \<Rightarrow> bool" where
  "sack_bad ip s \<longleftrightarrow> mState s = ESTABLISHED \<and> mSack s \<and> getOptionAddr ip (getHeaderLen ip) OPT_SACK = None"

definition accept_bad :: "packet \<Rightarrow> session \<Rightarrow> bool" where
  "accept_bad ip s \<longleftrightarrow>
     (if tcp_flags ip AND SYN \<noteq> 0 then mState s = LISTEN \<and> syn_bad ip
      else tcp_flags ip AND FIN = 0 \<and> tcp_flags ip AND RST = 0 \<and> mLocalNext s \<le> rel_ack ip s \<and> sack_bad ip s)"

text \<open>A packet whose length field covers its headers and in which every search for an option returns.\<close>

definition packet_ok :: "packet \<Rightarrow> bool" where
  "packet_ok ip \<longleftrightarrow> 0 \<le> getPayloadLen ip \<and> getOptionAddr ip (getHeaderLen ip) OPT_SACKF \<noteq> None
     \<and> getOptionAddr ip (getHeaderLen ip) OPT_MSS \<noteq> None
     \<and> getOptionAddr ip (getHeaderLen ip) OPT_WS \<noteq> None
     \<and> getOptionAddr ip (getHeaderLen ip) OPT_SACK \<noteq> None"

lemma packet_ok_fine: "packet_ok ip \<Longrightarrow> scale_ok ip \<Longrightarrow> \<not> accept_bad ip s"
  by (simp add: packet_ok_def accept_bad_def syn_bad_def sack_bad_def)

definition safe_step :: "ref set \<Rightarrow> session \<Rightarrow> session \<Rightarrow> bool" where
  "safe_step Other s s' \<longleftrightarrow> sess_inv Other s' \<and> same_view Other s s'"

lemma safe_step_trans [trans]:
  "safe_step Other s1 s2 \<Longrightarrow> safe_step Other s2 s3 \<Longrightarrow> safe_step Other s1 s3"
  unfolding safe_step_def using same_view_trans by blast

lemma safe_stepD: "safe_step Other s s' \<Longrightarrow> sess_inv Other s'"
  by (simp add: safe_step_def)

lemma back_safe: "back_step Other s s' \<Longrightarrow> safe_step Other s s'"
  by (simp add: back_step_def safe_step_def)

lemma safe_core: "sess_inv Other s \<Longrightarrow> sess_core s' = sess_core s \<Longrightarrow> safe_step Other s s'"
  unfolding safe_step_def using sess_inv_core [of s' s Other] by (auto simp: sess_core_def same_view_def)

lemma safe_after:
  assumes "safe_step Other s s1" "\<exists>s2. m = Some s2 \<and> safe_step Other s1 s2"
  shows "\<exists>s2. m = Some s2 \<and> safe_step Other s s2"
  using assms safe_step_trans by blast

lemma push_safe:
  "sess_inv Other s \<Longrightarrow> length data \<le> 65535 \<Longrightarrow>
   \<exists>n s'. pushInBackQueue flag data s = Some (n, s') \<and> safe_step Other s s'"
  using pushInBackQueue_step back_safe by blast

lemma flush_safe:
  "sess_inv Other s \<Longrightarrow> \<exists>n s'. flushBackQueue s = Some (n, s') \<and> safe_step Other s s'"
  using flushBackQueue_step back_safe by blast

lemma segment_more_fields:
  fixes d e :: datagram
  assumes "segment.more d = segment.more e"
  shows "mSeq d = mSeq e" "mFlag d = mFlag e" "mLength d = mLength e"
  using assms by (cases d, cases e, simp)+

text \<open>The datagram made for a payload of the packet.\<close>

lemma payload_len:
  assumes "0 \<le> getPayloadLen ip"
  shows "unat (word_of_int (getPayloadLen ip) :: size_t) = nat (getPayloadLen ip)"
    and "nat (getPayloadLen ip) + getPayloadOffset ip \<le> 65535"
proof -
  have "unat (getTTLEN ip) < 65536" using unsigned_less [of "getTTLEN ip"] by simp
  then show le: "nat (getPayloadLen ip) + getPayloadOffset ip \<le> 65535"
    using assms unfolding getPayloadLen_def by linarith
  then have "unat (word_of_nat (nat (getPayloadLen ip)) :: size_t) = nat (getPayloadLen ip)"
    by (intro unat_word_of_nat) simp
  then show "unat (word_of_int (getPayloadLen ip) :: size_t) = nat (getPayloadLen ip)"
    using assms by (metis int_nat_eq of_int_of_nat_eq)
qed

lemma enqueue_datagram:
  assumes len: "0 < getPayloadLen ip" and l: "l = word_of_int (getPayloadLen ip)"
  shows "\<exists>d1. seg_write (payload_bytes ip l) l ((datagram_new l)\<lparr>mSeq := q, mFlag := f, mChecksum := c, mLength := n\<rparr>)
       = Some (l, d1) \<and> seg_inv d1 \<and> mData d1 \<noteq> None
     \<and> seg_bytes d1 = ip_payload ip (nat (getPayloadLen ip)) \<and> mSeq d1 = q \<and> mFlag d1 = f
     \<and> seg_size d1 = l"
proof -
  define d where "d = (datagram_new l)\<lparr>mSeq := q, mFlag := f, mChecksum := c, mLength := n\<rparr>"
  have ul: "unat l = nat (getPayloadLen ip)" and le: "nat (getPayloadLen ip) + getPayloadOffset ip \<le> 65535"
    using payload_len [of ip] len l by simp_all
  have src: "payload_bytes ip l = ip_payload ip (nat (getPayloadLen ip))" "length (payload_bytes ip l) = unat l"
    using le by (simp_all add: payload_bytes_def ul ip_payload_def min_absorb1)
  have range: "\<not> l < 1" "\<not> seg_max < l"
    using ul le len by (simp_all add: word_less_nat_alt)
  then have f: "mData d = Some (replicate (unat l) 0)" "mSize d = l" "mPos d = 0" "mLimit d = 0"
      "mMarkPos d = 0" "mMarkLimit d = 0"
    by (simp_all add: d_def segment_new_def)
  have inv: "seg_inv d" unfolding seg_inv_nat f using ul le by simp
  have rem: "seg_remain d = l" "seg_bytes d = []" by (simp_all add: seg_remain_def f seg_bytes_def)
  have sm: "unat l < 2 ^ 31" using ul le by simp
  obtain d1 where d1: "seg_write (payload_bytes ip l) l d = Some (l, d1)" "seg_inv d1"
      "seg_bytes d1 = payload_bytes ip l" "mSize d1 = l" "segment.more d1 = segment.more d"
    using seg_write_cases [OF inv _ sm, of "payload_bytes ip l"] src rem f by auto
  have "mData d1 \<noteq> None"
    using d1(2,4) range by (auto simp: seg_inv_def split: option.splits)
  moreover have "seg_size d1 = l"
    using seg_size_bytes [OF d1(2)] d1(3) src(2) by (simp add: word_unat_eq_iff)
  ultimately show ?thesis
    using d1 src(1) segment_more_fields [OF d1(5)] by (intro exI [of _ d1]) (simp add: d_def)
qed

lemma enqueueIfNeed_safe:
  assumes inv: "sess_inv Other s" and ip: "0 \<le> getPayloadLen ip"
  shows "\<exists>l s'. enqueueIfNeed ip s = Some (l, s') \<and> safe_step Other s s'"
proof -
  define l where "l = (word_of_int (getPayloadLen ip) :: size_t)"
  have ul: "unat l = nat (getPayloadLen ip)" using payload_len(1) [OF ip] by (simp add: l_def)
  obtain n s1 where s1: "pushInBackQueue ACK [] s = Some (n, s1)" "safe_step Other s s1"
    using push_safe [OF inv, of "[]" ACK] by auto
  show ?thesis
  proof (cases "l = 0 \<or> compare_u32 (rel_seq ip s) (mRemoteNext s) < 0")
    case True
    then show ?thesis using inv s1
      by (auto simp: enqueueIfNeed_def l_def [symmetric] Let_def safe_core)
  next
    case False
    then have pos: "0 < getPayloadLen ip" using ul ip unat_eq_0 [of l] by linarith
    define d where "d = (datagram_new l)\<lparr>mSeq := rel_seq ip s, mFlag := tcp_flags ip,
                       mChecksum := tcp_checksum ip, mLength := ucast l\<rparr>"
    define itr where "itr = findNotSmaller d datagram_compare (mForwardQueue s)"
    obtain d1 where d1: "seg_write (payload_bytes ip l) l d = Some (l, d1)" "seg_inv d1" "mData d1 \<noteq> None"
      using enqueue_datagram [OF pos l_def] unfolding d_def by blast
    have "unat l \<le> 65535" using payload_len(2) [OF ip] ul by simp
    then have del: "seg_delete_ok d"
      using False by (simp add: seg_delete_ok_def d_def segment_new_def word_less_nat_alt unat_eq_0)
    define s2 where "s2 = s\<lparr>mForwardQueue := bq_insert itr d1 (mForwardQueue s),
                            mForwardQueueDataSize := mForwardQueueDataSize s + seg_size d1\<rparr>"
    have mem: "set (bq_insert itr d1 (mForwardQueue s)) = insert d1 (set (mForwardQueue s))"
      by (simp add: bq_insert_def) (metis append_take_drop_id set_append Un_commute)
    have "cap_of s2 = cap_of s" by (rule ext) (simp add: cap_of_def s2_def)
    moreover have "own_inv B s2 = own_inv B s" for B by (rule own_inv_frame) (simp_all add: s2_def)
    ultimately have "sess_inv Other s2"
      using inv d1(2,3) by (simp add: sess_inv_def) (simp add: s2_def mem)
    then have st: "safe_step Other s s2" by (simp add: safe_step_def same_view_def) (simp add: s2_def)
    have "safe_step Other s (emit T_requestSendData s2)"
      using safe_step_trans [OF st] safe_core [OF safe_stepD [OF st]] by simp
    then show ?thesis using False del d1(1) st inv
      by (simp add: enqueueIfNeed_def l_def [symmetric] d_def [symmetric] itr_def [symmetric]
          s2_def [symmetric] Let_def safe_core)
  qed
qed

text \<open>The address the option search returns is that of the option's kind byte.\<close>

lemma option_loop_at: "option_loop m k n p = Some (Some q) \<Longrightarrow> m q = k"
proof -
  assume a: "option_loop m k n p = Some (Some q)"
  have "y = Some q \<longrightarrow> m q = k" if "option_loop m k n p = Some y" for m k n p y
    by (rule option_loop.raw_induct [where P = "\<lambda>m k n p y. y = Some q \<longrightarrow> m q = k", OF _ that])
      (auto split: if_splits)
  with a show ?thesis by blast
qed

lemma getOptionAddr_at: "getOptionAddr m t k = Some (Some q) \<Longrightarrow> m q = k"
  by (auto simp: getOptionAddr_def dest: option_loop_at)

text \<open>So the byte \<^verbatim>\<open>onSack\<close> takes for a block length is always the kind 5, and it returns at once.\<close>

lemma onSack_nothing: "getOptionAddr ip t OPT_SACK = Some (Some p) \<Longrightarrow> onSack ip p s = Some s"
  using getOptionAddr_at [of ip t OPT_SACK p] by (simp add: onSack_def OPT_SACK_def)

lemma pushInBackQueue_undefined:
  assumes "mWindowScale s > max_scale" "mLocalNext s \<le> mLocalSeq s"
  shows "pushInBackQueue flag data s = None"
  using assms updateWindowSize_iff [of s] by (simp add: pushInBackQueue_def push_segment_def)

lemma onReceiveSYN_safe:
  assumes inv: "sess_inv Other s"
  shows "if mState s = LISTEN \<and> syn_bad ip then onReceiveSYN ip rnd s = None
    else (\<exists>n s'. onReceiveSYN ip rnd s = Some (n, s') \<and> safe_step Other s s')"
proof (cases "mState s = LISTEN")
  case False
  then show ?thesis using flush_safe [OF inv] by (auto simp: onReceiveSYN_def)
next
  case L: True
  define t where "t = getHeaderLen ip"
  show ?thesis
  proof (cases "getOptionAddr ip t OPT_SACKF = None \<or> getOptionAddr ip t OPT_MSS = None \<or> getOptionAddr ip t OPT_WS = None")
    case True
    then have "onReceiveSYN ip rnd s = None"
      using L by (cases "getOptionAddr ip t OPT_SACKF"; cases "getOptionAddr ip t OPT_MSS") (auto simp: onReceiveSYN_def t_def)
    moreover have "syn_bad ip" using True by (auto simp: syn_bad_def t_def)
    ultimately show ?thesis using L by simp
  next
    case False
    then obtain a b c where opts: "getOptionAddr ip t OPT_SACKF = Some a" "getOptionAddr ip t OPT_MSS = Some b"
        "getOptionAddr ip t OPT_WS = Some c" by auto
    define s1 where "s1 = (if a \<noteq> None then s\<lparr>mSack := True\<rparr> else s)"
    define s2 where "s2 = (case b of None \<Rightarrow> s1 | Some p \<Rightarrow> s1\<lparr>mMSS := ld16 ip (p + 2)\<rparr>)"
    define s3 where "s3 = (case c of None \<Rightarrow> s2 | Some p \<Rightarrow> s2\<lparr>mWindowScale := ip (p + 2)\<rparr>)"
    define s4 where "s4 w = s3\<lparr>mSendWindow := w, mRemoteSeqBase := tcp_seq ip, mLocalSeqBase := rnd,
                      mLocalSeq := 0, mLocalNext := 0, mRemoteNext := 1\<rparr>" for w
    have run: "onReceiveSYN ip rnd s = (do { w \<leftarrow> shl32 (ucast (tcp_window ip)) (mWindowScale s3);
        (n, s5) \<leftarrow> pushInBackQueue (SYN OR ACK) [] (s4 w);
        if n < 0 then Some (1, s5) else Some (0, switchState SYN_RCVED s5) })"
      using L opts unfolding onReceiveSYN_def Let_def s4_def s3_def s2_def s1_def t_def by simp
    have scale: "mWindowScale s3 \<le> max_scale \<longleftrightarrow> scale_ok ip"
      using inv opts by (auto simp: scale_ok_def s3_def s2_def s1_def t_def sess_inv_def split: option.splits)
    show ?thesis
    proof (cases "scale_ok ip")
      case bad: False
      then have "pushInBackQueue (SYN OR ACK) [] (s4 w) = None" for w
        using scale by (intro pushInBackQueue_undefined) (simp_all add: s4_def not_le)
      then have "onReceiveSYN ip rnd s = None"
        unfolding run by (cases "shl32 (ucast (tcp_window ip)) (mWindowScale s3)") simp_all
      then show ?thesis using L bad by (simp add: syn_bad_def)
    next
      case ok: True
      then have sc: "mWindowScale s3 \<le> 16" using scale by (simp add: max_scale_def)
      then obtain w where w: "shl32 (ucast (tcp_window ip)) (mWindowScale s3) = Some w"
        by (simp add: shl32_def word_le_nat_alt word_less_nat_alt)
      have core: "(heap s3, tunData s3, next_ref s3, mBackQueue s3, mBackQueueDataSize s3, mIPVer s3, mForwardQueue s3)
          = (heap s, tunData s, next_ref s, mBackQueue s, mBackQueueDataSize s, mIPVer s, mForwardQueue s)"
        by (simp add: s3_def s2_def s1_def split: option.splits)
      have "cap_of (s\<lparr>mWindowScale := mWindowScale s3\<rparr>) = cap_of s" by (rule ext) (simp add: cap_of_def)
      then have "safe_step Other s (s\<lparr>mWindowScale := mWindowScale s3\<rparr>)"
        using inv sc by (simp add: safe_step_def sess_inv_def same_view_def own_inv_def max_scale_def)
      moreover have "safe_step Other (s\<lparr>mWindowScale := mWindowScale s3\<rparr>) (s4 w)"
        by (rule safe_core [OF safe_stepD [OF calculation]]) (use core in \<open>simp add: sess_core_def s4_def\<close>)
      ultimately have st: "safe_step Other s (s4 w)" by (rule safe_step_trans)
      obtain n s5 where s5: "pushInBackQueue (SYN OR ACK) [] (s4 w) = Some (n, s5)" "safe_step Other (s4 w) s5"
        using push_safe [OF safe_stepD [OF st], of "[]" "SYN OR ACK"] by auto
      have "safe_step Other s5 (switchState SYN_RCVED s5)"
        using safe_stepD [OF s5(2)] by (rule safe_core) simp
      then have "safe_step Other s s5" "safe_step Other s (switchState SYN_RCVED s5)"
        using safe_step_trans st s5(2) by blast+
      then show ?thesis using s5(1) w False ok by (simp add: run syn_bad_def t_def)
    qed
  qed
qed

lemma onReceiveFIN_safe:
  assumes inv: "sess_inv Other s"
  shows "\<exists>s'. onReceiveFIN ip s = Some s' \<and> safe_step Other s s'"
proof -
  define s1 where "s1 = (if mLocalNext s \<le> rel_ack ip s then s\<lparr>mLocalNext := rel_ack ip s\<rparr> else s)"
  define s2 where "s2 = s1\<lparr>mRemoteNext := rel_seq ip s + 1\<rparr>"
  have st: "safe_step Other s s2"
    using inv by (intro safe_core) (simp_all add: s2_def s1_def sess_core_def)
  obtain n s3 where s3: "pushInBackQueue ACK [] s2 = Some (n, s3)" "safe_step Other s2 s3"
    using push_safe [OF safe_stepD [OF st], of "[]" ACK] by auto
  have a: "safe_step Other s s3" using safe_step_trans [OF st s3(2)] .
  have "safe_step Other s (switchState q s3)" for q
    using safe_step_trans [OF a] safe_core [OF safe_stepD [OF a]] by simp
  then show ?thesis using a s3(1)
    by (simp add: onReceiveFIN_def Let_def s1_def [symmetric] s2_def [symmetric])
qed

lemma accept_established_undefined:
  "mSack s \<Longrightarrow> getOptionAddr ip (getHeaderLen ip) OPT_SACK = None \<Longrightarrow> accept_established ip s = None"
  by (simp add: accept_established_def)

lemma accept_established_safe:
  assumes inv: "sess_inv Other s" and len: "0 \<le> getPayloadLen ip"
    and ip: "mSack s \<Longrightarrow> getOptionAddr ip (getHeaderLen ip) OPT_SACK \<noteq> None"
  shows "\<exists>b s'. accept_established ip s = Some (b, s') \<and> safe_step Other s s'"
proof -
  have first: "(if mSack s
                then do { sack \<leftarrow> getOptionAddr ip (getHeaderLen ip) OPT_SACK;
                          (case sack of None \<Rightarrow> Some s | Some p \<Rightarrow> onSack ip p s) }
                else Some s) = Some s"
    using ip onSack_nothing by (auto split: option.splits)
  obtain l s2 where s2: "enqueueIfNeed ip s = Some (l, s2)" "safe_step Other s s2"
    using enqueueIfNeed_safe [OF inv len] by blast
  define s3 where "s3 = s2\<lparr>mRemoteNext := mRemoteNext s2 + l\<rparr>"
  have st3: "safe_step Other s2 s3"
    using safe_stepD [OF s2(2)] by (rule safe_core) (simp add: s3_def sess_core_def)
  obtain n s4 where s4: "pushInBackQueue ACK [] s3 = Some (n, s4)" "safe_step Other s3 s4"
    using push_safe [OF safe_stepD [OF st3], of "[]" ACK] by auto
  have "safe_step Other s s4" using safe_step_trans s2(2) st3 s4(2) by blast
  then show ?thesis
    using s2 s4(1) unfolding accept_established_def first
    by (cases "sint l > 0") (auto simp: s3_def [symmetric])
qed

text \<open>The shift of the window, whose scale the SYN has set.\<close>

lemma shl32_scale: "sess_inv Other s \<Longrightarrow> \<exists>w. shl32 x (mWindowScale s) = Some w"
  by (simp add: sess_inv_def shl32_def max_scale_def word_le_nat_alt word_less_nat_alt)

text \<open>What \<open>accept_segment\<close> does between the update of \<^verbatim>\<open>mLocalNext\<close> and the flush.\<close>

definition segment_mid :: "packet \<Rightarrow> session \<Rightarrow> (bool \<times> session) option" where
  "segment_mid ip s =
     (if mState s = SYN_RCVED
      then do { (l, s3) \<leftarrow> enqueueIfNeed ip (switchState ESTABLISHED s);
                Some (False, s3\<lparr>mRemoteNext := mRemoteNext s3 + l\<rparr>) }
      else if mState s = FIN_WAIT1 then Some (False, switchState FIN_WAIT2 s)
      else if mState s = LAST_ACK then Some (False, switchState CLOSED s)
      else if mState s = CLOSING then Some (False, switchState TIME_WAIT s)
      else if mState s = ESTABLISHED then accept_established ip s
      else Some (False, s))"

lemma accept_segment_mid:
  assumes "shl32 (ucast (tcp_window ip)) (mWindowScale s) = Some w"
  shows "accept_segment ip ack s =
     (let s1 = s\<lparr>mSendWindow := w\<rparr>
      in if mLocalNext s \<le> ack
         then do { (flushed, s3) \<leftarrow> segment_mid ip (s1\<lparr>mLocalNext := ack\<rparr>);
                   if flushed then Some s3 else do { (n, s4) \<leftarrow> flushBackQueue s3; Some s4 } }
         else Some (if ack + 1 = mLocalNext s then emit T_keepAlive s1 else s1))"
  unfolding accept_segment_def segment_mid_def assms Let_def by simp

lemma segment_mid_safe:
  assumes inv: "sess_inv Other s" and len: "0 \<le> getPayloadLen ip" and ok: "\<not> sack_bad ip s"
  shows "\<exists>f s'. segment_mid ip s = Some (f, s') \<and> safe_step Other s s'"
proof -
  have sw: "safe_step Other s (switchState q s)" for q using inv by (rule safe_core) simp
  obtain l s3 where enq: "enqueueIfNeed ip (switchState ESTABLISHED s) = Some (l, s3)"
      "safe_step Other (switchState ESTABLISHED s) s3"
    using enqueueIfNeed_safe [OF safe_stepD [OF sw] len] by blast
  have enq3: "safe_step Other s (s3\<lparr>mRemoteNext := mRemoteNext s3 + l\<rparr>)"
  proof -
    have "safe_step Other s3 (s3\<lparr>mRemoteNext := mRemoteNext s3 + l\<rparr>)"
      using safe_stepD [OF enq(2)] by (rule safe_core) (simp add: sess_core_def)
    then show ?thesis using safe_step_trans sw enq(2) by blast
  qed
  have est: "\<exists>b s'. accept_established ip s = Some (b, s') \<and> safe_step Other s s'" if "mState s = ESTABLISHED"
    using ok that by (intro accept_established_safe [OF inv len]) (simp add: sack_bad_def)
  show ?thesis
    using enq3 est sw safe_core [OF inv refl]
    by (cases "mState s") (auto simp: segment_mid_def enq(1))
qed

lemma accept_segment_safe:
  assumes inv: "sess_inv Other s" and len: "0 \<le> getPayloadLen ip"
  shows "if mLocalNext s \<le> ack \<and> sack_bad ip s then accept_segment ip ack s = None
    else (\<exists>s'. accept_segment ip ack s = Some s' \<and> safe_step Other s s')"
proof -
  obtain w where w: "shl32 (ucast (tcp_window ip)) (mWindowScale s) = Some w" using shl32_scale [OF inv] by blast
  define s1 where "s1 = s\<lparr>mSendWindow := w\<rparr>"
  define s2 where "s2 = s1\<lparr>mLocalNext := ack\<rparr>"
  have st1: "safe_step Other s s1" and st2: "safe_step Other s s2"
    using inv by (intro safe_core; simp add: s2_def s1_def sess_core_def)+
  have bad: "sack_bad ip s2 = sack_bad ip s" by (simp add: sack_bad_def s2_def s1_def)
  have run: "accept_segment ip ack s =
     (if mLocalNext s \<le> ack
      then do { (flushed, s3) \<leftarrow> segment_mid ip s2;
                if flushed then Some s3 else do { (n, s4) \<leftarrow> flushBackQueue s3; Some s4 } }
      else Some (if ack + 1 = mLocalNext s then emit T_keepAlive s1 else s1))"
    unfolding accept_segment_mid [OF w] s2_def s1_def Let_def ..
  consider "\<not> mLocalNext s \<le> ack" | "mLocalNext s \<le> ack" "sack_bad ip s" | "mLocalNext s \<le> ack" "\<not> sack_bad ip s" by blast
  then show ?thesis
  proof cases
    case 1
    have "safe_step Other s (emit T_keepAlive s1)"
      using inv by (intro safe_core) (simp_all add: s1_def sess_core_def emit_def)
    then show ?thesis using 1 st1 by (simp add: run)
  next
    case 2
    then have "segment_mid ip s2 = None"
      using accept_established_undefined [of s2 ip] bad by (simp add: segment_mid_def sack_bad_def)
    then show ?thesis using 2 by (simp add: run)
  next
    case 3
    then obtain f s5 where mid: "segment_mid ip s2 = Some (f, s5)" "safe_step Other s2 s5"
      using segment_mid_safe [OF safe_stepD [OF st2] len] bad by blast
    have st5: "safe_step Other s s5" using safe_step_trans [OF st2 mid(2)] .
    obtain n s6 where s6: "flushBackQueue s5 = Some (n, s6)" "safe_step Other s5 s6"
      using flush_safe [OF safe_stepD [OF st5]] by blast
    then show ?thesis using 3 mid(1) st5 safe_step_trans [OF st5 s6(2)] by (simp add: run)
  qed
qed

lemma onRemoteFinished_safe:
  assumes inv: "sess_inv Other s"
  shows "\<exists>s'. onRemoteFinished s = Some s' \<and> safe_step Other s s'"
proof -
  have st: "safe_step Other s (s\<lparr>mRemoteFinished := True\<rparr>)"
    using inv by (rule safe_core) (simp add: sess_core_def)
  then show ?thesis
    using flush_safe [OF safe_stepD [OF st]] safe_step_trans [OF st] by (fastforce simp: onRemoteFinished_def)
qed

lemma onTunnelDisconnected_safe:
  assumes inv: "sess_inv Other s"
  shows "\<exists>s'. onTunnelDisconnected s = Some s' \<and> safe_step Other s s'"
proof -
  have "safe_step Other s (switchState CLOSED s)" using inv by (rule safe_core) simp
  moreover obtain s1 where "resetConnection s = Some (1, s1)" "back_step Other s s1"
    using resetConnection_step [OF inv] by blast
  ultimately show ?thesis
    using onRemoteFinished_safe [OF inv] back_safe by (auto simp: onTunnelDisconnected_def)
qed

lemma relay_loop_safe:
  "sess_inv Other s \<Longrightarrow> \<exists>k s'. relay_loop data i s = Some (k, s') \<and> safe_step Other s s'"
proof (induction data i s rule: relay_loop.induct)
  case (1 data i s)
  show ?case
  proof (cases "data = []")
    case True
    then show ?thesis using 1(2) safe_core [OF 1(2) refl] by (simp add: relay_loop.simps)
  next
    case False
    define chunk where "chunk = take TCP_IP_PAYLOAD_SIZE data"
    have "length chunk \<le> 65535" by (simp add: chunk_def TCP_IP_PAYLOAD_SIZE_def)
    then obtain n s1 where s1: "pushInBackQueue ACK chunk s = Some (n, s1)" "safe_step Other s s1"
      using push_safe [OF 1(2)] by blast
    show ?thesis
    proof (cases "n < 0")
      case True
      then show ?thesis using False s1
        by (subst relay_loop.simps) (simp add: Let_def chunk_def [symmetric])
    next
      case n: False
      obtain k s2 where "relay_loop (drop TCP_IP_PAYLOAD_SIZE data) (i + word_of_nat (length chunk)) s1 = Some (k, s2)"
          "safe_step Other s1 s2"
        using 1(1) [OF False chunk_def s1(1) refl n safe_stepD [OF s1(2)]] by blast
      then show ?thesis using False n s1 safe_step_trans [OF s1(2)]
        by (subst relay_loop.simps) (simp add: Let_def chunk_def [symmetric])
    qed
  qed
qed

lemma onTunnelDataBack_safe:
  assumes inv: "sess_inv Other s"
  shows "\<exists>s'. onTunnelDataBack data now s = Some s' \<and> safe_step Other s s'"
proof -
  define m where "m = (if data = [] then onRemoteFinished (emit T_pauseReceiveData s)
      else do {
        (i, s1) \<leftarrow> relay_loop data 0 s;
        let s2 = (if i > 0 then emit (CONN_TRAFFIC_RECV i) (s1\<lparr>mTotalRecv := mTotalRecv s1 + i\<rparr>) else s1);
        Some (if mBackQueueDataSize s2 \<ge> TCP_SESSION_BUFFER_SIZE
              then emit T_pauseReceiveData s2 else s2) })"
  have "\<exists>s1. m = Some s1 \<and> safe_step Other s s1"
  proof (cases "data = []")
    case True
    have st: "safe_step Other s (emit T_pauseReceiveData s)" using inv by (rule safe_core) simp
    show ?thesis
      using onRemoteFinished_safe [OF safe_stepD [OF st]] safe_step_trans [OF st] True by (auto simp: m_def)
  next
    case False
    obtain i s1 where s1: "relay_loop data 0 s = Some (i, s1)" "safe_step Other s s1"
      using relay_loop_safe [OF inv] by blast
    define s2 where "s2 = (if i > 0 then emit (CONN_TRAFFIC_RECV i) (s1\<lparr>mTotalRecv := mTotalRecv s1 + i\<rparr>) else s1)"
    define s3 where "s3 = (if mBackQueueDataSize s2 \<ge> TCP_SESSION_BUFFER_SIZE then emit T_pauseReceiveData s2 else s2)"
    have "sess_core s3 = sess_core s1" by (simp add: s3_def s2_def) (simp add: sess_core_def)
    then have "safe_step Other s1 s3" using safe_stepD [OF s1(2)] safe_core by blast
    moreover have "m = Some s3" using False s1(1) by (simp add: m_def Let_def s2_def s3_def)
    ultimately show ?thesis using safe_step_trans [OF s1(2)] by blast
  qed
  then obtain s1 where s1: "m = Some s1" "safe_step Other s s1" by blast
  have "safe_step Other s1 (s1\<lparr>mLastTime := now\<rparr>)"
    using safe_stepD [OF s1(2)] by (rule safe_core) (simp add: sess_core_def)
  then have "safe_step Other s (s1\<lparr>mLastTime := now\<rparr>)" using safe_step_trans [OF s1(2)] by blast
  then show ?thesis using s1(1)
    by (simp add: onTunnelDataBack_def m_def [symmetric])
qed

lemma TCPTunnel_sendData_safe:
  assumes inv: "sess_inv Other s"
  shows "\<exists>n s'. TCPTunnel_sendData k data md s = Some (n, s') \<and> safe_step Other s s'
     \<and> n \<le> int (length data)"
proof -
  have refl: "safe_step Other s s" using inv refl by (rule safe_core)
  have st: "safe_step Other s (emit T_destroyTunnel (s\<lparr>tunAlive := False\<rparr>))"
    using inv by (rule safe_core) (simp add: sess_core_def emit_def)
  obtain s1 where s1: "onTunnelDisconnected (emit T_destroyTunnel (s\<lparr>tunAlive := False\<rparr>)) = Some s1"
      "safe_step Other (emit T_destroyTunnel (s\<lparr>tunAlive := False\<rparr>)) s1"
    using onTunnelDisconnected_safe [OF safe_stepD [OF st]] by blast
  have snd: "safe_step Other s (emit e s)" for e using inv by (rule safe_core) simp
  show ?thesis
    using s1 safe_step_trans [OF st s1(2)] snd refl by (simp add: TCPTunnel_sendData_def Let_def)
qed

lemma sess_inv_forward:
  "sess_inv Other s \<Longrightarrow> \<forall>d \<in> set q. seg_inv d \<and> mData d \<noteq> None \<Longrightarrow> safe_step Other s (s\<lparr>mForwardQueue := q\<rparr>)"
proof -
  assume inv: "sess_inv Other s" and q: "\<forall>d \<in> set q. seg_inv d \<and> mData d \<noteq> None"
  have "cap_of (s\<lparr>mForwardQueue := q\<rparr>) = cap_of s" by (rule ext) (simp add: cap_of_def)
  moreover have "own_inv B (s\<lparr>mForwardQueue := q\<rparr>) = own_inv B s" for B
    by (rule own_inv_frame) simp_all
  ultimately show ?thesis using inv q by (simp add: safe_step_def sess_inv_def same_view_def)
qed

lemma forward_loop_safe:
  "sess_inv Other s \<Longrightarrow> \<exists>k s'. forward_loop ks sent s = Some (k, s') \<and> safe_step Other s s'"
proof (induction ks arbitrary: sent s)
  case Nil
  show ?case
  proof (cases "mForwardQueue s")
    case Nil
    then show ?thesis using \<open>sess_inv Other s\<close> safe_core [of Other s s] by (simp add: forward_loop.simps)
  next
    case (Cons d ds)
    then show ?thesis
      using TCPTunnel_sendData_safe [OF \<open>sess_inv Other s\<close>, of "-1" "seg_bytes d" "\<not> hasFlag d PSH"]
      by (auto simp: forward_loop.simps)
  qed
next
  case (Cons k ks)
  note inv = Cons.prems
  show ?case
  proof (cases "mForwardQueue s")
    case Nil
    then show ?thesis using inv safe_core [of Other s s] by (simp add: forward_loop.simps)
  next
    case q: (Cons d ds)
    have dq: "seg_inv d" "mData d \<noteq> None" "\<forall>e \<in> set ds. seg_inv e \<and> mData e \<noteq> None"
      using inv q by (simp_all add: sess_inv_def)
    obtain n s1 where s1: "TCPTunnel_sendData k (seg_bytes d) (\<not> hasFlag d PSH) s = Some (n, s1)"
        "safe_step Other s s1"
      using TCPTunnel_sendData_safe [OF inv] by blast
    define d1 where "d1 = seg_consume (word_of_int n) d"
    have d1: "seg_inv d1" "mData d1 \<noteq> None" "seg_delete_ok d1"
      using dq by (simp_all add: d1_def seg_consume_inv seg_simps seg_delete_ok_def)
    have go: "\<exists>k s'. forward_loop ks sent' (s1\<lparr>mForwardQueue := q'\<rparr>) = Some (k, s') \<and> safe_step Other s s'"
      if "\<forall>e \<in> set q'. seg_inv e \<and> mData e \<noteq> None" for sent' q'
    proof -
      have st: "safe_step Other s (s1\<lparr>mForwardQueue := q'\<rparr>)"
        using safe_step_trans [OF s1(2) sess_inv_forward [OF safe_stepD [OF s1(2)] that]] .
      then show ?thesis using Cons.IH [OF safe_stepD [OF st]] safe_step_trans by blast
    qed
    show ?thesis
      using q s1 go [of ds] go [of "d1 # ds"] dq d1
      by (subst forward_loop.simps) (simp add: Let_def d1_def [symmetric])
  qed
qed

lemma onTunnelWritable_safe:
  assumes inv: "sess_inv Other s"
  shows "\<exists>n s'. onTunnelWritable ks s = Some (n, s') \<and> safe_step Other s s'"
proof -
  obtain k s1 where s1: "forward_loop ks 0 s = Some (k, s1)" "safe_step Other s s1"
    using forward_loop_safe [OF inv] by blast
  have "safe_step Other s1 s2" if "sess_core s2 = sess_core s1" for s2
    using safe_core [OF safe_stepD [OF s1(2)] that] .
  then have "safe_step Other s s2" if "sess_core s2 = sess_core s1" for s2
    using that safe_step_trans [OF s1(2)] by blast
  then have "safe_step Other s (emit e1 (s1\<lparr>mTotalSent := a, mForwardQueueDataSize := b\<rparr>))"
      "safe_step Other s (emit e2 s1)" for e1 e2 a b
    by (simp_all add: sess_core_def emit_def)
  moreover have "safe_step Other s (emit T_pauseSendData s)" using inv by (rule safe_core) simp
  ultimately show ?thesis using s1(1) by (simp add: onTunnelWritable_def)
qed

lemma clearBackQueue_safe:
  assumes inv: "sess_inv Other s"
  shows "\<exists>s'. clearBackQueue s = Some s' \<and> own_inv Other s' \<and> same_view Other s s'"
proof -
  define B where "B = Other \<union> set (mBackQueue s)"
  have own: "own_inv B s" "distinct (mBackQueue s)" "B - set (mBackQueue s) = Other"
    using inv by (auto simp: sess_inv_def B_def)
  obtain s1 where s1: "each safeReleaseSegment (mBackQueue s) s = Some s1" "own_inv Other s1"
      "same_view Other s s1"
    using pool.release_each [OF own(1,2)] own(3) by (auto simp: B_def)
  have "own_inv Other (s1\<lparr>mBackQueue := [], mBackQueueDataSize := 0\<rparr>) = own_inv Other s1"
    by (rule own_inv_frame) simp_all
  with s1 show ?thesis by (simp add: clearBackQueue_def same_view_def)
qed

section \<open>All runs of a session\<close>

text \<open>
  One session and the router, driven by the packets of the application, the tunnel and the tun device in any
  order. A step exists where the handler has a defined outcome.
\<close>

inductive tcp_step :: "session \<Rightarrow> session \<Rightarrow> bool" where
  packet: "0 \<le> getPayloadLen ip \<Longrightarrow> accept ip now rnd s = Some s' \<Longrightarrow> tcp_step s s'"
| data_back: "onTunnelDataBack data now s = Some s' \<Longrightarrow> tcp_step s s'"
| tunnel_writable: "onTunnelWritable ks s = Some (n, s') \<Longrightarrow> tcp_step s s'"
| disconnected: "onTunnelDisconnected s = Some s' \<Longrightarrow> tcp_step s s'"
| tun_writable: "onWritable ws s = Some s' \<Longrightarrow> tcp_step s s'"

lemma accept_cases:
  assumes inv: "sess_inv Other s" and ip: "0 \<le> getPayloadLen ip"
  shows "if accept_bad ip s then accept ip now rnd s = None
    else (\<exists>s'. accept ip now rnd s = Some s' \<and> safe_step Other s s')"
proof -
  define len where "len = (word_of_int (getPayloadLen ip) :: u32)"
  define s1 where "s1 = s\<lparr>mTotalAccept := mTotalAccept s + len\<rparr>"
  define s2 where "s2 = (if (mCtrlType s1 AND CTRL_CAPTURE) \<noteq> 0
                then s1\<lparr>captured := captured s1 @ [map ip [0..<unat (getTTLEN ip)]]\<rparr> else s1)"
  define s3 where "s3 = emit (CONN_TRAFFIC_ACCEPT (rel_seq ip s) (rel_ack ip s) len) s2"
  have st: "safe_step Other s s3"
    using inv by (intro safe_core) (simp_all add: s3_def s2_def s1_def sess_core_def emit_def)
  note inv3 = safe_stepD [OF st]
  define m where "m = (if tcp_flags ip AND SYN \<noteq> 0 then map_option snd (onReceiveSYN ip rnd s3)
                    else if tcp_flags ip AND FIN \<noteq> 0 then onReceiveFIN ip s3
                    else if tcp_flags ip AND RST \<noteq> 0 then Some (onReceiveRST ip s3)
                    else accept_segment ip (rel_ack ip s) s3)"
  have same: "mState s3 = mState s" "mSack s3 = mSack s" "mLocalNext s3 = mLocalNext s"
    by (simp_all add: s3_def s2_def s1_def emit_def)
  then have bad: "sack_bad ip s3 = sack_bad ip s" by (simp add: sack_bad_def)
  have run: "accept ip now rnd s = do { s4 \<leftarrow> m; Some (s4\<lparr>mLastTime := now\<rparr>) }"
    unfolding accept_def Let_def m_def s3_def s2_def s1_def len_def ..
  show ?thesis
  proof (cases "accept_bad ip s")
    case True
    then have "m = None"
      using onReceiveSYN_safe [OF inv3, of ip rnd] accept_segment_safe [OF inv3 ip, of "rel_ack ip s"]
      by (auto simp: m_def accept_bad_def same bad split: if_splits)
    then show ?thesis using True run by simp
  next
    case False
    have "safe_step Other s3 (onReceiveRST ip s3)"
      unfolding onReceiveRST_def using inv3 by (rule safe_core) simp
    then have "\<exists>s4. m = Some s4 \<and> safe_step Other s3 s4"
      using onReceiveSYN_safe [OF inv3, of ip rnd] onReceiveFIN_safe [OF inv3, of ip]
        accept_segment_safe [OF inv3 ip, of "rel_ack ip s"] False
      by (auto simp: m_def accept_bad_def same bad split: if_splits)
    then obtain s4 where s4: "m = Some s4" "safe_step Other s3 s4" by blast
    have "safe_step Other s4 (s4\<lparr>mLastTime := now\<rparr>)"
      using safe_stepD [OF s4(2)] by (rule safe_core) (simp add: sess_core_def)
    then have "safe_step Other s (s4\<lparr>mLastTime := now\<rparr>)" using safe_step_trans st s4(2) by blast
    then show ?thesis using False s4(1) run by simp
  qed
qed

lemma accept_safe:
  "sess_inv Other s \<Longrightarrow> 0 \<le> getPayloadLen ip \<Longrightarrow> accept ip now rnd s = Some s' \<Longrightarrow> safe_step Other s s'"
  using accept_cases [of Other s ip now rnd] by (auto split: if_splits)

lemma accept_fine:
  "sess_inv Other s \<Longrightarrow> packet_ok ip \<Longrightarrow> scale_ok ip \<Longrightarrow> \<exists>s'. accept ip now rnd s = Some s' \<and> safe_step Other s s'"
  using accept_cases [of Other s ip now rnd] packet_ok_fine [of ip s] by (simp add: packet_ok_def)

lemma router_safe:
  assumes inv: "sess_inv Other s"
  shows "\<exists>s'. onWritable ws s = Some s' \<and> safe_step Other s s'"
proof -
  have own: "own_inv (Other \<union> set (mBackQueue s)) s" using inv by (simp add: sess_inv_def)
  obtain s1 where s1: "write_loop ws s = Some s1" "drained (Other \<union> set (mBackQueue s)) s s1"
    using write_loop_drained [OF own] by blast
  then have "back_step Other s s1"
    by (intro sess_inv_router [OF inv]) (simp_all add: drained_def)
  moreover have "safe_step Other s1 (s1\<lparr>tunWrite := False\<rparr>)"
    using back_stepD [OF \<open>back_step Other s s1\<close>] by (rule safe_core) (simp add: sess_core_def)
  ultimately have "safe_step Other s (s1\<lparr>tunWrite := False\<rparr>)" using back_safe safe_step_trans by blast
  then show ?thesis using s1(1) by (simp add: onWritable_def)
qed

lemma tcp_step_inv: "tcp_step s s' \<Longrightarrow> sess_inv Other s \<Longrightarrow> safe_step Other s s'"
proof (induction rule: tcp_step.induct)
  case (packet ip now rnd s s')
  then show ?case using accept_safe by blast
next
  case (data_back data now s s')
  then show ?case using onTunnelDataBack_safe [OF data_back(2), of data now] by auto
next
  case (tunnel_writable ks s n s')
  then show ?case using onTunnelWritable_safe [OF tunnel_writable(2), of ks] by auto
next
  case (disconnected s s')
  then show ?case using onTunnelDisconnected_safe [OF disconnected(2)] by auto
next
  case (tun_writable ws s s')
  then show ?case using router_safe [OF tun_writable(2), of ws] by auto
qed

lemma tcp_steps_inv: "tcp_step\<^sup>*\<^sup>* s s' \<Longrightarrow> sess_inv Other s \<Longrightarrow> safe_step Other s s'"
proof (induction rule: rtranclp_induct)
  case base
  then show ?case using safe_core [of Other s s] by simp
next
  case (step s1 s2)
  then show ?case using tcp_step_inv safe_stepD safe_step_trans by blast
qed

lemma session_born_inv: "own_inv Other w \<Longrightarrow> sess_inv Other (session_born w ip b)"
proof -
  assume own: "own_inv Other w"
  have "own_inv Other (session_born w ip b) = own_inv Other w" by (simp add: own_inv_def)
  with own show ?thesis by (simp add: sess_inv_def)
qed

lemma buildSession_inv: "own_inv Other w \<Longrightarrow> buildSession ip b w = Some s \<Longrightarrow> sess_inv Other s"
  using buildSession_born session_born_inv by blast

lemma sample_session_inv: "sess_inv {} sample_session"
  using router0_inv sample_session_built by (rule buildSession_inv)

lemma releaseSession_safe:
  assumes inv: "sess_inv Other s"
  shows "\<exists>s'. releaseSession s = Some s' \<and> own_inv Other s' \<and> same_view Other s s'"
proof -
  define s1 where "s1 = emit T_destroyTunnel ((emit CONN_DIE s)\<lparr>tunAlive := False\<rparr>)"
  have "sess_core s1 = sess_core s" by (simp add: s1_def emit_def sess_core_def)
  then have inv1: "sess_inv Other s1" using inv sess_inv_core by blast
  have fw: "list_all seg_delete_ok (mForwardQueue s1)"
    using inv1 by (auto simp: sess_inv_def list_all_iff seg_delete_ok_def)
  have "safe_step Other s1 (s1\<lparr>mForwardQueue := []\<rparr>)" using inv1 by (rule sess_inv_forward) simp
  then have inv2: "sess_inv Other (s1\<lparr>mForwardQueue := []\<rparr>)" by (rule safe_stepD)
  obtain s2 where "clearBackQueue (s1\<lparr>mForwardQueue := []\<rparr>) = Some s2" "own_inv Other s2"
      "same_view Other (s1\<lparr>mForwardQueue := []\<rparr>) s2"
    using clearBackQueue_safe [OF inv2] by blast
  moreover have "heap s1 = heap s" by (simp add: s1_def emit_def)
  ultimately show ?thesis
    using fw by (simp add: releaseSession_def session_delete_def s1_def [symmetric] same_view_def Let_def)
qed

text \<open>A packet of 40 bytes without options: a pure acknowledgement.\<close>

definition sample_ack :: packet where
  "sample_ack = mem_of ([0x45, 0, 0, 40] @ replicate 5 0 @ [6] @ replicate 22 0 @ [0x50, 0x10] @ replicate 6 0)"

lemma sample_ack_ok: "packet_ok sample_ack"
proof -
  have f: "getHeaderLen sample_ack = 20" "tcp_dataoff sample_ack 20 = 5" "getProtocol sample_ack = 6"
      "getTTLEN sample_ack = 40"
    by (simp_all add: sample_ack_def getHeaderLen_def tcp_dataoff_def getProtocol_def getTTLEN_def
        mem_of_def nth_append ld16_def le16_def swap16_def)
  have "getOptionAddr sample_ack 20 k = Some None" for k
    by (simp add: getOptionAddr_def f option_loop.simps)
  then show ?thesis
    by (simp add: packet_ok_def f getPayloadLen_def getPayloadOffset_def PROTO_TCP_def PROTO_UDP_def
        getTCPHeaderLen_def)
qed

lemma sample_ack_fields: "tcp_flags sample_ack = ACK" "tcp_flags sample_ack AND SYN = 0"
  by (simp_all add: tcp_flags_def getHeaderLen_def sample_ack_def mem_of_def nth_append flag_defs)

lemma tcp_run_inv:
  "own_inv Other w \<Longrightarrow> buildSession ip0 b w = Some s0 \<Longrightarrow> tcp_step\<^sup>*\<^sup>* s0 s \<Longrightarrow> safe_step Other s0 s"
  by (rule tcp_steps_inv [OF _ buildSession_inv])

text \<open>
  What a packet with a length field below its headers does: its payload length is negative, the \<^verbatim>\<open>size_t\<close> made of it huge,
  and the constructor leaves the datagram unallocated. A duplicate's datagram is deleted on the spot, which is undefined; a
  fresh one is queued with no data, and the session can no longer be released.
\<close>

lemma short_size:
  assumes "getPayloadLen ip < 0" and l: "l = (word_of_int (getPayloadLen ip) :: size_t)"
  shows "seg_max < l" "l \<noteq> 0"
proof -
  have "unat (h AND 0x0F) \<le> 15" for h :: byte
    using word_and_le1 [of h "0x0F"] by (simp add: word_le_nat_alt)
  moreover have "unat (drop_bit 4 h) \<le> 15" for h :: byte
  proof -
    have "unat h < 256" using order_le_less_trans [OF word_le_nat_alt [THEN iffD1, OF word_order.extremum [of h]]] by simp
    moreover have "unat (drop_bit 4 h) = unat h div 16" unfolding unat_drop_bit_eq by (simp add: drop_bit_eq_div)
    ultimately show ?thesis by linarith
  qed
  ultimately have "getHeaderLen ip \<le> 60" "getTCPHeaderLen ip t \<le> 60" for t
    using mult_le_mono1 [of _ 15 4] unfolding getHeaderLen_def getTCPHeaderLen_def tcp_dataoff_def by simp_all
  then have "getPayloadOffset ip \<le> 120"
    using add_mono [of "getHeaderLen ip" 60 "getTCPHeaderLen ip (getHeaderLen ip)" 60] by (simp add: getPayloadOffset_def)
  then have "- 120 \<le> getPayloadLen ip" unfolding getPayloadLen_def by linarith
  then have "(getPayloadLen ip + 4294967296) mod 4294967296 = getPayloadLen ip + 4294967296"
    using assms(1) by (intro mod_pos_pos_trivial) simp_all
  then have "uint l = getPayloadLen ip + 4294967296"
    by (simp add: l uint_word_of_int)
  then show "seg_max < l" "l \<noteq> 0"
    using \<open>- 120 \<le> getPayloadLen ip\<close> by (auto simp: word_less_alt seg_max_def)
qed

lemma short_packet_breaks:
  assumes short: "getPayloadLen ip < 0" and fresh: "\<not> compare_u32 (rel_seq ip s) (mRemoteNext s) < 0"
  shows "enqueueIfNeed ip s = None
    \<or> (\<exists>s'. enqueueIfNeed ip s = Some (0, s') \<and> releaseSession s' = None)"
proof -
  define l where "l = (word_of_int (getPayloadLen ip) :: size_t)"
  have l: "seg_max < l" "l \<noteq> 0" using short_size [OF short l_def] by simp_all
  define d where "d = (datagram_new l)\<lparr>mSeq := rel_seq ip s, mFlag := tcp_flags ip,
                     mChecksum := tcp_checksum ip, mLength := ucast l\<rparr>"
  have d: "mData d = None" "mSize d = 0" "mLimit d = 0" "mPos d = 0"
    using l by (simp_all add: d_def segment_new_def)
  have w: "seg_write (payload_bytes ip l) l d = Some (0, d)"
    using l d by (simp add: seg_write_def word_neq_0_conv)
  have "releaseSession (s1\<lparr>mForwardQueue := bq_insert i d q\<rparr>) = None"
      "releaseSession (emit e (s1\<lparr>mForwardQueue := bq_insert i d q\<rparr>)) = None" for e s1 i q
    by (simp_all add: releaseSession_def session_delete_def emit_def bq_insert_def seg_delete_ok_def d Let_def)
  moreover have "seg_size d = 0" by (simp add: seg_size_def d)
  ultimately show ?thesis
    using l(2) fresh w by (simp add: enqueueIfNeed_def l_def [symmetric] d_def [symmetric] seg_delete_ok_def d Let_def)
qed



text \<open>
  Claim C2. No leak, no shared ownership. In every run, each live datagram is held by a session or is in
  the router's queue, it is marked as buffering exactly while the router has it, the router is told to
  free it exactly when no session holds it, and the byte count of the back queue is the sum of its
  datagrams' capacities.
\<close>

theorem tcp_ownership:
  assumes "own_inv Other w" "buildSession ip0 b w = Some s0" "tcp_step\<^sup>*\<^sup>* s0 s"
  shows "dom (heap s) = Other \<union> set (mBackQueue s) \<union> set (tunData s)
    \<and> (\<forall>r d. heap s r = Some d \<longrightarrow> (mBuffering d \<longleftrightarrow> r \<in> set (tunData s))
       \<and> (mReleaseAfterBuffering d \<longleftrightarrow> r \<notin> Other \<union> set (mBackQueue s)))
    \<and> mBackQueueDataSize s = sum_list (map (cap_of s) (mBackQueue s))"
proof -
  have inv: "sess_inv Other s" using safe_stepD [OF tcp_run_inv [OF assms]] .
  then have own: "own_inv (Other \<union> set (mBackQueue s)) s" by (simp add: sess_inv_def)
  have "mBackQueueDataSize s = sum_list (map (cap_of s) (mBackQueue s))"
    using inv by (simp add: sess_inv_def)
  then show ?thesis
    using own_invD(2) [OF own] own_invD(4) [OF own] unfolding cell_ok_def by blast
qed

text \<open>The state after one packet from the remote: a datagram in both queues.\<close>

lemma sample_run: "tcp_step\<^sup>*\<^sup>* sample_session (the (onTunnelDataBack [1] 1 sample_session))"
proof -
  from onTunnelDataBack_safe [OF sample_session_inv, of "[1]" 1] show ?thesis
    by (auto intro!: r_into_rtranclp tcp_step.data_back)
qed

theorem tcp_ownership_witness:
  "let s = the (onTunnelDataBack [1] 1 sample_session) in
    dom (heap s) = {} \<union> set (mBackQueue s) \<union> set (tunData s)
    \<and> (\<forall>r d. heap s r = Some d \<longrightarrow> (mBuffering d \<longleftrightarrow> r \<in> set (tunData s))
       \<and> (mReleaseAfterBuffering d \<longleftrightarrow> r \<notin> {} \<union> set (mBackQueue s)))
    \<and> mBackQueueDataSize s = sum_list (map (cap_of s) (mBackQueue s))"
  unfolding Let_def
  by (rule tcp_ownership [OF router0_inv sample_session_built sample_run])

text \<open>
  Sessions do not interfere. Whatever one session does, the datagrams in the back queues of
  the other sessions keep their packet, their sequence numbers and their acknowledgement and
  retransmission state.
\<close>

theorem tcp_sessions_isolated:
  assumes "own_inv Other w" "buildSession ip0 b w = Some s0" "tcp_step\<^sup>*\<^sup>* s0 s" "r \<in> Other"
  shows "map_option dgram_view (heap s r) = map_option dgram_view (heap w r)"
proof -
  have "same_view Other s0 s" using tcp_run_inv [OF assms(1-3)] by (simp add: safe_step_def)
  moreover have "heap s0 = heap w" using buildSession_born [OF assms(2)] by simp
  ultimately show ?thesis using assms(4) by (simp add: same_view_def)
qed

theorem tcp_sessions_isolated_witness:
  "map_option dgram_view (heap (session_born sample_router sample_syn sample_birth) 0)
   = map_option dgram_view (heap sample_router 0)"
  by (rule tcp_sessions_isolated [OF sample_router_inv sample_syn_builds rtranclp.rtrancl_refl]) simp

end
