(* ===== verification/TCPState.thy ===== *)
theory TCPState
  imports TCPOwn
begin

text \<open>
  The connection states of \<^verbatim>\<open>TCPSession\<close>: what holds of every sequence of state changes
  (\<^verbatim>\<open>switchState\<close> is the only operation that assigns \<^verbatim>\<open>mState\<close>), and the behaviours the code has and
  a TCP endpoint should not have.
\<close>

section \<open>Reasoning about state changes once for all operations\<close>

text \<open>What an observer of the connection sees: the state, whether it is alive, the reported states.\<close>

fun state_event :: "effect \<Rightarrow> TCP_STATE list" where
  "state_event (CONN_STATE st) = [st]"
| "state_event _ = []"

definition reports :: "session \<Rightarrow> TCP_STATE list" where
  "reports s = concat (map state_event (effects s))"

definition obs :: "session \<Rightarrow> TCP_STATE \<times> bool \<times> TCP_STATE list" where
  "obs s = (mState s, mAlive s, reports s)"

text \<open>
  The interface: a relation that holds of every quiet change and of every call of \<^verbatim>\<open>switchState\<close>, and
  that composes, holds of every operation.
\<close>

locale state_frame =
  fixes R :: "session \<Rightarrow> session \<Rightarrow> bool"
  assumes quiet: "obs s' = obs s \<Longrightarrow> R s s'"
    and switch: "st \<noteq> LISTEN \<Longrightarrow> R s (switchState st s)"
    and trans: "R s1 s2 \<Longrightarrow> R s2 s3 \<Longrightarrow> R s1 s3"

lemma obs_emit [simp]: "state_event e = [] \<Longrightarrow> obs (emit e s) = obs s"
  by (simp add: obs_def reports_def emit_def)

lemma obs_updateWindowSize: "updateWindowSize s = Some s' \<Longrightarrow> obs s' = obs s"
  by (erule updateWindowSize_frame) (simp add: obs_def reports_def)

lemma obs_router: "router.more s' = router.more s \<Longrightarrow> obs s' = obs s"
  by (subst session_more [of s' s], assumption) (simp add: obs_def reports_def)

lemma obs_release: "safeReleaseSegment r s = Some s' \<Longrightarrow> obs s' = obs s"
  by (rule obs_router) (auto simp: safeReleaseSegment_def dest!: delete_frame split: option.splits if_splits)

lemma obs_sync: "onSyncEvent r s = Some (c, s') \<Longrightarrow> obs s' = obs s"
  by (rule obs_router) (auto simp: onSyncEvent_def split: option.splits if_splits)

lemma obs_store [simp]: "obs (store r d s) = obs s"
  by (rule obs_router) simp

lemma obs_pop: "pop_loop rs s = Some s' \<Longrightarrow> obs s' = obs s"
proof (induction rs arbitrary: s)
  case (Cons r rs)
  then show ?case
    by (auto split: bind_splits if_splits dest!: obs_release) (simp add: obs_def reports_def)
qed simp

lemma obs_push_segment: "push_segment flag data s = Some (ok, s') \<Longrightarrow> obs s' = obs s"
proof (cases ok)
  case True
  assume "push_segment flag data s = Some (ok, s')"
  with True show ?thesis by (auto elim!: push_segment_True simp: obs_def reports_def)
next
  case False
  assume "push_segment flag data s = Some (ok, s')"
  with False show ?thesis
    by (auto simp: push_segment_def Let_def alloc_def split: if_splits option.splits bind_splits
        dest!: obs_updateWindowSize)
qed

lemma obs_sendBack: "sendBackSegment r s = Some (n, s') \<Longrightarrow> obs s' = obs s"
  by (auto simp: sendBackSegment_def split: bind_splits if_splits dest!: obs_sync)

lemma obs_sack_block: "sack_block its sb tb s = Some s' \<Longrightarrow> obs s' = obs s"
  by (induction its arbitrary: s) (auto split: bind_splits if_splits)

lemma obs_sack: "onSack ip p s = Some s' \<Longrightarrow> obs s' = obs s"
proof -
  have "sack_blocks ip ps s = Some s' \<Longrightarrow> obs s' = obs s" for ps s
    by (induction ps arbitrary: s) (auto split: bind_splits dest!: obs_sack_block)
  then show "onSack ip p s = Some s' \<Longrightarrow> obs s' = obs s"
    by (auto simp: onSack_def Let_def split: if_splits)
qed

context state_frame
begin

lemma refl: "R s s"
  by (rule quiet) simp

lemma reset: "resetConnection s = Some (n, s') \<Longrightarrow> R s s'"
proof -
  assume a: "resetConnection s = Some (n, s')"
  obtain s1 where s1: "updateWindowSize s = Some s1"
    using a by (auto simp: resetConnection_def split: bind_splits)
  define s2 where "s2 = s1\<lparr>mLocalSeq := mLocalNext s1\<rparr>"
  have "obs s2 = obs s1" by (simp add: s2_def obs_def reports_def)
  then have o2: "obs s2 = obs s" using obs_updateWindowSize [OF s1] by simp
  obtain d k s4 where s4: "sendBackSegment (next_ref s2)
      (store (next_ref s2) (d\<lparr>mReleaseAfterBuffering := True\<rparr>) (s2\<lparr>next_ref := next_ref s2 + 1\<rparr>)) = Some (k, s4)"
    and fin: "s' = switchState CLOSED s4 \<or> delete (next_ref s2) s4 = Some s'"
    using a unfolding resetConnection_def s1 Let_def bind.bind_lunit s2_def [symmetric] alloc_def
    by (auto split: bind_splits if_splits)
  have "obs (s2\<lparr>next_ref := next_ref s2 + 1\<rparr>) = obs s2" by (simp add: obs_def reports_def)
  then have "obs s4 = obs s" using obs_sendBack [OF s4] o2 by simp
  then have "R s s4" by (rule quiet)
  moreover have "R s4 s'" using fin
  proof
    assume "s' = switchState CLOSED s4"
    then show ?thesis using switch [of CLOSED] by simp
  next
    assume "delete (next_ref s2) s4 = Some s'"
    then have "router.more s' = router.more s4" by (blast dest: delete_frame)
    then show ?thesis by (intro quiet obs_router)
  qed
  ultimately show ?thesis by (rule trans)
qed

lemma send_loop: "send_loop its lim w sent packet s = Some (n, s') \<Longrightarrow> R s s'"
proof (induction its arbitrary: w sent packet s)
  case Nil
  then show ?case by (simp add: refl)
next
  case (Cons r its)
  have "R s s1 \<Longrightarrow> send_loop its lim w' sent' packet' s1 = Some (n, s') \<Longrightarrow> R s s'" for s1 w' sent' packet'
    using Cons.IH trans by blast
  moreover have "sendBackSegment r s = Some (k, s1) \<Longrightarrow> R s s1" for k s1
    using obs_sendBack quiet by blast
  ultimately show ?case using Cons.prems Cons.IH refl
    by (auto simp: Let_def split: bind_splits if_splits dest: reset)
qed

lemma send_window: "send_window s = Some (n, s') \<Longrightarrow> R s s'"
proof -
  assume a: "send_window s = Some (n, s')"
  then obtain lim k s1 where s1: "send_loop (mBackQueue s) lim 0 0 0 s = Some (k, s1)"
      and s': "s' = s1 \<or> s' = emit T_resumeReceiveData s1"
    by (auto simp: send_window_def Let_def split: bind_splits option.splits if_splits)
  have "R s1 s'" using s' refl quiet by auto
  then show ?thesis using send_loop [OF s1] trans by blast
qed

lemma flush: "flushBackQueue s = Some (n, s') \<Longrightarrow> R s s'"
proof (induction s arbitrary: n s' rule: flushBackQueue.induct)
  case (1 s)
  then obtain s1 where s1: "pop_acked s = Some s1"
    by (auto simp: flushBackQueue.simps [of s] split: option.splits)
  have R1: "R s s1" using obs_pop s1 quiet unfolding pop_acked_def by blast
  show ?case
  proof (cases "fin_due s1")
    case False
    then have "send_window s1 = Some (n, s')" using 1(2) s1 by (simp add: flushBackQueue.simps [of s])
    then show ?thesis using send_window R1 trans by blast
  next
    case True
    obtain ok s2 where push: "push_segment (FIN OR ACK) [] s1 = Some (ok, s2)"
      using 1(2) s1 True by (auto simp: flushBackQueue.simps [of s] split: option.splits)
    have R2: "R s s2" using obs_push_segment [OF push] quiet R1 trans by blast
    show ?thesis
    proof (cases ok)
      case False
      then show ?thesis using 1(2) s1 True push R2 by (simp add: flushBackQueue.simps [of s])
    next
      case ok: True
      then obtain k s3 where s3: "flushBackQueue s2 = Some (k, s3)"
          and s': "s' = switchState (if mState s3 = ESTABLISHED then FIN_WAIT1 else LAST_ACK) s3"
        using 1(2) s1 True push by (auto simp: flushBackQueue.simps [of s] split: option.splits)
      have "R s2 s3" using 1(1) [OF s1 True push HOL.refl ok s3] .
      moreover have "R s3 s'" unfolding s' by (rule switch) simp
      ultimately show ?thesis using R2 trans by blast
    qed
  qed
qed

lemma push: "pushInBackQueue flag data s = Some (n, s') \<Longrightarrow> R s s'"
proof -
  assume a: "pushInBackQueue flag data s = Some (n, s')"
  then obtain ok s1 where p: "push_segment flag data s = Some (ok, s1)"
    by (auto simp: pushInBackQueue_def split: bind_splits)
  have "R s s1" using obs_push_segment [OF p] by (rule quiet)
  moreover have "R s1 s'" using a p refl flush
    by (auto simp: pushInBackQueue_def split: if_splits bind_splits)
  ultimately show ?thesis by (rule trans)
qed

lemma enqueue: "enqueueIfNeed ip s = Some (l, s') \<Longrightarrow> R s s'"
proof -
  assume a: "enqueueIfNeed ip s = Some (l, s')"
  have "R s (s\<lparr>mForwardQueue := q, mForwardQueueDataSize := v\<rparr>)"
      "R s (emit T_requestSendData (s\<lparr>mForwardQueue := q, mForwardQueueDataSize := v\<rparr>))" for q v
    by (rule quiet; simp add: obs_def reports_def emit_def)+
  then show ?thesis using a refl push
    by (auto simp: enqueueIfNeed_def Let_def split: if_splits bind_splits)
qed

lemma receive_SYN: "onReceiveSYN ip rnd s = Some (n, s') \<Longrightarrow> R s s'"
proof (cases "mState s = LISTEN")
  case False
  assume "onReceiveSYN ip rnd s = Some (n, s')"
  with False show ?thesis by (auto simp: onReceiveSYN_def split: bind_splits dest: flush)
next
  case True
  assume a: "onReceiveSYN ip rnd s = Some (n, s')"
  define t where "t = getHeaderLen ip"
  obtain f b c where opts: "getOptionAddr ip t OPT_SACKF = Some f" "getOptionAddr ip t OPT_MSS = Some b"
      "getOptionAddr ip t OPT_WS = Some c"
    using a True by (auto simp: onReceiveSYN_def Let_def t_def split: bind_splits)
  define s1 where "s1 = (if f \<noteq> None then s\<lparr>mSack := True\<rparr> else s)"
  define s2 where "s2 = (case b of None \<Rightarrow> s1 | Some p \<Rightarrow> s1\<lparr>mMSS := ld16 ip (p + 2)\<rparr>)"
  define s3 where "s3 = (case c of None \<Rightarrow> s2 | Some p \<Rightarrow> s2\<lparr>mWindowScale := ip (p + 2)\<rparr>)"
  define s4 where "s4 w = s3\<lparr>mSendWindow := w, mRemoteSeqBase := tcp_seq ip, mLocalSeqBase := rnd,
                    mLocalSeq := 0, mLocalNext := 0, mRemoteNext := 1\<rparr>" for w
  have "obs s3 = obs s"
    by (simp add: s3_def s2_def s1_def obs_def reports_def split: option.splits)
  then have o4: "obs (s4 w) = obs s" for w by (simp add: s4_def obs_def reports_def)
  have "onReceiveSYN ip rnd s = (do { w \<leftarrow> shl32 (ucast (tcp_window ip)) (mWindowScale s3);
        (n, s5) \<leftarrow> pushInBackQueue (SYN OR ACK) [] (s4 w);
        if n < 0 then Some (1, s5) else Some (0, switchState SYN_RCVED s5) })"
    using True opts unfolding onReceiveSYN_def Let_def s4_def s3_def s2_def s1_def t_def by simp
  with a obtain w k s5 where s5: "pushInBackQueue (SYN OR ACK) [] (s4 w) = Some (k, s5)"
      and s': "s' = s5 \<or> s' = switchState SYN_RCVED s5"
    by (auto split: bind_splits if_splits)
  have "R s (s4 w)" using o4 by (rule quiet)
  moreover have "R (s4 w) s5" using s5 by (rule push)
  moreover have "R s5 s'" using s' refl switch [of SYN_RCVED] by auto
  ultimately show ?thesis using trans by blast
qed

lemma receive_FIN: "onReceiveFIN ip s = Some s' \<Longrightarrow> R s s'"
proof -
  assume a: "onReceiveFIN ip s = Some s'"
  define s1 where "s1 = (if mLocalNext s \<le> rel_ack ip s then s\<lparr>mLocalNext := rel_ack ip s\<rparr> else s)"
  define s2 where "s2 = s1\<lparr>mRemoteNext := rel_seq ip s + 1\<rparr>"
  have o2: "obs s2 = obs s" by (simp add: s2_def s1_def obs_def reports_def)
  obtain n s3 where s3: "pushInBackQueue ACK [] s2 = Some (n, s3)"
      and s': "s' = s3 \<or> s' = switchState CLOSE_WAIT s3 \<or> s' = switchState TIME_WAIT s3
        \<or> s' = switchState CLOSING s3"
    using a unfolding onReceiveFIN_def Let_def s1_def [symmetric] s2_def [symmetric]
    by (auto split: bind_splits if_splits)
  have "R s s2" using o2 by (rule quiet)
  moreover have "R s2 s3" using s3 by (rule push)
  moreover have "R s3 s'" using s' refl switch by auto
  ultimately show ?thesis using trans by blast
qed

lemma established: "accept_established ip s = Some (b, s') \<Longrightarrow> R s s'"
proof -
  assume a: "accept_established ip s = Some (b, s')"
  then obtain s1 l s2 where o1: "obs s1 = obs s" and s2: "enqueueIfNeed ip s1 = Some (l, s2)"
      and s': "s' = s2 \<or> (\<exists>n. pushInBackQueue ACK [] (s2\<lparr>mRemoteNext := mRemoteNext s2 + l\<rparr>) = Some (n, s'))"
    by (auto simp: accept_established_def split: bind_splits if_splits option.splits dest!: obs_sack)
  have "R s2 (s2\<lparr>mRemoteNext := mRemoteNext s2 + l\<rparr>)" by (rule quiet) (simp add: obs_def reports_def)
  then have "R s2 s'" using s' refl push trans by blast
  moreover have "R s s1" using o1 by (rule quiet)
  moreover have "R s1 s2" using s2 by (rule enqueue)
  ultimately show ?thesis using trans by blast
qed

lemma mid: "segment_mid ip s = Some (f, s') \<Longrightarrow> R s s'"
proof -
  assume a: "segment_mid ip s = Some (f, s')"
  have "R s3 (s3\<lparr>mRemoteNext := v\<rparr>)" for s3 v by (rule quiet) (simp add: obs_def reports_def)
  then have "R s (b\<lparr>mRemoteNext := v\<rparr>)"
    if "enqueueIfNeed ip (switchState ESTABLISHED s) = Some (l, b)" for l b v
    using switch [of ESTABLISHED s] enqueue [OF that] trans by blast
  then show ?thesis using a refl switch [of _ s] established
    by (auto simp: segment_mid_def split: if_splits bind_splits)
qed

lemma segment: "accept_segment ip ack s = Some s' \<Longrightarrow> R s s'"
proof -
  assume a: "accept_segment ip ack s = Some s'"
  then obtain w where w: "shl32 (ucast (tcp_window ip)) (mWindowScale s) = Some w"
    by (auto simp: accept_segment_def split: bind_splits)
  define s1 where "s1 = s\<lparr>mSendWindow := w\<rparr>"
  define s2 where "s2 = s1\<lparr>mLocalNext := ack\<rparr>"
  have o: "obs s1 = obs s" "obs s2 = obs s" by (simp_all add: s2_def s1_def obs_def reports_def)
  note run = a [unfolded accept_segment_mid [OF w] Let_def, folded s1_def, folded s2_def]
  show ?thesis
  proof (cases "mLocalNext s \<le> ack")
    case False
    then have "s' = s1 \<or> s' = emit T_keepAlive s1" using run by (auto split: if_splits)
    then show ?thesis using o(1) by (auto intro: quiet)
  next
    case True
    then obtain f s3 where m: "segment_mid ip s2 = Some (f, s3)"
      and fin: "s' = s3 \<or> (\<exists>n. flushBackQueue s3 = Some (n, s'))"
      using run by (auto split: bind_splits if_splits)
    have "R s3 s'" using fin refl flush by blast
    moreover have "R s s2" using o(2) by (rule quiet)
    ultimately show ?thesis using mid [OF m] trans by blast
  qed
qed

lemma accepts: "accept ip now rnd s = Some s' \<Longrightarrow> R s s'"
proof -
  assume a: "accept ip now rnd s = Some s'"
  define s1 where "s1 = s\<lparr>mTotalAccept := mTotalAccept s + word_of_int (getPayloadLen ip)\<rparr>"
  define s2 where "s2 = (if (mCtrlType s1 AND CTRL_CAPTURE) \<noteq> 0
                then s1\<lparr>captured := captured s1 @ [map ip [0..<unat (getTTLEN ip)]]\<rparr> else s1)"
  define s3 where "s3 = emit (CONN_TRAFFIC_ACCEPT (rel_seq ip s) (rel_ack ip s) (word_of_int (getPayloadLen ip))) s2"
  have o3: "obs s3 = obs s"
    by (simp add: s3_def s2_def s1_def obs_def reports_def emit_def)
  obtain s4 where s': "s' = s4\<lparr>mLastTime := now\<rparr>"
      and s4: "(\<exists>n. onReceiveSYN ip rnd s3 = Some (n, s4)) \<or> onReceiveFIN ip s3 = Some s4
        \<or> s4 = switchState CLOSED s3 \<or> accept_segment ip (rel_ack ip s) s3 = Some s4"
    using a unfolding accept_def Let_def s1_def [symmetric] s2_def [symmetric] s3_def [symmetric]
    by (auto simp: onReceiveRST_def split: bind_splits if_splits)
  have "R s s3" using o3 by (rule quiet)
  moreover have "R s3 s4" using s4 receive_SYN receive_FIN switch [of CLOSED] segment by auto
  moreover have "R s4 s'" unfolding s' by (rule quiet) (simp add: obs_def reports_def)
  ultimately show ?thesis using trans by blast
qed

lemma remote_finished: "onRemoteFinished s = Some s' \<Longrightarrow> R s s'"
proof -
  assume a: "onRemoteFinished s = Some s'"
  have "R s (s\<lparr>mRemoteFinished := True\<rparr>)" by (rule quiet) (simp add: obs_def reports_def)
  with a show ?thesis using flush trans by (auto simp: onRemoteFinished_def)
qed

lemma tunnel_disconnected: "onTunnelDisconnected s = Some s' \<Longrightarrow> R s s'"
  using remote_finished reset switch [of CLOSED s]
  by (auto simp: onTunnelDisconnected_def split: if_splits)

lemma relay: "relay_loop data i s = Some (k, s') \<Longrightarrow> R s s'"
proof (induction data i s arbitrary: k s' rule: relay_loop.induct)
  case (1 data i s)
  show ?case
  proof (cases "data = []")
    case True
    then show ?thesis using 1(2) refl by (simp add: relay_loop.simps [of "[]"])
  next
    case False
    define chunk where "chunk = take TCP_IP_PAYLOAD_SIZE data"
    obtain n s1 where s1: "pushInBackQueue ACK chunk s = Some (n, s1)"
      using 1(2) False by (auto simp: relay_loop.simps [of data] Let_def chunk_def split: bind_splits)
    have rest: "n < 0 \<and> s' = s1
        \<or> \<not> n < 0 \<and> relay_loop (drop TCP_IP_PAYLOAD_SIZE data) (i + word_of_nat (length chunk)) s1 = Some (k, s')"
      using 1(2) False s1
      by (auto simp: relay_loop.simps [of data i] Let_def chunk_def [symmetric] split: if_splits)
    have "R s s1" using s1 by (rule push)
    moreover have "R s1 s'" using rest refl 1(1) [OF False chunk_def s1 _] by blast
    ultimately show ?thesis by (rule trans)
  qed
qed

lemma data_back: "onTunnelDataBack data now s = Some s' \<Longrightarrow> R s s'"
proof (cases "data = []")
  case True
  assume a: "onTunnelDataBack data now s = Some s'"
  then obtain s1 where s1: "onRemoteFinished (emit T_pauseReceiveData s) = Some s1" "s' = s1\<lparr>mLastTime := now\<rparr>"
    using True by (auto simp: onTunnelDataBack_def split: bind_splits)
  have "R s (emit T_pauseReceiveData s)" by (rule quiet) simp
  moreover have "R s1 s'" unfolding s1(2) by (rule quiet) (simp add: obs_def reports_def)
  ultimately show ?thesis using remote_finished [OF s1(1)] trans by blast
next
  case False
  assume a: "onTunnelDataBack data now s = Some s'"
  then obtain i s1 where s1: "relay_loop data 0 s = Some (i, s1)"
    using False by (auto simp: onTunnelDataBack_def split: bind_splits)
  define s2 where "s2 = (if i > 0 then emit (CONN_TRAFFIC_RECV i) (s1\<lparr>mTotalRecv := mTotalRecv s1 + i\<rparr>) else s1)"
  define s3 where "s3 = (if mBackQueueDataSize s2 \<ge> TCP_SESSION_BUFFER_SIZE then emit T_pauseReceiveData s2 else s2)"
  have "s' = s3\<lparr>mLastTime := now\<rparr>"
    using a False s1 unfolding onTunnelDataBack_def Let_def s3_def s2_def by simp
  moreover have "obs s3 = obs s1" by (simp add: s3_def s2_def) (simp add: obs_def reports_def)
  ultimately have "obs s' = obs s1" by (simp add: obs_def reports_def)
  then have "R s1 s'" by (rule quiet)
  with relay [OF s1] show ?thesis by (rule trans)
qed

lemma send_data: "TCPTunnel_sendData k data md s = Some (n, s') \<Longrightarrow> R s s'"
proof -
  assume a: "TCPTunnel_sendData k data md s = Some (n, s')"
  have "R s (emit T_destroyTunnel (s\<lparr>tunAlive := False\<rparr>))" "R s (emit (T_sendData x md) s)" for x
    by (rule quiet; simp add: obs_def reports_def emit_def)+
  with a show ?thesis using refl tunnel_disconnected trans
    by (auto simp: TCPTunnel_sendData_def Let_def split: if_splits bind_splits)
qed

lemma forward: "forward_loop ks sent s = Some (k, s') \<Longrightarrow> R s s'"
proof (induction ks arbitrary: sent s)
  case Nil
  then show ?case using refl send_data
    by (auto simp: forward_loop.simps [of "[]"] split: list.splits)
next
  case (Cons a ks)
  have q: "R s1 (s1\<lparr>mForwardQueue := q\<rparr>)" for s1 q by (rule quiet) (simp add: obs_def reports_def)
  have go: "R s s'" if "TCPTunnel_sendData a x md s = Some (n, s1)"
      "forward_loop ks sent' (s1\<lparr>mForwardQueue := q\<rparr>) = Some (k, s')" for x md n s1 sent' q
    using send_data [OF that(1)] q Cons.IH [OF that(2)] trans by blast
  show ?case using Cons.prems refl send_data go
    by (auto simp: forward_loop.simps [of "a # ks"] Let_def split: list.splits bind_splits if_splits)
qed

lemma writable: "onTunnelWritable ks s = Some (n, s') \<Longrightarrow> R s s'"
proof (cases "mForwardQueue s = []")
  case True
  assume "onTunnelWritable ks s = Some (n, s')"
  with True have "s' = emit T_pauseSendData s" by (simp add: onTunnelWritable_def)
  then show ?thesis by (intro quiet) simp
next
  case False
  assume a: "onTunnelWritable ks s = Some (n, s')"
  then obtain k s1 where s1: "forward_loop ks 0 s = Some (k, s1)"
    using False by (auto simp: onTunnelWritable_def split: bind_splits)
  have "obs s' = obs s1" using a False s1
    by (auto simp: onTunnelWritable_def obs_def reports_def emit_def split: if_splits)
  then have "R s1 s'" by (rule quiet)
  with forward [OF s1] show ?thesis by (rule trans)
qed

lemma device: "sess_inv Other s \<Longrightarrow> onWritable ws s = Some s' \<Longrightarrow> R s s'"
proof (rule quiet)
  assume inv: "sess_inv Other s" and a: "onWritable ws s = Some s'"
  have own: "own_inv (Other \<union> set (mBackQueue s)) s" using inv by (simp add: sess_inv_def)
  obtain s1 where s1: "write_loop ws s = Some s1" "drained (Other \<union> set (mBackQueue s)) s s1"
    using write_loop_drained [OF own] by blast
  then have "router.more s1 = router.more s" by (simp add: drained_def)
  then have "obs s1 = obs s" by (rule obs_router)
  then show "obs s' = obs s" using a s1(1) by (auto simp: onWritable_def obs_def reports_def)
qed

lemma tcp_step_R: "tcp_step s s' \<Longrightarrow> sess_inv Other s \<Longrightarrow> R s s'"
  by (induction rule: tcp_step.induct) (blast intro: accepts data_back writable tunnel_disconnected device)+

lemma tcp_steps_R: "tcp_step\<^sup>*\<^sup>* s s' \<Longrightarrow> sess_inv Other s \<Longrightarrow> R s s'"
proof (induction rule: rtranclp_induct)
  case base
  then show ?case by (simp add: refl)
next
  case (step s1 s2)
  have "sess_inv Other s1" using safe_stepD [OF tcp_steps_inv [OF step(1,4)]] .
  then show ?case using step tcp_step_R trans by blast
qed

end

section \<open>Two relations of this kind\<close>

text \<open>A connection that is not alive stays so, and a closed one is not alive.\<close>

definition dies :: "session \<Rightarrow> session \<Rightarrow> bool" where
  "dies s s' \<longleftrightarrow> (mAlive s' \<longrightarrow> mAlive s) \<and> ((mState s = CLOSED \<longrightarrow> \<not> mAlive s) \<longrightarrow> mState s' = CLOSED \<longrightarrow> \<not> mAlive s')"

interpretation dying: state_frame dies
proof unfold_locales
  show "dies s (switchState st s)" for st s
    by (simp add: dies_def switchState_def close_def emit_def Let_def)
qed (auto simp: dies_def obs_def)

text \<open>The states reported to the user interface end with the current one; LISTEN is never entered again.\<close>

definition reported :: "session \<Rightarrow> bool" where
  "reported s \<longleftrightarrow> (if reports s = [] then mState s = LISTEN else mState s = last (reports s))"

definition reporting :: "session \<Rightarrow> session \<Rightarrow> bool" where
  "reporting s s' \<longleftrightarrow> (reported s \<longrightarrow> reported s') \<and> (\<exists>more_reports. reports s' = reports s @ more_reports
     \<and> LISTEN \<notin> set more_reports)"

interpretation ui: state_frame reporting
proof unfold_locales
  fix st s assume "st \<noteq> LISTEN"
  then show "reporting s (switchState st s)"
    by (simp add: reporting_def reported_def reports_def switchState_def close_def emit_def Let_def)
next
  fix s1 s2 s3 assume "reporting s1 s2" "reporting s2 s3"
  then show "reporting s1 s3" by (fastforce simp: reporting_def)
qed (auto simp: reporting_def reported_def obs_def)

section \<open>Properties\<close>

text \<open>
  Claim C8. Closing is final. In every run, a connection in state CLOSED is not alive, and once a
  connection is not alive no packet, tunnel event or device write revives it: the router's periodic
  clean-up finds it closed at any later time.
\<close>

theorem tcp_closed_final:
  assumes "own_inv Other w" "buildSession ip0 b w = Some s0" "tcp_step\<^sup>*\<^sup>* s0 s"
    "tcp_step\<^sup>*\<^sup>* s s'" "mState s = CLOSED \<or> \<not> mAlive s"
  shows "\<not> mAlive s' \<and> hasClosed now s'"
proof -
  have inv: "sess_inv Other s0" using assms(1,2) by (rule buildSession_inv)
  have "dies s0 s" by (rule dying.tcp_steps_R [OF assms(3) inv])
  then have "\<not> mAlive s" using assms(5) by (auto simp: dies_def buildSession_born [OF assms(2)])
  moreover have "dies s s'"
    using safe_stepD [OF tcp_run_inv [OF assms(1-3)]] by (rule dying.tcp_steps_R [OF assms(4)])
  ultimately show ?thesis by (simp add: dies_def hasClosed_def)
qed

text \<open>
  Claim C9. The user interface is told the truth. In every run the last state reported by a CONN_STATE
  event is the state of the connection, and a connection never returns to LISTEN.
\<close>

theorem tcp_state_reported:
  assumes "own_inv Other w" "buildSession ip0 b w = Some s0" "tcp_step\<^sup>*\<^sup>* s0 s"
  shows "(if reports s = [] then mState s = LISTEN else mState s = last (reports s)) \<and> LISTEN \<notin> set (reports s)"
proof -
  have inv: "sess_inv Other s0" using assms(1,2) by (rule buildSession_inv)
  have "reporting s0 s" by (rule ui.tcp_steps_R [OF assms(3) inv])
  moreover have "reports s0 = []" "mState s0 = LISTEN"
    by (simp_all add: buildSession_born [OF assms(2)] reports_def)
  ultimately show ?thesis by (auto simp: reporting_def reported_def)
qed

text \<open>The disconnection of a new session resets it: a run that ends in CLOSED.\<close>

definition sample_closed :: session where
  "sample_closed = the (onTunnelDisconnected sample_session)"

lemma sample_closed_run: "tcp_step\<^sup>*\<^sup>* sample_session sample_closed" "mState sample_closed = CLOSED"
proof -
  note inv = sample_session_inv
  have "mState sample_session = LISTEN" by (simp add: sample_session_def)
  moreover obtain s' where "resetConnection sample_session = Some (1, s')" "mState s' = CLOSED"
    using resetConnection_step [OF inv] by blast
  ultimately have d: "onTunnelDisconnected sample_session = Some s'" "mState s' = CLOSED"
    by (simp_all add: onTunnelDisconnected_def)
  then show "mState sample_closed = CLOSED" by (simp add: sample_closed_def)
  show "tcp_step\<^sup>*\<^sup>* sample_session sample_closed"
    using d by (simp add: sample_closed_def) (blast intro: r_into_rtranclp tcp_step.disconnected)
qed

theorem tcp_closed_final_witness: "\<not> mAlive sample_closed \<and> hasClosed 5 sample_closed"
  using tcp_closed_final [OF router0_inv sample_session_built sample_closed_run(1)
      rtranclp.rtrancl_refl disjI1, OF sample_closed_run(2)] .

theorem tcp_state_reported_witness:
  "(if reports sample_closed = [] then mState sample_closed = LISTEN
    else mState sample_closed = last (reports sample_closed)) \<and> LISTEN \<notin> set (reports sample_closed)"
  by (rule tcp_state_reported [OF router0_inv sample_session_built sample_closed_run(1)])

text \<open>
  Claim C15. A closed connection can be moved to LAST_ACK. When the remote has finished and the back queue
  is empty although an acknowledgement covered the last data only in part, the FIN does not start at the window's
  left edge: sending it resets and closes the connection, and the caller then still switches it to LAST_ACK.
\<close>

theorem partial_ack_leaves_closed:
  assumes inv: "sess_inv Other s" and pop: "pop_acked s = Some s1" and due: "fin_due s1"
    and part: "mLocalNext s1 < mLocalSeq s1"
  shows "\<exists>s'. flushBackQueue s = Some (0, s') \<and> mState s' = LAST_ACK \<and> \<not> mAlive s'"
proof -
  have inv1: "sess_inv Other s1" using pop_acked_step [OF inv] pop back_stepD by auto
  have q: "mBackQueue s1 = []" and st: "mState s1 \<noteq> CLOSED" using due by (auto simp: fin_due_def)
  have l0: "length ([] :: bytes) \<le> 65535" by simp
  obtain ok s2 where push: "push_segment (FIN OR ACK) [] s1 = Some (ok, s2)"
    and step: "back_step Other s1 s2" "ok \<longleftrightarrow> mLocalNext s1 \<le> mLocalSeq s1"
    by (rule push_segment_step [OF inv1 l0])
  have ok using step(2) part by simp
  with push have push': "push_segment (FIN OR ACK) [] s1 = Some (True, s2)" by simp
  note stays = push_fin_stays [OF push' q]
  obtain d where d: "mBackQueue s2 = [next_ref s1]" "heap s2 (next_ref s1) = Some d"
      "mSeq d = mLocalSeq s1" "mLocalNext s2 = mLocalNext s1"
    using push' by (rule push_segment_True) (use q in \<open>auto dest: buildPackage_fields\<close>)
  obtain s3 where s3: "resetConnection s2 = Some (1, s3)" "mState s3 = CLOSED"
    using resetConnection_step [OF back_stepD [OF step(1)]] by blast
  have "send_window s2 = Some (0, s3)"
    using d part s3(1) by (simp add: send_window_def Let_def)
  then have fl: "flushBackQueue s2 = Some (0, s3)"
    using stays by (simp add: flushBackQueue.simps [of s2])
  have "mState s2 \<noteq> CLOSED" using obs_push_segment [OF push] st by (simp add: obs_def)
  then have dead: "\<not> mAlive s3" using dying.reset [OF s3(1)] s3(2) by (simp add: dies_def)
  have "flushBackQueue s = Some (0, switchState LAST_ACK s3)"
    using pop due push' fl s3(2) by (simp add: flushBackQueue.simps [of s])
  moreover have "mState (switchState LAST_ACK s3) = LAST_ACK" "\<not> mAlive (switchState LAST_ACK s3)"
    using s3(2) dead by (simp_all add: switchState_def emit_def Let_def)
  ultimately show ?thesis by blast
qed

text \<open>A session whose last data, sequence numbers 5 to 9, was acknowledged up to 7.\<close>

definition sample_partial :: session where
  "sample_partial = sample_session\<lparr>mState := ESTABLISHED, mRemoteFinished := True, mLocalSeq := 10, mLocalNext := 7\<rparr>"

theorem partial_ack_leaves_closed_witness:
  "\<exists>s'. flushBackQueue sample_partial = Some (0, s') \<and> mState s' = LAST_ACK \<and> \<not> mAlive s'"
proof (rule partial_ack_leaves_closed [of "{}" _ sample_partial])
  have "sess_core sample_partial = sess_core sample_session" by (simp add: sample_partial_def sess_core_def)
  then show "sess_inv {} sample_partial"
    by (rule sess_inv_core [THEN iffD2]) (rule sample_session_inv)
  show "pop_acked sample_partial = Some sample_partial"
    by (simp add: pop_acked_def sample_partial_def sample_session_def)
qed (simp_all add: sample_partial_def fin_due_def sample_session_def)

text \<open>
  Selective acknowledgements have no effect. Whatever SACK option a packet carries, the handler
  takes the option's kind byte for its length and returns without marking any datagram.
\<close>

theorem sack_ignored:
  assumes "getOptionAddr ip (getHeaderLen ip) OPT_SACK = Some (Some p)"
  shows "onSack ip p s = Some s"
  using assms by (rule onSack_nothing)

text \<open>A packet with one well-formed SACK block.\<close>

theorem sack_ignored_witness:
  "onSack (mem_of ([0x45] @ replicate 31 0 @ [0x80, 0x10] @ replicate 6 0 @ [1, 1, 5, 10, 0, 0, 0, 1, 0, 0, 0, 9])) 42 sample_session
   = Some sample_session"
proof (rule sack_ignored)
  let ?m = "mem_of ([0x45] @ replicate 31 0 @ [0x80, 0x10] @ replicate 6 0 @ [1, 1, 5, 10, 0, 0, 0, 1, 0, 0, 0, 9])"
  have h: "getHeaderLen ?m = 20" by (simp add: getHeaderLen_def mem_of_def)
  have "getOptionAddr ?m 20 OPT_SACK
      = Some (first_item OPT_SACK (20 + 20) [NopItem, NopItem, OptItem OPT_SACK [0, 0, 0, 1, 0, 0, 0, 9]])"
    by (rule getOptionAddr_first [where n = 0])
      (simp_all add: mem_of_def nth_append OPT_SACK_def OPT_NOP_def tcp_dataoff_def)
  then show "getOptionAddr ?m (getHeaderLen ?m) OPT_SACK = Some (Some 42)"
    unfolding h by (simp add: OPT_SACK_def OPT_NOP_def)
qed

end
