(* ===== verification/TCPStream.thy ===== *)
theory TCPStream
  imports TCPOwn
begin

text \<open>
  The data path from the application to the tunnel: which bytes \<^verbatim>\<open>TCPSession\<close> queues, in which order it
  hands them on, what it acknowledges, and the sequence-number arithmetic and window
  bounds behind it.
\<close>

section \<open>The forward queue\<close>

definition fwd_bytes :: "session \<Rightarrow> bytes" where
  "fwd_bytes s = concat (map seg_bytes (mForwardQueue s))"

definition fwd_size :: "session \<Rightarrow> u32" where
  "fwd_size s = sum_list (map seg_size (mForwardQueue s))"

lemma fwd_rx: "rx s' = rx s \<Longrightarrow> fwd_bytes s' = fwd_bytes s \<and> fwd_size s' = fwd_size s
   \<and> mForwardQueueDataSize s' = mForwardQueueDataSize s \<and> mRemoteNext s' = mRemoteNext s
   \<and> tunnel_bytes s' = tunnel_bytes s \<and> mForwardQueue s' = mForwardQueue s
   \<and> mLocalNext s' = mLocalNext s \<and> mRemoteSeqBase s' = mRemoteSeqBase s"
  by (simp add: rx_def fwd_bytes_def fwd_size_def)

lemma push_rx:
  "sess_inv Other s \<Longrightarrow> length data \<le> 65535 \<Longrightarrow> pushInBackQueue flag data s = Some (n, s') \<Longrightarrow>
   rx s' = rx s \<and> sess_inv Other s'"
  using pushInBackQueue_step [of Other s data flag] by (auto simp: back_step_def)

lemma flush_rx:
  "sess_inv Other s \<Longrightarrow> flushBackQueue s = Some (n, s') \<Longrightarrow> rx s' = rx s \<and> sess_inv Other s'"
  using flushBackQueue_step [of Other s] by (auto simp: back_step_def)

lemma compare_u32_refl [simp]: "compare_u32 a a = 0"
  by (simp add: compare_u32_def)

lemma findNotSmaller_end: "\<forall>x \<in> set q. 0 < cmp d x \<Longrightarrow> findNotSmaller d cmp q = length q"
  by (induction q) (auto simp: Let_def)

text \<open>The packet with the next expected sequence number is appended.\<close>

lemma enqueue_in_order:
  assumes inv: "sess_inv Other s" and len: "0 < getPayloadLen ip" and seq: "rel_seq ip s = mRemoteNext s"
    and before: "\<forall>d \<in> set (mForwardQueue s). 0 < sint (rel_seq ip s - mSeq d)"
  shows "\<exists>s'. enqueueIfNeed ip s = Some (word_of_int (getPayloadLen ip), s') \<and> sess_inv Other s'
     \<and> fwd_bytes s' = fwd_bytes s @ ip_payload ip (nat (getPayloadLen ip))
     \<and> fwd_size s' = fwd_size s + word_of_int (getPayloadLen ip)
     \<and> mForwardQueueDataSize s' = mForwardQueueDataSize s + word_of_int (getPayloadLen ip)
     \<and> tunnel_bytes s' = tunnel_bytes s \<and> mRemoteNext s' = mRemoteNext s \<and> mLocalNext s' = mLocalNext s"
proof -
  define l where "l = (word_of_int (getPayloadLen ip) :: size_t)"
  have ul: "unat l = nat (getPayloadLen ip)" using payload_len(1) [of ip] len by (simp add: l_def)
  have l0: "l \<noteq> 0" using ul len by (auto simp: unat_eq_0)
  define d where "d = (datagram_new l)\<lparr>mSeq := rel_seq ip s, mFlag := tcp_flags ip,
                       mChecksum := tcp_checksum ip, mLength := ucast l\<rparr>"
  have itr: "findNotSmaller d datagram_compare (mForwardQueue s) = length (mForwardQueue s)"
    using before by (intro findNotSmaller_end) (simp add: datagram_compare_def d_def)
  obtain d1 where d1: "seg_write (payload_bytes ip l) l d = Some (l, d1)"
      "seg_bytes d1 = ip_payload ip (nat (getPayloadLen ip))" "seg_size d1 = l"
    using enqueue_datagram [OF len l_def] unfolding d_def by blast
  define s2 where "s2 = s\<lparr>mForwardQueue := mForwardQueue s @ [d1],
                          mForwardQueueDataSize := mForwardQueueDataSize s + l\<rparr>"
  define s3 where "s3 = (if mForwardQueueDataSize s2 > 0 then emit T_requestSendData s2 else s2)"
  have eq: "enqueueIfNeed ip s = Some (l, s3)"
  proof -
    have "\<not> compare_u32 (rel_seq ip s) (mRemoteNext s) < 0" using seq by simp
    then show ?thesis using l0 itr d1
      unfolding enqueueIfNeed_def Let_def l_def [symmetric] d_def [symmetric]
      by (simp add: bq_insert_def s3_def s2_def)
  qed
  have "sess_inv Other s3"
    using enqueueIfNeed_safe [OF inv, of ip] len eq by (auto simp: safe_step_def)
  moreover have "rx s3 = rx s2" by (simp add: s3_def)
  moreover have "fwd_bytes s2 = fwd_bytes s @ ip_payload ip (nat (getPayloadLen ip))"
      "fwd_size s2 = fwd_size s + l"
    using d1 by (simp_all add: s2_def fwd_bytes_def fwd_size_def)
  ultimately show ?thesis using eq fwd_rx [of s3 s2]
    by (simp add: l_def [symmetric]) (simp add: s2_def)
qed

lemma rel_seq_frame: "mRemoteSeqBase s' = mRemoteSeqBase s \<Longrightarrow> rel_seq ip s' = rel_seq ip s"
  by (simp add: rel_seq_def)

text \<open>The SACK branch of an established connection does nothing.\<close>

lemma accept_established_plain:
  assumes "packet_ok ip"
  shows "accept_established ip s =
     do { (l, s2) \<leftarrow> enqueueIfNeed ip s;
          if sint l > 0
          then do { (n, s3) \<leftarrow> pushInBackQueue ACK [] (s2\<lparr>mRemoteNext := mRemoteNext s2 + l\<rparr>);
                    Some (True, s3) }
          else Some (False, s2) }"
proof -
  obtain sack where sack: "getOptionAddr ip (getHeaderLen ip) OPT_SACK = Some sack"
    using assms by (auto simp: packet_ok_def)
  then have "(if mSack s
                then do { sack \<leftarrow> getOptionAddr ip (getHeaderLen ip) OPT_SACK;
                          (case sack of None \<Rightarrow> Some s | Some p \<Rightarrow> onSack ip p s) }
                else Some s) = Some s"
    using onSack_nothing by (auto split: option.splits)
  then show ?thesis by (simp add: accept_established_def)
qed

lemma sint_len_pos:
  assumes "0 < getPayloadLen ip"
  shows "0 < sint (word_of_int (getPayloadLen ip) :: u32)"
proof -
  define l where "l = (word_of_int (getPayloadLen ip) :: u32)"
  have ul: "unat l = nat (getPayloadLen ip)" "nat (getPayloadLen ip) \<le> 65535"
    using payload_len [of ip] assms by (simp_all add: l_def)
  have "int (unat l) = uint l" by simp
  then have "uint l = getPayloadLen ip" "uint l \<le> 65535" using ul assms by linarith+
  then have "uint l = getPayloadLen ip" "uint l < 2 ^ 31" by simp_all
  then show ?thesis using sint_small [of l] assms by (simp add: l_def)
qed

lemma accept_established_in_order:
  assumes inv: "sess_inv Other s" and ip: "packet_ok ip" and len: "0 < getPayloadLen ip"
    and seq: "rel_seq ip s = mRemoteNext s"
    and before: "\<forall>d \<in> set (mForwardQueue s). 0 < sint (rel_seq ip s - mSeq d)"
  shows "\<exists>s'. accept_established ip s = Some (True, s') \<and> sess_inv Other s'
     \<and> fwd_bytes s' = fwd_bytes s @ ip_payload ip (nat (getPayloadLen ip))
     \<and> mForwardQueueDataSize s' - fwd_size s' = mForwardQueueDataSize s - fwd_size s
     \<and> tunnel_bytes s' = tunnel_bytes s \<and> mLocalNext s' = mLocalNext s
     \<and> mRemoteNext s' = mRemoteNext s + word_of_int (getPayloadLen ip)"
proof -
  define l where "l = (word_of_int (getPayloadLen ip) :: u32)"
  obtain s2 where s2: "enqueueIfNeed ip s = Some (l, s2)" "sess_inv Other s2"
     "fwd_bytes s2 = fwd_bytes s @ ip_payload ip (nat (getPayloadLen ip))"
     "fwd_size s2 = fwd_size s + l" "mForwardQueueDataSize s2 = mForwardQueueDataSize s + l"
     "tunnel_bytes s2 = tunnel_bytes s" "mRemoteNext s2 = mRemoteNext s" "mLocalNext s2 = mLocalNext s"
    using enqueue_in_order [OF inv len seq before] unfolding l_def by blast
  define s3 where "s3 = s2\<lparr>mRemoteNext := mRemoteNext s2 + l\<rparr>"
  have inv3: "sess_inv Other s3"
    by (rule sess_inv_core [THEN iffD2, OF _ s2(2)]) (simp add: s3_def sess_core_def)
  obtain n s4 where s4: "pushInBackQueue ACK [] s3 = Some (n, s4)"
    using pushInBackQueue_step [OF inv3, of "[]" ACK] by auto
  have r: "rx s4 = rx s3" "sess_inv Other s4" using push_rx [OF inv3 _ s4] by simp_all
  have "sint l > 0" using sint_len_pos [OF len] by (simp add: l_def)
  then have "accept_established ip s = Some (True, s4)"
    using s2(1) s4 by (simp add: accept_established_plain [OF ip] s3_def)
  moreover have "fwd_bytes s3 = fwd_bytes s2" "fwd_size s3 = fwd_size s2"
    by (simp_all add: s3_def fwd_bytes_def fwd_size_def)
  ultimately show ?thesis using fwd_rx [OF r(1)] r(2) s2
    by (intro exI [of _ s4]) (simp add: l_def [symmetric], simp add: s3_def)
qed

section \<open>Receiving in order\<close>

text \<open>The part of the session the receiving side reads.\<close>

lemma recv_frame:
  assumes "mForwardQueue s' = mForwardQueue s" "mForwardQueueDataSize s' = mForwardQueueDataSize s"
    "mRemoteNext s' = mRemoteNext s" "mRemoteSeqBase s' = mRemoteSeqBase s" "tunnel_bytes s' = tunnel_bytes s"
  shows "fwd_bytes s' = fwd_bytes s" "fwd_size s' = fwd_size s" "rel_seq ip s' = rel_seq ip s"
  using assms by (simp_all add: fwd_bytes_def fwd_size_def rel_seq_def)

lemma accept_segment_in_order:
  assumes inv: "sess_inv Other s" and ip: "packet_ok ip" and len: "0 < getPayloadLen ip"
    and seq: "rel_seq ip s = mRemoteNext s"
    and before: "\<forall>d \<in> set (mForwardQueue s). 0 < sint (rel_seq ip s - mSeq d)"
    and est: "mState s = ESTABLISHED" and ack: "mLocalNext s \<le> ack"
  shows "\<exists>s'. accept_segment ip ack s = Some s' \<and> sess_inv Other s'
     \<and> fwd_bytes s' = fwd_bytes s @ ip_payload ip (nat (getPayloadLen ip))
     \<and> mForwardQueueDataSize s' - fwd_size s' = mForwardQueueDataSize s - fwd_size s
     \<and> tunnel_bytes s' = tunnel_bytes s \<and> mLocalNext s' = ack
     \<and> mRemoteNext s' = mRemoteNext s + word_of_int (getPayloadLen ip)"
proof -
  obtain w where w: "shl32 (ucast (tcp_window ip)) (mWindowScale s) = Some w" using shl32_scale [OF inv] by blast
  define s1 where "s1 = s\<lparr>mSendWindow := w\<rparr>"
  define s2 where "s2 = s1\<lparr>mLocalNext := ack\<rparr>"
  have "sess_core s2 = sess_core s" by (simp add: s2_def s1_def sess_core_def)
  then have inv2: "sess_inv Other s2" using inv sess_inv_core by blast
  have same: "mForwardQueue s2 = mForwardQueue s" "mForwardQueueDataSize s2 = mForwardQueueDataSize s"
    "mRemoteNext s2 = mRemoteNext s" "mRemoteSeqBase s2 = mRemoteSeqBase s" "tunnel_bytes s2 = tunnel_bytes s"
    "mState s2 = ESTABLISHED" "mLocalNext s2 = ack" "mLocalNext s1 = mLocalNext s"
    using est by (simp_all add: s2_def s1_def)
  note fr = recv_frame [OF same(1-5)]
  have seq2: "rel_seq ip s2 = mRemoteNext s2" using seq by (simp add: fr same)
  have before2: "\<forall>d \<in> set (mForwardQueue s2). 0 < sint (rel_seq ip s2 - mSeq d)"
    using before by (simp only: fr same)
  obtain s' where s': "accept_established ip s2 = Some (True, s')" "sess_inv Other s'"
     "fwd_bytes s' = fwd_bytes s2 @ ip_payload ip (nat (getPayloadLen ip))"
     "mForwardQueueDataSize s' - fwd_size s' = mForwardQueueDataSize s2 - fwd_size s2"
     "tunnel_bytes s' = tunnel_bytes s2" "mLocalNext s' = mLocalNext s2"
     "mRemoteNext s' = mRemoteNext s2 + word_of_int (getPayloadLen ip)"
    using accept_established_in_order [OF inv2 ip len seq2 before2] by blast
  have "accept_segment ip ack s = Some s'"
    using ack same s'(1) unfolding accept_segment_mid [OF w] Let_def s1_def [symmetric] s2_def [symmetric]
    by (simp add: segment_mid_def)
  then show ?thesis using s' by (simp add: fr same)
qed

text \<open>
  Claim C4. In-order delivery. When an established session accepts a data segment that starts at the
  expected sequence number, it queues exactly the payload behind everything already queued,
  moves the number it will acknowledge by exactly the payload's length, and keeps the byte
  count of the queue exact.
\<close>

theorem accept_in_order:
  assumes "sess_inv Other s" "packet_ok ip" "0 < getPayloadLen ip" "rel_seq ip s = mRemoteNext s"
    "\<forall>d \<in> set (mForwardQueue s). 0 < sint (rel_seq ip s - mSeq d)"
    "mState s = ESTABLISHED" "mLocalNext s \<le> rel_ack ip s" "tcp_flags ip AND (SYN OR FIN OR RST) = 0"
  shows "\<exists>s'. accept ip now rnd s = Some s'
     \<and> fwd_bytes s' = fwd_bytes s @ ip_payload ip (nat (getPayloadLen ip))
     \<and> mForwardQueueDataSize s' - fwd_size s' = mForwardQueueDataSize s - fwd_size s
     \<and> tunnel_bytes s' = tunnel_bytes s \<and> mLocalNext s' = rel_ack ip s
     \<and> mRemoteNext s' = mRemoteNext s + word_of_int (getPayloadLen ip)"
proof -
  define s1 where "s1 = s\<lparr>mTotalAccept := mTotalAccept s + word_of_int (getPayloadLen ip)\<rparr>"
  define s2 where "s2 = (if (mCtrlType s1 AND CTRL_CAPTURE) \<noteq> 0
                then s1\<lparr>captured := captured s1 @ [map ip [0..<unat (getTTLEN ip)]]\<rparr> else s1)"
  define s3 where "s3 = emit (CONN_TRAFFIC_ACCEPT (rel_seq ip s) (rel_ack ip s) (word_of_int (getPayloadLen ip))) s2"
  have "sess_core s3 = sess_core s" by (simp add: s3_def s2_def s1_def sess_core_def emit_def)
  then have inv3: "sess_inv Other s3" using assms(1) sess_inv_core by blast
  have same: "mForwardQueue s3 = mForwardQueue s" "mForwardQueueDataSize s3 = mForwardQueueDataSize s"
    "mRemoteNext s3 = mRemoteNext s" "mRemoteSeqBase s3 = mRemoteSeqBase s" "tunnel_bytes s3 = tunnel_bytes s"
    "mState s3 = mState s" "mLocalNext s3 = mLocalNext s"
    by (simp_all add: s3_def s2_def s1_def emit_def)
  note fr = recv_frame [OF same(1-5)]
  have prem: "rel_seq ip s3 = mRemoteNext s3" "\<forall>d \<in> set (mForwardQueue s3). 0 < sint (rel_seq ip s3 - mSeq d)"
      "mState s3 = ESTABLISHED" "mLocalNext s3 \<le> rel_ack ip s"
    using assms by (simp_all only: fr same)
  obtain s' where s': "accept_segment ip (rel_ack ip s) s3 = Some s'" "sess_inv Other s'"
     "fwd_bytes s' = fwd_bytes s3 @ ip_payload ip (nat (getPayloadLen ip))"
     "mForwardQueueDataSize s' - fwd_size s' = mForwardQueueDataSize s3 - fwd_size s3"
     "tunnel_bytes s' = tunnel_bytes s3" "mLocalNext s' = rel_ack ip s"
     "mRemoteNext s' = mRemoteNext s3 + word_of_int (getPayloadLen ip)"
    using accept_segment_in_order [OF inv3 assms(2,3) prem] by blast
  have "tcp_flags ip AND SYN = 0 \<and> tcp_flags ip AND FIN = 0 \<and> tcp_flags ip AND RST = 0"
    using assms(8) by (simp add: bit.conj_disj_distrib or_eq_0_iff)
  then have "accept ip now rnd s = Some (s'\<lparr>mLastTime := now\<rparr>)"
    using s'(1) unfolding accept_def Let_def s1_def [symmetric] s2_def [symmetric] s3_def [symmetric] by simp
  moreover have "fwd_bytes (s'\<lparr>mLastTime := now\<rparr>) = fwd_bytes s'" "fwd_size (s'\<lparr>mLastTime := now\<rparr>) = fwd_size s'"
    by (simp_all add: fwd_bytes_def fwd_size_def)
  ultimately show ?thesis using s' by (intro exI [of _ "s'\<lparr>mLastTime := now\<rparr>"]) (simp add: fr same)
qed

text \<open>An established session, and a segment of two bytes with sequence number 5.\<close>

definition sample_est :: session where
  "sample_est = sample_session\<lparr>mState := ESTABLISHED, mRemoteNext := 5\<rparr>"

definition sample_data :: packet where
  "sample_data = mem_of ([0x45, 0, 0, 42] @ replicate 5 0 @ [6] @ replicate 14 0
     @ [0, 0, 0, 5, 0, 0, 0, 1, 0x50, 0x10] @ replicate 6 0 @ [7, 8])"

lemma sample_est_fields [simp]:
  "mForwardQueue sample_est = []" "mRemoteNext sample_est = 5" "mRemoteSeqBase sample_est = 0"
  "mLocalNext sample_est = 0" "mLocalSeqBase sample_est = 0" "mState sample_est = ESTABLISHED"
  by (simp_all add: sample_est_def sample_session_def sample_birth_def)

lemma sample_est_inv: "sess_inv {} sample_est"
  by (rule sess_inv_core [THEN iffD2, of _ sample_session])
    (simp_all add: sample_est_def sess_core_def sample_session_inv)

lemma sample_data_fields:
  "getHeaderLen sample_data = 20" "tcp_dataoff sample_data 20 = 5" "getProtocol sample_data = 6"
  "getTTLEN sample_data = 42" "tcp_seq sample_data = 5" "tcp_ack_seq sample_data = 1"
  "tcp_flags sample_data = 16"
  by (simp_all add: sample_data_def getHeaderLen_def tcp_dataoff_def getProtocol_def getTTLEN_def
      mem_of_def nth_append ld16_def ld32_def le16_def swap16_def swap32_def tcp_seq_def tcp_ack_seq_def
      tcp_flags_def)

lemma sample_data_len: "getPayloadLen sample_data = 2"
  by (simp add: sample_data_fields getPayloadLen_def getPayloadOffset_def PROTO_TCP_def PROTO_UDP_def
      getTCPHeaderLen_def)

lemma sample_data_ok: "packet_ok sample_data"
proof -
  have "getOptionAddr sample_data 20 k = Some None" for k
    by (simp add: getOptionAddr_def sample_data_fields option_loop.simps)
  then show ?thesis by (simp add: packet_ok_def sample_data_fields sample_data_len)
qed

theorem accept_in_order_witness:
  "\<exists>s'. accept sample_data 3 4 sample_est = Some s'
     \<and> fwd_bytes s' = fwd_bytes sample_est @ ip_payload sample_data (nat (getPayloadLen sample_data))
     \<and> mForwardQueueDataSize s' - fwd_size s' = mForwardQueueDataSize sample_est - fwd_size sample_est
     \<and> tunnel_bytes s' = tunnel_bytes sample_est \<and> mLocalNext s' = rel_ack sample_data sample_est
     \<and> mRemoteNext s' = mRemoteNext sample_est + word_of_int (getPayloadLen sample_data)"
  by (rule accept_in_order [OF sample_est_inv sample_data_ok])
    (simp_all add: sample_data_len rel_seq_def rel_ack_def sample_data_fields TCP_RELATIVE_SEQ_def flag_defs)

section \<open>Handing the bytes to the tunnel\<close>

lemma onTunnelDisconnected_rx:
  assumes inv: "sess_inv Other s" and a: "onTunnelDisconnected s = Some s'"
  shows "mForwardQueue s' = mForwardQueue s \<and> mForwardQueueDataSize s' = mForwardQueueDataSize s
     \<and> tunnel_bytes s' = tunnel_bytes s"
proof -
  have "sess_inv Other (s\<lparr>mRemoteFinished := True\<rparr>)"
    by (rule sess_inv_core [THEN iffD2, OF _ inv]) (simp add: sess_core_def)
  then have fl: "rx s1 = rx (s\<lparr>mRemoteFinished := True\<rparr>)" if "flushBackQueue (s\<lparr>mRemoteFinished := True\<rparr>) = Some (n, s1)" for n s1
    using flush_rx [OF _ that] by blast
  have rs: "rx s1 = rx s" if "resetConnection s = Some (n, s1)" for n s1
    using resetConnection_step [OF inv] that by (auto simp: back_step_def)
  show ?thesis
  proof (cases "mState s \<in> {CLOSE_WAIT, ESTABLISHED}")
    case True
    then obtain n where "flushBackQueue (s\<lparr>mRemoteFinished := True\<rparr>) = Some (n, s')"
      using a by (auto simp: onTunnelDisconnected_def onRemoteFinished_def)
    then show ?thesis using fl by (simp add: rx_def)
  next
    case False
    then have "s' = switchState CLOSED s \<or> (\<exists>n. resetConnection s = Some (n, s'))"
      using a by (auto simp: onTunnelDisconnected_def split: if_splits)
    then have "rx s' = rx s" using rs by auto
    then show ?thesis by (simp add: rx_def)
  qed
qed

lemma seg_size_consume:
  assumes "seg_inv d" "0 < n" "n \<le> int (length (seg_bytes d))"
  shows "seg_bytes (seg_consume (word_of_int n) d) = drop (nat n) (seg_bytes d)"
    "seg_size (seg_consume (word_of_int n) d) + word_of_int n = seg_size d"
proof -
  have len: "unat (seg_size d) = length (seg_bytes d)" using assms(1) by (rule seg_size_bytes)
  have "int (unat (seg_size d)) = uint (seg_size d)" by simp
  then have le: "n \<le> uint (seg_size d)" using assms(3) len by linarith
  show b: "seg_bytes (seg_consume (word_of_int n) d) = drop (nat n) (seg_bytes d)"
    by (rule consume_part [OF assms(1,2) le])
  have small: "length (seg_bytes d) \<le> 524288" using seg_bytes_le [OF assms(1)] by simp
  have un: "unat (word_of_int n :: u32) = nat n"
  proof -
    have "unat (word_of_nat (nat n) :: u32) = nat n" using assms(3) small by (intro unat_word_of_nat) simp
    then show ?thesis using assms(2) by (metis int_nat_eq of_int_of_nat_eq order_less_le)
  qed
  have "unat (seg_size (seg_consume (word_of_int n) d)) = length (seg_bytes d) - nat n"
    using seg_size_bytes [OF seg_consume_inv [OF assms(1)], of "word_of_int n"] b by simp
  then have "unat (seg_size (seg_consume (word_of_int n) d)) + unat (word_of_int n :: u32) = unat (seg_size d)"
    using un len assms(2,3) by linarith
  then show "seg_size (seg_consume (word_of_int n) d) + word_of_int n = seg_size d"
    using len small by (simp add: word_unat_eq_iff unat_add_small)
qed

lemma sendData_cases:
  assumes inv: "sess_inv Other s" and a: "TCPTunnel_sendData k data md s = Some (n, s')"
  shows "sess_inv Other s' \<and> mForwardQueue s' = mForwardQueue s
     \<and> mForwardQueueDataSize s' = mForwardQueueDataSize s \<and> n \<le> int (length data)
     \<and> tunnel_bytes s' = tunnel_bytes s @ (if n \<le> 0 then [] else take (nat n) data)"
proof -
  have bound: "sess_inv Other s'" "n \<le> int (length data)"
    using TCPTunnel_sendData_safe [OF inv, of k data md] a by (auto simp: safe_step_def)
  define s1 where "s1 = emit T_destroyTunnel (s\<lparr>tunAlive := False\<rparr>)"
  have inv1: "sess_inv Other s1"
    by (rule sess_inv_core [THEN iffD2, OF _ inv]) (simp add: s1_def sess_core_def emit_def)
  consider "\<not> tunAlive s" | "tunAlive s" "k < 0" | "tunAlive s" "k \<ge> 0" by linarith
  then show ?thesis
  proof cases
    case 1
    then show ?thesis using a bound by (simp add: TCPTunnel_sendData_def)
  next
    case 2
    then have "onTunnelDisconnected s1 = Some s'" "n = k"
      using a by (auto simp: TCPTunnel_sendData_def s1_def split: bind_splits)
    then show ?thesis using onTunnelDisconnected_rx [OF inv1] bound 2
      by (simp add: s1_def emit_def)
  next
    case 3
    then show ?thesis using a bound by (auto simp: TCPTunnel_sendData_def Let_def emit_def)
  qed
qed

text \<open>What a piece of the loop keeps: the stream of bytes and both counts.\<close>

definition stream_kept :: "size_t \<Rightarrow> session \<Rightarrow> size_t \<Rightarrow> session \<Rightarrow> bool" where
  "stream_kept sent s k s' \<longleftrightarrow>
     tunnel_bytes s' @ fwd_bytes s' = tunnel_bytes s @ fwd_bytes s \<and> fwd_size s' + k = fwd_size s + sent
     \<and> mForwardQueueDataSize s' = mForwardQueueDataSize s"

lemma stream_kept_trans: "stream_kept n s m s1 \<Longrightarrow> stream_kept m s1 k s2 \<Longrightarrow> stream_kept n s k s2"
  by (simp add: stream_kept_def)

text \<open>One round: the tunnel takes nothing and the loop ends, or the taken bytes leave the front datagram.\<close>

lemma forward_loop_one:
  assumes inv: "sess_inv Other s" and q: "mForwardQueue s = d # ds" and loop: "forward_loop (a # ks) sent s = Some (k, s')"
  shows "stream_kept sent s k s' \<or> (\<exists>m s2. forward_loop ks m s2 = Some (k, s') \<and> sess_inv Other s2 \<and> stream_kept sent s m s2)"
proof -
  have dq: "seg_inv d" "mData d \<noteq> None" "\<forall>e \<in> set ds. seg_inv e \<and> mData e \<noteq> None"
    using inv q by (simp_all add: sess_inv_def)
  obtain n s1 where s1: "TCPTunnel_sendData a (seg_bytes d) (\<not> hasFlag d PSH) s = Some (n, s1)"
    using TCPTunnel_sendData_safe [OF inv] by blast
  note c = sendData_cases [OF inv s1]
  show ?thesis
  proof (cases "n \<le> 0")
    case True
    then have "s' = s1" "k = sent" using loop q s1 by (simp_all add: forward_loop.simps [of "a # ks"])
    then show ?thesis using c True by (simp add: stream_kept_def fwd_bytes_def fwd_size_def)
  next
    case False
    define d1 where "d1 = seg_consume (word_of_int n) d"
    have n: "0 < n" "n \<le> int (length (seg_bytes d))" using False c by simp_all
    note sc = seg_size_consume [OF dq(1) n, folded d1_def]
    define q' where "q' = (if seg_size d1 \<le> 0 then ds else d1 # ds)"
    have d1ok: "seg_inv d1" "mData d1 \<noteq> None" "seg_delete_ok d1"
      using dq by (simp_all add: d1_def seg_consume_inv seg_simps seg_delete_ok_def)
    have ok: "\<forall>e \<in> set q'. seg_inv e \<and> mData e \<noteq> None" using dq d1ok by (simp add: q'_def)
    define s2 where "s2 = s1\<lparr>mForwardQueue := q'\<rparr>"
    have inv2: "sess_inv Other s2"
      unfolding s2_def using sess_inv_forward [OF _ ok] c by (simp add: safe_step_def)
    have "forward_loop ks (sent + word_of_int n) s2 = Some (k, s')"
      using loop q s1 False d1ok
      by (simp add: forward_loop.simps [of "a # ks"] Let_def d1_def [symmetric] s2_def q'_def split: if_splits)
    then have rec: "forward_loop ks (sent + word_of_int n) s2 = Some (k, s') \<and> sess_inv Other s2" using inv2 by blast
    have empty: "seg_bytes d1 = []" if "seg_size d1 \<le> 0" using that seg_size_pos [OF d1ok(1)] by auto
    have "tunnel_bytes s2 @ fwd_bytes s2 = tunnel_bytes s @ fwd_bytes s"
      using c False q empty sc(1) by (auto simp: s2_def fwd_bytes_def q'_def)
    moreover have "fwd_size s2 + word_of_int n = fwd_size s"
      using sc(2) q by (auto simp: s2_def fwd_size_def q'_def algebra_simps)
    moreover have "mForwardQueueDataSize s2 = mForwardQueueDataSize s" using c by (simp add: s2_def)
    ultimately have "stream_kept sent s (sent + word_of_int n) s2"
      unfolding stream_kept_def by (metis add.assoc add.commute)
    with rec show ?thesis by blast
  qed
qed

lemma forward_loop_kept:
  "sess_inv Other s \<Longrightarrow> forward_loop ks sent s = Some (k, s') \<Longrightarrow> stream_kept sent s k s'"
proof (induction ks arbitrary: sent s)
  case Nil
  show ?case
  proof (cases "mForwardQueue s")
    case empty: Nil
    then show ?thesis using Nil(2) by (simp add: forward_loop.simps stream_kept_def)
  next
    case (Cons d ds)
    then obtain n where "TCPTunnel_sendData (-1) (seg_bytes d) (\<not> hasFlag d PSH) s = Some (n, s')" "k = sent"
      using Nil(2) by (auto simp: forward_loop.simps)
    moreover from this(1) have "n \<le> 0" by (auto simp: TCPTunnel_sendData_def split: if_splits bind_splits)
    ultimately show ?thesis using sendData_cases [OF Nil(1)] by (simp add: stream_kept_def fwd_bytes_def fwd_size_def)
  qed
next
  case (Cons a ks)
  show ?case
  proof (cases "mForwardQueue s")
    case Nil
    then show ?thesis using Cons.prems(2) by (simp add: forward_loop.simps stream_kept_def)
  next
    case (Cons d ds)
    from forward_loop_one [OF Cons.prems(1) this Cons.prems(2)] show ?thesis
      using Cons.IH stream_kept_trans by blast
  qed
qed

lemmas forward_loop_stream = forward_loop_kept [unfolded stream_kept_def]

lemma word_move: "a + k = (b :: size_t) \<Longrightarrow> f - k - a = f - b"
  by (simp add: diff_diff_add add.commute)

text \<open>
  Claim C5. The forward stream is intact. Whatever the socket accepts, a writable event moves bytes from
  the front of the queue to the tunnel and nothing else: bytes handed over followed by bytes still
  queued is the same sequence as before, even when an error tears the tunnel down half-way, and the byte
  count stays exact.
\<close>

theorem forward_stream_intact:
  assumes "sess_inv Other s" "onTunnelWritable ks s = Some (n, s')"
  shows "tunnel_bytes s' @ fwd_bytes s' = tunnel_bytes s @ fwd_bytes s
    \<and> mForwardQueueDataSize s' - fwd_size s' = mForwardQueueDataSize s - fwd_size s"
proof (cases "mForwardQueue s = []")
  case True
  then show ?thesis using assms(2) by (auto simp: onTunnelWritable_def emit_def fwd_bytes_def fwd_size_def)
next
  case False
  obtain k s1 where s1: "forward_loop ks 0 s = Some (k, s1)"
    using assms(2) False by (auto simp: onTunnelWritable_def split: bind_splits)
  note st = forward_loop_stream [OF assms(1) s1]
  have s': "s' = (if k > 0 then emit (CONN_TRAFFIC_SENT k)
        (s1\<lparr>mTotalSent := mTotalSent s1 + k, mForwardQueueDataSize := mForwardQueueDataSize s1 - k\<rparr>)
      else emit T_pauseSendData s1)"
    using assms(2) False s1 by (auto simp: onTunnelWritable_def)
  have "mForwardQueueDataSize s' = mForwardQueueDataSize s1 - k"
    by (cases "k > 0") (simp_all add: s' emit_def word_gt_0)
  moreover have "fwd_bytes s' = fwd_bytes s1" "fwd_size s' = fwd_size s1" "tunnel_bytes s' = tunnel_bytes s1"
    by (cases "k > 0"; simp add: s' emit_def fwd_bytes_def fwd_size_def)+
  moreover have "mForwardQueueDataSize s1 - k - fwd_size s1 = mForwardQueueDataSize s - fwd_size s"
    using word_move [of "fwd_size s1" k "fwd_size s" "mForwardQueueDataSize s"] st by simp
  ultimately show ?thesis using st by simp
qed

text \<open>An established session after two bytes from the application.\<close>

definition sample_fwd :: session where
  "sample_fwd = the (accept sample_data 3 4 sample_est)"

lemma sample_fwd_inv: "sess_inv {} sample_fwd"
proof -
  have "\<not> accept_bad sample_data sample_est" "0 \<le> getPayloadLen sample_data"
    using sample_data_ok by (simp_all add: accept_bad_def sack_bad_def packet_ok_def sample_data_fields flag_defs)
  then show ?thesis
    using accept_cases [OF sample_est_inv, of sample_data 3 4] by (auto simp: sample_fwd_def safe_step_def)
qed

theorem forward_stream_intact_witness:
  "let s' = snd (the (onTunnelWritable [1, 1] sample_fwd)) in
    tunnel_bytes s' @ fwd_bytes s' = tunnel_bytes sample_fwd @ fwd_bytes sample_fwd
    \<and> mForwardQueueDataSize s' - fwd_size s' = mForwardQueueDataSize sample_fwd - fwd_size sample_fwd"
proof -
  obtain n s' where "onTunnelWritable [1, 1] sample_fwd = Some (n, s')"
    using onTunnelWritable_safe [OF sample_fwd_inv] by blast
  then show ?thesis using forward_stream_intact [OF sample_fwd_inv] by simp
qed

section \<open>Where the data path loses bytes\<close>

text \<open>
  A FIN segment's payload is lost. Whatever data it carries, the session queues none of it and
  acknowledges its first sequence number plus one.
\<close>

theorem fin_payload_lost:
  assumes "sess_inv Other s" "tcp_flags ip AND SYN = 0" "tcp_flags ip AND FIN \<noteq> 0"
    "accept ip now rnd s = Some s'"
  shows "mForwardQueue s' = mForwardQueue s \<and> tunnel_bytes s' = tunnel_bytes s
    \<and> mRemoteNext s' = rel_seq ip s + 1"
proof -
  define s1 where "s1 = s\<lparr>mTotalAccept := mTotalAccept s + word_of_int (getPayloadLen ip)\<rparr>"
  define s2 where "s2 = (if (mCtrlType s1 AND CTRL_CAPTURE) \<noteq> 0
                then s1\<lparr>captured := captured s1 @ [map ip [0..<unat (getTTLEN ip)]]\<rparr> else s1)"
  define s3 where "s3 = emit (CONN_TRAFFIC_ACCEPT (rel_seq ip s) (rel_ack ip s) (word_of_int (getPayloadLen ip))) s2"
  have "sess_core s3 = sess_core s" by (simp add: s3_def s2_def s1_def sess_core_def emit_def)
  then have inv3: "sess_inv Other s3" using assms(1) sess_inv_core by blast
  have same: "mForwardQueue s3 = mForwardQueue s" "tunnel_bytes s3 = tunnel_bytes s" "rel_seq ip s3 = rel_seq ip s"
    by (simp_all add: s3_def s2_def s1_def emit_def rel_seq_def)
  define t1 where "t1 = (if mLocalNext s3 \<le> rel_ack ip s3 then s3\<lparr>mLocalNext := rel_ack ip s3\<rparr> else s3)"
  define t2 where "t2 = t1\<lparr>mRemoteNext := rel_seq ip s3 + 1\<rparr>"
  obtain s4 where s4: "onReceiveFIN ip s3 = Some s4" "s' = s4\<lparr>mLastTime := now\<rparr>"
    using assms(2-4) unfolding accept_def Let_def s1_def [symmetric] s2_def [symmetric] s3_def [symmetric]
    by (auto split: bind_splits)
  have inv2: "sess_inv Other t2"
    by (rule sess_inv_core [THEN iffD2, OF _ inv3]) (simp add: t2_def t1_def sess_core_def)
  obtain n t3 where t3: "pushInBackQueue ACK [] t2 = Some (n, t3)" and s4': "rx s4 = rx t3"
    using s4(1) unfolding onReceiveFIN_def Let_def t1_def [symmetric] t2_def [symmetric]
    by (auto split: bind_splits if_splits)
  have "rx s4 = rx t2" using s4' push_rx [OF inv2 _ t3] by simp
  then show ?thesis using s4(2) same by (simp add: rx_def t2_def t1_def split: if_splits)
qed

theorem fin_payload_lost_witness:
  "let ip = (\<lambda>i. if i = 33 then 0x11 else sample_data i); s' = the (accept ip 3 4 sample_est) in
    mForwardQueue s' = mForwardQueue sample_est \<and> tunnel_bytes s' = tunnel_bytes sample_est
    \<and> mRemoteNext s' = rel_seq ip sample_est + 1"
proof -
  define ip where "ip = (\<lambda>i. if i = 33 then 0x11 else sample_data i)"
  have h: "getHeaderLen ip = 20" using sample_data_fields(1) by (simp add: getHeaderLen_def ip_def)
  have f: "tcp_flags ip = 17" unfolding tcp_flags_def h by (simp add: ip_def)
  have fl: "tcp_flags ip AND SYN = 0" "tcp_flags ip AND FIN \<noteq> 0" by (simp_all add: f flag_defs)
  have inv3: "sess_inv {} (emit (CONN_TRAFFIC_ACCEPT (rel_seq ip sample_est) (rel_ack ip sample_est)
      (word_of_int (getPayloadLen ip))) (sample_est\<lparr>mTotalAccept := mTotalAccept sample_est + word_of_int (getPayloadLen ip)\<rparr>))"
    by (rule sess_inv_core [THEN iffD2, OF _ sample_est_inv]) (simp add: sess_core_def emit_def)
  obtain s4 where "onReceiveFIN ip (emit (CONN_TRAFFIC_ACCEPT (rel_seq ip sample_est) (rel_ack ip sample_est)
      (word_of_int (getPayloadLen ip))) (sample_est\<lparr>mTotalAccept := mTotalAccept sample_est + word_of_int (getPayloadLen ip)\<rparr>))
      = Some s4"
    using onReceiveFIN_safe [OF inv3, of ip] by (auto simp: safe_step_def)
  moreover have "mCtrlType sample_est = 0"
    by (simp add: sample_est_def sample_session_def sample_birth_def)
  ultimately obtain s' where s': "accept ip 3 4 sample_est = Some s'"
    using fl by (simp add: accept_def Let_def)
  then show ?thesis
    using fin_payload_lost [OF sample_est_inv fl s'] by (simp add: ip_def [symmetric])
qed

text \<open>A packet behind the expected number is acknowledged and dropped.\<close>

lemma accept_established_behind:
  assumes inv: "sess_inv Other s" and ip: "packet_ok ip" and len: "0 < getPayloadLen ip"
    and old: "compare_u32 (rel_seq ip s) (mRemoteNext s) < 0"
  shows "\<exists>s'. accept_established ip s = Some (False, s') \<and> rx s' = rx s"
proof -
  have "(word_of_int (getPayloadLen ip) :: u32) \<noteq> 0" using sint_len_pos [OF len] by auto
  moreover obtain n s1 where s1: "pushInBackQueue ACK [] s = Some (n, s1)"
    using pushInBackQueue_step [OF inv, of "[]" ACK] by auto
  ultimately have "enqueueIfNeed ip s = Some (0, s1)" using old by (simp add: enqueueIfNeed_def Let_def)
  then show ?thesis using push_rx [OF inv _ s1] by (simp add: accept_established_plain [OF ip])
qed

text \<open>A new packet in front of it moves the number on by its own length.\<close>

lemma accept_established_ahead:
  assumes inv: "sess_inv Other s" and ip: "packet_ok ip" and len: "0 < getPayloadLen ip"
    and new: "\<not> compare_u32 (rel_seq ip s) (mRemoteNext s) < 0"
    and fresh: "\<forall>d \<in> set (mForwardQueue s). mSeq d \<noteq> rel_seq ip s"
  shows "\<exists>s'. accept_established ip s = Some (True, s') \<and> sess_inv Other s'
     \<and> mRemoteNext s' = mRemoteNext s + word_of_int (getPayloadLen ip) \<and> mRemoteSeqBase s' = mRemoteSeqBase s"
proof -
  define l where "l = (word_of_int (getPayloadLen ip) :: size_t)"
  have pos: "sint l > 0" using sint_len_pos [OF len] by (simp add: l_def)
  then have l0: "l \<noteq> 0" by auto
  define d where "d = (datagram_new l)\<lparr>mSeq := rel_seq ip s, mFlag := tcp_flags ip,
                       mChecksum := tcp_checksum ip, mLength := ucast l\<rparr>"
  define itr where "itr = findNotSmaller d datagram_compare (mForwardQueue s)"
  have nodup: "\<not> (itr < length (mForwardQueue s) \<and> mSeq (mForwardQueue s ! itr) = mSeq d)"
    using fresh by (auto simp: d_def)
  obtain d1 where d1: "seg_write (payload_bytes ip l) l d = Some (l, d1)" "seg_size d1 = l"
    using enqueue_datagram [OF len l_def] unfolding d_def by blast
  define s2 where "s2 = s\<lparr>mForwardQueue := bq_insert itr d1 (mForwardQueue s),
                          mForwardQueueDataSize := mForwardQueueDataSize s + l\<rparr>"
  define s3 where "s3 = (if mForwardQueueDataSize s2 > 0 then emit T_requestSendData s2 else s2)"
  have eq: "enqueueIfNeed ip s = Some (l, s3)"
    using l0 new nodup d1
    unfolding enqueueIfNeed_def Let_def l_def [symmetric] d_def [symmetric] itr_def [symmetric]
    by (simp add: s3_def s2_def)
  have inv3: "sess_inv Other s3" using enqueueIfNeed_safe [OF inv, of ip] len eq by (auto simp: safe_step_def)
  define s4 where "s4 = s3\<lparr>mRemoteNext := mRemoteNext s3 + l\<rparr>"
  have inv4: "sess_inv Other s4"
    by (rule sess_inv_core [THEN iffD2, OF _ inv3]) (simp add: s4_def sess_core_def)
  obtain n s5 where s5: "pushInBackQueue ACK [] s4 = Some (n, s5)"
    using pushInBackQueue_step [OF inv4, of "[]" ACK] by auto
  have r: "rx s5 = rx s4" "sess_inv Other s5" using push_rx [OF inv4 _ s5] by simp_all
  have "rx s3 = rx s2" by (simp add: s3_def)
  then have "mRemoteNext s3 = mRemoteNext s" "mRemoteSeqBase s3 = mRemoteSeqBase s" using fwd_rx [of s3 s2] by (simp_all add: s2_def)
  then have "mRemoteNext s5 = mRemoteNext s + l" "mRemoteSeqBase s5 = mRemoteSeqBase s"
    using fwd_rx [OF r(1)] by (simp_all add: s4_def)
  moreover have "accept_established ip s = Some (True, s5)"
    using eq pos s5 by (simp add: accept_established_plain [OF ip] s4_def)
  ultimately show ?thesis using r(2) by (simp add: l_def)
qed

text \<open>
  Claim C14. Reordering loses data. If a segment beyond the expected one arrives first at an established session (its relative
  number below 2 to the 30, so that nothing wraps around, and not one that is queued already), the expected number moves on by
  exactly the length of the segment that arrived, and the missing segment, when it comes, is dropped as a repetition: it
  changes neither the queue nor the expected number, and nothing is handed to the tunnel.
\<close>

theorem reordering_loses_data:
  assumes "sess_inv Other s" "packet_ok p" "0 < getPayloadLen p" "packet_ok q" "0 < getPayloadLen q"
    "rel_seq q s = mRemoteNext s" "mRemoteNext s < rel_seq p s"
    "\<forall>d \<in> set (mForwardQueue s). mSeq d \<noteq> rel_seq p s"
    "uint (rel_seq p s) < 2 ^ 30"
  shows "\<exists>s1 s2. accept_established p s = Some (True, s1) \<and> accept_established q s1 = Some (False, s2)
    \<and> mRemoteNext s1 = mRemoteNext s + word_of_int (getPayloadLen p)
    \<and> mForwardQueue s2 = mForwardQueue s1 \<and> mRemoteNext s2 = mRemoteNext s1 \<and> tunnel_bytes s2 = tunnel_bytes s1"
proof -
  define l where "l = (word_of_int (getPayloadLen p) :: u32)"
  have iu: "int (unat l) = uint l" by simp
  have ul: "unat l = nat (getPayloadLen p)" "nat (getPayloadLen p) \<le> 65535"
    using payload_len [of p] assms(3) by (simp_all add: l_def)
  have ulen: "0 < uint l" "uint l \<le> 65535" using iu ul assms(3) by linarith+
  have lt: "uint (mRemoteNext s) < uint (rel_seq p s)" using assms(7) by (simp add: word_less_def)
  have ge0: "0 \<le> uint (mRemoteNext s)" by (rule uint_ge_0)
  have small: "uint (mRemoteNext s) < 2 ^ 31" "uint (rel_seq p s) < 2 ^ 31" using lt assms(9) by simp_all
  have "uint (mRemoteNext s) - uint (rel_seq p s) \<noteq> 0x7FFFFFFF" using lt by simp
  then have new: "\<not> compare_u32 (rel_seq p s) (mRemoteNext s) < 0"
    using compare_u32_small [OF small(2,1)] assms(7) by simp
  obtain s1 where s1: "accept_established p s = Some (True, s1)" "sess_inv Other s1"
      "mRemoteNext s1 = mRemoteNext s + l" "mRemoteSeqBase s1 = mRemoteSeqBase s"
    using accept_established_ahead [OF assms(1-3) new assms(8)] by (auto simp: l_def)
  have sum: "uint (mRemoteNext s + l) = uint (mRemoteNext s) + uint l"
    using lt assms(9) ulen ge0 by (simp add: uint_word_ariths)
  have rq: "rel_seq q s1 = mRemoteNext s" using assms(6) s1(4) by (simp add: rel_seq_def)
  have "uint (mRemoteNext s + l) < 2 ^ 31"
  proof -
    have "uint (mRemoteNext s) < 1073741824" using lt assms(9) by simp
    then have "uint (mRemoteNext s + l) < 2147483648" using ulen sum by linarith
    then show ?thesis by simp
  qed
  moreover have "uint (mRemoteNext s + l) - uint (mRemoteNext s) \<noteq> 0x7FFFFFFF" using sum ulen by simp
  moreover have "mRemoteNext s < mRemoteNext s + l" using sum ulen by (simp add: word_less_def)
  ultimately have "compare_u32 (rel_seq q s1) (mRemoteNext s1) < 0"
    using compare_u32_small [OF small(1)] rq s1(3) by simp
  from accept_established_behind [OF s1(2) assms(4,5) this]
  obtain s2 where s2: "accept_established q s1 = Some (False, s2)" "rx s2 = rx s1" by blast
  then show ?thesis using s1(1,3) fwd_rx [OF s2(2)] unfolding l_def by blast
qed

text \<open>The segment with number 5 arrives after the one with number 7.\<close>

theorem reordering_loses_data_witness:
  "let p = (\<lambda>i. if i = 27 then 7 else sample_data i) in
   \<exists>s1 s2. accept_established p sample_est = Some (True, s1) \<and> accept_established sample_data s1 = Some (False, s2)
    \<and> mRemoteNext s1 = mRemoteNext sample_est + word_of_int (getPayloadLen p)
    \<and> mForwardQueue s2 = mForwardQueue s1 \<and> mRemoteNext s2 = mRemoteNext s1 \<and> tunnel_bytes s2 = tunnel_bytes s1"
proof -
  define p where "p = (\<lambda>i. if i = 27 then 7 else sample_data i)"
  have same: "p i = sample_data i" if "i \<noteq> 27" for i using that by (simp add: p_def)
  have f: "getHeaderLen p = 20" "tcp_dataoff p 20 = 5" "getProtocol p = 6" "getTTLEN p = 42"
    using sample_data_fields by (simp_all add: getHeaderLen_def tcp_dataoff_def getProtocol_def getTTLEN_def ld16_def same)
  have sq: "tcp_seq p = 7"
    unfolding tcp_seq_def f
    by (simp add: p_def sample_data_def mem_of_def nth_append ld32_def ld16_def le16_def swap32_def)
  have len: "getPayloadLen p = 2"
    by (simp add: f getPayloadLen_def getPayloadOffset_def PROTO_TCP_def PROTO_UDP_def getTCPHeaderLen_def)
  have "getOptionAddr p 20 k = Some None" for k by (simp add: getOptionAddr_def f option_loop.simps)
  then have ok: "packet_ok p" by (simp add: packet_ok_def f len)
  have seqs: "rel_seq p sample_est = 7" "rel_seq sample_data sample_est = 5"
    by (simp_all add: rel_seq_def sq sample_data_fields TCP_RELATIVE_SEQ_def)
  show ?thesis
    unfolding Let_def p_def [symmetric]
    by (rule reordering_loses_data [OF sample_est_inv ok _ sample_data_ok])
      (simp_all add: len sample_data_len seqs)
qed

end
