(* ===== verification/Socks5.thy ===== *)
theory Socks5
  imports Cipher Segment Checksum "HOL-Library.Monad_Syntax"
begin

text \<open>
  \<^verbatim>\<open>core/proxy/Socks5Proxy.h\<close> and \<^verbatim>\<open>core/proxy/Socks5Proxy.cpp\<close>: the tunnel of a session that is sent
  through a SOCKS5 server, over a TCP connection on which every message is framed and
  scrambled by \<^verbatim>\<open>Cipher\<close>. The client (\<^verbatim>\<open>mClient\<close>, a TCP or UDP session) is open: at every callback it
  makes any list of calls on the tunnel and returns any number. A handler is \<^term>\<open>None\<close> where the C++
  code has no defined outcome: \<^verbatim>\<open>mReactor\<close> is NULL, the ranges of a \<^verbatim>\<open>memcpy\<close> overlap (the move of the decrypt
  buffer, the name in the reply to CONNECT), or \<^verbatim>\<open>decrypt\<close> runs away. The array \<^verbatim>\<open>sTemporary\<close> is shared by all proxies and both
  directions: a client that sent data while it is told of the connection or given data would overwrite the bytes just read. Neither
  of the program's clients does, and the model does not show it.
\<close>

section \<open>State\<close>

definition SOCKS5_SHARE_BUFFER_SZ :: nat where
  "SOCKS5_SHARE_BUFFER_SZ = MAX_PARCEL_SIZE"

definition MAX_SOCKS5_PROXY_SEND_BUFFER :: u32 where
  "MAX_SOCKS5_PROXY_SEND_BUFFER = 262144"

datatype s5state = S_INIT | S_GREET | S_VERIFY | S_CONNECT | S_TRANS | S_END | S_FAILED

definition VERIFY_NONE :: byte where "VERIFY_NONE = 0"
definition VERIFY_ACCOUNT :: byte where "VERIFY_ACCOUNT = 2"

text \<open>The callbacks of \<^verbatim>\<open>ITunnelClient\<close>, and the calls of \<^verbatim>\<open>ITunnel\<close> the client can make.\<close>

datatype client_call = C_connected | C_writable | C_dataBack bytes | C_disconnected

datatype client_act =
    A_sendData bytes | A_requestSendData | A_pauseSendData | A_pauseReceiveData
  | A_resumeReceiveData | A_destroyTunnel

text \<open>
  \<open>pOpen\<close> is \<^verbatim>\<open>mSocket >= 0\<close>, \<open>pReactor\<close> is \<^verbatim>\<open>mReactor != NULL\<close>, \<open>pReadEv\<close> and \<open>pWriteEv\<close> are the events registered for
  the socket, \<open>pWire\<close> the bytes the kernel took. \<open>pCalls\<close> records the callbacks, \<open>pTurns cs\<close> is what the client does
  in the last one of \<open>cs\<close>, \<open>pDraws k\<close> the random numbers of the \<open>k\<close>-th encryption. \<open>pDestAddr\<close> are the 16 bytes
  of the union \<^verbatim>\<open>Addr\<close>.
\<close>

record proxy =
  pAlive :: bool
  pConnected :: bool
  pRemoteSet :: bool
  pOpen :: bool
  pReactor :: bool
  pReadEv :: bool
  pWriteEv :: bool
  pDestAddr :: bytes
  pDestPort :: u16
  pProtocol :: byte
  pDestIPVer :: byte
  pState :: s5state
  pPayloadDataBack :: u32
  pBufferedSize :: u32
  pSocks5 :: "segment list"
  pOutQueue :: "segment list"
  pDecryptBuffer :: segment
  pWire :: bytes
  pCalls :: "client_call list"
  pTurns :: "client_call list \<Rightarrow> client_act list \<times> int"
  pDraws :: "nat \<Rightarrow> nat \<Rightarrow> nat \<Rightarrow> nat"
  pDrawn :: nat

text \<open>
  The settings the handshake reads, and the byte of \<^verbatim>\<open>sTemporary\<close> behind a reply to CONNECT of four bytes, which a proxy looks at
  at most once in its life.
\<close>

record s5conf =
  verifyMethod :: u32
  s5User :: "bytes option"
  s5Password :: "bytes option"
  s5Stale :: byte

datatype outq = Q_SOCKS5 | Q_OUT

definition queue_of :: "outq \<Rightarrow> proxy \<Rightarrow> segment list" where
  "queue_of q p = (case q of Q_SOCKS5 \<Rightarrow> pSocks5 p | Q_OUT \<Rightarrow> pOutQueue p)"

definition set_queue :: "outq \<Rightarrow> segment list \<Rightarrow> proxy \<Rightarrow> proxy" where
  "set_queue q xs p = (case q of Q_SOCKS5 \<Rightarrow> p\<lparr>pSocks5 := xs\<rparr> | Q_OUT \<Rightarrow> p\<lparr>pOutQueue := xs\<rparr>)"

text \<open>A call on \<^verbatim>\<open>mReactor\<close>.\<close>

definition on_reactor :: "(proxy \<Rightarrow> proxy) \<Rightarrow> proxy \<Rightarrow> proxy option" where
  "on_reactor f p = (if pReactor p then Some (f p) else None)"

section \<open>Construction\<close>

text \<open>\<open>remote\<close> is whether the base class got an address, a port and IP version 4.\<close>

definition proxy_new :: "bool \<Rightarrow> bool \<Rightarrow> (client_call list \<Rightarrow> client_act list \<times> int) \<Rightarrow> (nat \<Rightarrow> nat \<Rightarrow> nat \<Rightarrow> nat) \<Rightarrow> proxy" where
  "proxy_new remote reactor turns draws =
     \<lparr>pAlive = False, pConnected = False, pRemoteSet = remote, pOpen = False, pReactor = reactor,
      pReadEv = False, pWriteEv = False, pDestAddr = replicate 16 0, pDestPort = 0, pProtocol = 0,
      pDestIPVer = 0, pState = S_INIT, pPayloadDataBack = 0, pBufferedSize = 0, pSocks5 = [],
      pOutQueue = [], pDecryptBuffer = segment_new (word_of_nat (MAX_PARCEL_SIZE * 4)), pWire = [], pCalls = [],
      pTurns = turns, pDraws = draws, pDrawn = 0\<rparr>"

definition setDestAddr :: "byte \<Rightarrow> bytes \<Rightarrow> u16 \<Rightarrow> proxy \<Rightarrow> proxy" where
  "setDestAddr ver addr port p =
     (if ver = 4
      then p\<lparr>pDestAddr := blit (pDestAddr p) 0 (take 4 addr), pDestPort := port, pDestIPVer := ver\<rparr>
      else p\<lparr>pDestAddr := take 16 addr, pDestPort := port, pDestIPVer := ver\<rparr>)"

definition setProtocol :: "byte \<Rightarrow> proxy \<Rightarrow> proxy" where
  "setProtocol pr p = p\<lparr>pProtocol := pr\<rparr>"

text \<open>
  The arguments are whether \<^verbatim>\<open>socket\<close>, \<^verbatim>\<open>protectSock\<close>, the two \<^verbatim>\<open>fcntl\<close>s, \<^verbatim>\<open>connect\<close> (\<^verbatim>\<open>EINPROGRESS\<close> counts) and
  \<^verbatim>\<open>addEvent\<close> succeed.
\<close>

definition establish :: "bool \<Rightarrow> bool \<Rightarrow> bool \<Rightarrow> bool \<Rightarrow> bool \<Rightarrow> proxy \<Rightarrow> int \<times> proxy" where
  "establish sock protect nonblock conn added p =
     (if \<not> pRemoteSet p then (1, p)
      else if \<not> sock then (1, p\<lparr>pOpen := False\<rparr>)
      else if \<not> protect then (1, p\<lparr>pOpen := False\<rparr>)
      else
        (let p1 = p\<lparr>pOpen := True\<rparr>
         in if \<not> nonblock then (1, p1)
            else if \<not> conn then (1, p1)
            else if \<not> pReactor p1 \<or> \<not> added then (1, p1)
            else (0, p1\<lparr>pReadEv := True, pWriteEv := True, pAlive := True\<rparr>)))"

section \<open>The tunnel's operations\<close>

definition destroyTunnel :: "proxy \<Rightarrow> proxy" where
  "destroyTunnel p =
     (let p1 = p\<lparr>pConnected := False, pAlive := False\<rparr>;
          p2 = (if pReactor p1 \<and> pOpen p1 then p1\<lparr>pReadEv := False, pWriteEv := False\<rparr> else p1)
      in p2\<lparr>pOpen := False, pReactor := False\<rparr>)"

definition getAvailableBufferSize :: "proxy \<Rightarrow> u32" where
  "getAvailableBufferSize p =
     (if \<not> pAlive p then 0
      else if pBufferedSize p > MAX_SOCKS5_PROXY_SEND_BUFFER then 0
      else MAX_SOCKS5_PROXY_SEND_BUFFER - pBufferedSize p)"

definition switchable :: "proxy \<Rightarrow> bool" where
  "switchable p \<longleftrightarrow> pAlive p \<and> pState p = S_TRANS"

definition requestSendData :: "proxy \<Rightarrow> proxy option" where
  "requestSendData p = (if switchable p then on_reactor (\<lambda>p. p\<lparr>pWriteEv := True\<rparr>) p else Some p)"

definition pauseSendData :: "proxy \<Rightarrow> proxy option" where
  "pauseSendData p = (if switchable p then on_reactor (\<lambda>p. p\<lparr>pWriteEv := False\<rparr>) p else Some p)"

definition pauseReceiveData :: "proxy \<Rightarrow> proxy option" where
  "pauseReceiveData p = (if switchable p then on_reactor (\<lambda>p. p\<lparr>pReadEv := False\<rparr>) p else Some p)"

definition resumeReceiveData :: "proxy \<Rightarrow> proxy option" where
  "resumeReceiveData p = (if switchable p then on_reactor (\<lambda>p. p\<lparr>pReadEv := True\<rparr>) p else Some p)"

definition encryptAndQueue :: "outq \<Rightarrow> bytes \<Rightarrow> proxy \<Rightarrow> (int \<times> proxy) option" where
  "encryptAndQueue q data p =
     (case encrypt (pDraws p (pDrawn p)) data SOCKS5_SHARE_BUFFER_SZ of
        (n, out) \<Rightarrow>
          (let p1 = p\<lparr>pDrawn := pDrawn p + 1\<rparr>
           in if length out > 0
              then do { sg \<leftarrow> seg_put out (segment_new (word_of_nat (length out)));
                        let p2 = set_queue q (queue_of q p1 @ [sg]) p1;
                        p3 \<leftarrow> on_reactor (\<lambda>p. p\<lparr>pWriteEv := True\<rparr>) p2;
                        Some (int n, p3\<lparr>pBufferedSize := pBufferedSize p3 + word_of_nat (length out)\<rparr>) }
              else Some (0, p1)))"

definition sendData :: "bytes \<Rightarrow> proxy \<Rightarrow> (int \<times> proxy) option" where
  "sendData data p =
     (if \<not> pAlive p then Some (0, p)
      else if getAvailableBufferSize p < word_of_nat (length data) then Some (0, p)
      else encryptAndQueue Q_OUT data p)"

section \<open>Callbacks\<close>

fun do_act :: "client_act \<Rightarrow> proxy \<Rightarrow> proxy option" where
  "do_act (A_sendData data) p = map_option snd (sendData data p)"
| "do_act A_requestSendData p = requestSendData p"
| "do_act A_pauseSendData p = pauseSendData p"
| "do_act A_pauseReceiveData p = pauseReceiveData p"
| "do_act A_resumeReceiveData p = resumeReceiveData p"
| "do_act A_destroyTunnel p = Some (destroyTunnel p)"

fun do_acts :: "client_act list \<Rightarrow> proxy \<Rightarrow> proxy option" where
  "do_acts [] p = Some p"
| "do_acts (a # as) p = do { p1 \<leftarrow> do_act a p; do_acts as p1 }"

definition callback :: "client_call \<Rightarrow> proxy \<Rightarrow> (int \<times> proxy) option" where
  "callback c p =
     (case pTurns p (pCalls p @ [c]) of
        (as, r) \<Rightarrow> map_option (Pair r) (do_acts as (p\<lparr>pCalls := pCalls p @ [c]\<rparr>)))"

definition notify :: "client_call \<Rightarrow> proxy \<Rightarrow> proxy option" where
  "notify c p = map_option snd (callback c p)"

definition switchS5State :: "s5state \<Rightarrow> proxy \<Rightarrow> proxy option" where
  "switchS5State st p =
     (if pState p \<noteq> st
      then (let p1 = p\<lparr>pState := st\<rparr>
            in if st = S_TRANS then notify C_writable p1
               else if st = S_FAILED \<or> st = S_END
               then do { p2 \<leftarrow> notify C_disconnected p1; Some (destroyTunnel p2) }
               else Some p1)
      else Some p)"

section \<open>Sending\<close>

text \<open>
  The loop of \<^verbatim>\<open>sendQueue\<close>: the numbers are the results of \<^verbatim>\<open>send\<close>, cut off at the size offered; after the
  last one the socket takes nothing more.
\<close>

fun send_queue_loop :: "outq \<Rightarrow> int list \<Rightarrow> u32 \<Rightarrow> proxy \<Rightarrow> (u32 \<times> proxy) option" where
  "send_queue_loop q ks sent p =
     (case queue_of q p of
        [] \<Rightarrow> Some (sent, p)
      | sg # sgs \<Rightarrow>
          (case ks of
             [] \<Rightarrow> Some (sent, p)
           | k # ks1 \<Rightarrow>
               (let n = min k (uint (seg_size sg))
                in if n < 0 then Some (sent, p)
                   else
                     (let sg1 = seg_consume (word_of_int n) sg;
                          p1 = p\<lparr>pWire := pWire p @ take (nat n) (seg_bytes sg)\<rparr>
                      in if seg_size sg1 \<le> 0
                         then (if seg_delete_ok sg1
                               then send_queue_loop q ks1 (sent + word_of_int n) (set_queue q sgs p1)
                               else None)
                         else send_queue_loop q ks1 (sent + word_of_int n) (set_queue q (sg1 # sgs) p1)))))"

declare send_queue_loop.simps [simp del]

definition sendQueue :: "outq \<Rightarrow> int list \<Rightarrow> proxy \<Rightarrow> (u32 \<times> proxy) option" where
  "sendQueue q ks p =
     (if queue_of q p \<noteq> []
      then do { (sent, p1) \<leftarrow> send_queue_loop q ks 0 p;
                p2 \<leftarrow> (if sent > 0 then Some (p1\<lparr>pBufferedSize := pBufferedSize p1 - sent\<rparr>)
                      else on_reactor (\<lambda>p. p\<lparr>pWriteEv := False\<rparr>) p1);
                Some (sent, p2) }
      else do { p1 \<leftarrow> on_reactor (\<lambda>p. p\<lparr>pWriteEv := False\<rparr>) p; Some (0, p1) })"

section \<open>The handshake\<close>

fun contain_loop :: "nat \<Rightarrow> u32 \<Rightarrow> byte \<Rightarrow> bool" where
  "contain_loop 0 vfms m = False"
| "contain_loop (Suc i) vfms m =
     (if ucast (vfms AND 0xFF) = m then True else contain_loop i (drop_bit 8 vfms) m)"

definition containS5Verify :: "u32 \<Rightarrow> byte \<Rightarrow> bool" where
  "containS5Verify vfms m = contain_loop 4 vfms m"

fun methods_loop :: "nat \<Rightarrow> u32 \<Rightarrow> nat \<Rightarrow> bytes \<Rightarrow> bytes" where
  "methods_loop 0 vfms len out = out"
| "methods_loop (Suc i) vfms len out =
     (if length out < len
      then (let m = ucast (vfms AND 0xFF)
            in methods_loop i (drop_bit 8 vfms) len (if m \<noteq> 0xFF then out @ [m] else out))
      else out)"

definition getS5VerifyMethods :: "s5conf \<Rightarrow> nat \<Rightarrow> bytes" where
  "getS5VerifyMethods cfg len = methods_loop 4 (verifyMethod cfg) len []"

text \<open>A message assembled in a temporary segment of the given size.\<close>

definition assemble :: "size_t \<Rightarrow> bytes list \<Rightarrow> bytes option" where
  "assemble sz ws =
     do { sg \<leftarrow> put_all seg_put ws (segment_new sz); if seg_delete_ok sg then Some (seg_bytes sg) else None }"

definition sendS5Greet :: "s5conf \<Rightarrow> proxy \<Rightarrow> (int \<times> proxy) option" where
  "sendS5Greet cfg p =
     (let ms = getS5VerifyMethods cfg 4
      in do { m \<leftarrow> assemble 64 [[5, word_of_nat (length ms)] @ ms]; encryptAndQueue Q_SOCKS5 m p })"

definition connect_request :: "proxy \<Rightarrow> bytes list" where
  "connect_request p =
     [[5], [if pProtocol p = 6 then 1 else 3], [0]]
     @ (if pDestIPVer p = 4 then [[1], take 4 (pDestAddr p)] else [[4], take 16 (pDestAddr p)])
     @ [st16 (pDestPort p)]"

definition sendS5Connect :: "proxy \<Rightarrow> (int \<times> proxy) option" where
  "sendS5Connect p = do { m \<leftarrow> assemble 32 (connect_request p); encryptAndQueue Q_SOCKS5 m p }"

text \<open>\<^verbatim>\<open>userLen\<close> and \<^verbatim>\<open>passwordLen\<close> are bytes: longer strings are cut off modulo 256.\<close>

definition sendS5Account :: "s5conf \<Rightarrow> proxy \<Rightarrow> (int \<times> proxy) option" where
  "sendS5Account cfg p =
     (case (s5User cfg, s5Password cfg) of
        (Some user, Some password) \<Rightarrow>
          (let ul = (word_of_nat (length user) :: byte); pl = (word_of_nat (length password) :: byte)
           in do { m \<leftarrow> assemble (word_of_nat (unat ul + unat pl + 10))
                           [[5], [ul], take (unat ul) user, [pl], take (unat pl) password];
                   encryptAndQueue Q_SOCKS5 m p })
      | _ \<Rightarrow> Some (1, p))"

definition handleS5GreetBack :: "s5conf \<Rightarrow> bytes \<Rightarrow> proxy \<Rightarrow> proxy option" where
  "handleS5GreetBack cfg data p =
     (if length data \<noteq> 2 then switchS5State S_FAILED p
      else if data ! 0 = 5 \<and> containS5Verify (verifyMethod cfg) (data ! 1)
      then (if data ! 1 = VERIFY_NONE
            then do { (r, p1) \<leftarrow> sendS5Connect p; switchS5State S_CONNECT p1 }
            else if data ! 1 = VERIFY_ACCOUNT
            then do { (r, p1) \<leftarrow> sendS5Account cfg p;
                      if r \<noteq> 0 then switchS5State S_VERIFY p1 else switchS5State S_FAILED p1 }
            else Some p)
      else switchS5State S_FAILED p)"

definition handleS5VerifyBack :: "bytes \<Rightarrow> proxy \<Rightarrow> proxy option" where
  "handleS5VerifyBack data p =
     (if length data \<noteq> 2 then switchS5State S_FAILED p
      else if data ! 0 \<noteq> 5 then switchS5State S_FAILED p
      else if data ! 1 \<noteq> 0 then switchS5State S_FAILED p
      else do { (r, p1) \<leftarrow> sendS5Connect p; switchS5State S_CONNECT p1 })"

text \<open>
  The bound address in the reply is only logged. A name (address type 3) is copied to the front of \<^verbatim>\<open>sTemporary\<close> with
  \<^verbatim>\<open>memcpy(sTemporary, data+5, domainLen)\<close>, where \<^verbatim>\<open>data\<close> is \<^verbatim>\<open>sTemporary\<close> itself: the ranges overlap when it has more than five
  bytes.
\<close>

definition conn_name_len :: "s5conf \<Rightarrow> bytes \<Rightarrow> byte" where
  "conn_name_len cfg data = (if 4 < length data then data ! 4 else s5Stale cfg)"

definition handleS5ConnBack :: "s5conf \<Rightarrow> bytes \<Rightarrow> proxy \<Rightarrow> proxy option" where
  "handleS5ConnBack cfg data p =
     (if length data < 4 then switchS5State S_FAILED p
      else if data ! 0 \<noteq> 5 then switchS5State S_FAILED p
      else if data ! 1 \<noteq> 0 then switchS5State S_FAILED p
      else if data ! 3 = 3 \<and> 5 < conn_name_len cfg data then None
      else switchS5State S_TRANS p)"

section \<open>Receiving\<close>

definition dispatch :: "s5conf \<Rightarrow> bytes \<Rightarrow> proxy \<Rightarrow> proxy option" where
  "dispatch cfg data p =
     (case pState p of
        S_INIT \<Rightarrow> Some p
      | S_GREET \<Rightarrow> handleS5GreetBack cfg data p
      | S_VERIFY \<Rightarrow> handleS5VerifyBack data p
      | S_CONNECT \<Rightarrow> handleS5ConnBack cfg data p
      | S_TRANS \<Rightarrow> notify (C_dataBack data) (p\<lparr>pPayloadDataBack := pPayloadDataBack p + word_of_nat (length data)\<rparr>)
      | _ \<Rightarrow> switchS5State S_FAILED p)"

text \<open>What the client cannot change: the receiving side and the state of the handshake.\<close>

definition rx_view :: "proxy \<Rightarrow> segment \<times> s5state \<times> bytes \<times> u32 \<times> (client_call list \<Rightarrow> client_act list \<times> int)" where
  "rx_view p = (pDecryptBuffer p, pState p, pWire p, pPayloadDataBack p, pTurns p)"

lemma set_queue_frame [simp]:
  "rx_view (set_queue q xs p) = rx_view p" "pCalls (set_queue q xs p) = pCalls p"
  "pAlive (set_queue q xs p) = pAlive p" "pReactor (set_queue q xs p) = pReactor p"
  "pOpen (set_queue q xs p) = pOpen p" "pBufferedSize (set_queue q xs p) = pBufferedSize p"
  "pDraws (set_queue q xs p) = pDraws p" "pDrawn (set_queue q xs p) = pDrawn p"
  "queue_of q (set_queue q xs p) = xs" "pState (set_queue q xs p) = pState p"
  by (cases q; simp add: set_queue_def rx_view_def queue_of_def)+

lemma encryptAndQueue_view:
  "encryptAndQueue q data p = Some (n, p') \<Longrightarrow> rx_view p' = rx_view p \<and> pCalls p' = pCalls p"
  by (cases q) (auto simp: encryptAndQueue_def Let_def on_reactor_def rx_view_def set_queue_def
      split: prod.splits if_splits bind_splits)

lemma sendData_view: "sendData data p = Some (n, p') \<Longrightarrow> rx_view p' = rx_view p \<and> pCalls p' = pCalls p"
  by (auto simp: sendData_def dest: encryptAndQueue_view split: if_splits)

lemma destroyTunnel_view [simp]: "rx_view (destroyTunnel p) = rx_view p" "pCalls (destroyTunnel p) = pCalls p"
  by (simp_all add: destroyTunnel_def rx_view_def Let_def)

lemma rx_view_updates [simp]:
  "rx_view (p\<lparr>pWriteEv := b\<rparr>) = rx_view p" "rx_view (p\<lparr>pReadEv := b\<rparr>) = rx_view p"
  "rx_view (p\<lparr>pCalls := cs\<rparr>) = rx_view p" "rx_view (p\<lparr>pConnected := b\<rparr>) = rx_view p"
  by (simp_all add: rx_view_def)

lemmas event_defs = requestSendData_def pauseSendData_def pauseReceiveData_def resumeReceiveData_def on_reactor_def

lemma do_act_view: "do_act a p = Some p' \<Longrightarrow> rx_view p' = rx_view p \<and> pCalls p' = pCalls p"
  by (cases a) (auto simp: event_defs dest: sendData_view split: if_splits)

lemma do_acts_view: "do_acts as p = Some p' \<Longrightarrow> rx_view p' = rx_view p \<and> pCalls p' = pCalls p"
proof (induction as arbitrary: p)
  case (Cons a as)
  then obtain p1 where "do_act a p = Some p1" "do_acts as p1 = Some p'" by (auto split: bind_splits)
  then show ?case using Cons.IH do_act_view by fastforce
qed simp

lemma callback_view:
  "callback c p = Some (r, p') \<Longrightarrow> rx_view p' = rx_view p \<and> pCalls p' = pCalls p @ [c]"
  by (auto simp: callback_def rx_view_def dest: do_acts_view split: prod.splits)

lemma notify_view: "notify c p = Some p' \<Longrightarrow> rx_view p' = rx_view p \<and> pCalls p' = pCalls p @ [c]"
  by (auto simp: notify_def dest: callback_view)

lemma switchS5State_view:
  assumes "switchS5State st p = Some p'"
  shows "pDecryptBuffer p' = pDecryptBuffer p \<and> pState p' = st"
proof (cases "pState p = st")
  case False
  define p1 where "p1 = p\<lparr>pState := st\<rparr>"
  have "(if st = S_TRANS then notify C_writable p1
         else if st = S_FAILED \<or> st = S_END then do { p2 \<leftarrow> notify C_disconnected p1; Some (destroyTunnel p2) }
         else Some p1) = Some p'"
    using assms False by (cases st) (simp_all add: switchS5State_def p1_def Let_def)
  then have "rx_view p' = rx_view p1" by (auto dest: notify_view split: if_splits bind_splits)
  then show ?thesis by (simp add: rx_view_def p1_def)
qed (use assms in \<open>simp add: switchS5State_def\<close>)

lemma send_handshake_view:
  "sendS5Greet cfg p = Some (n, p') \<Longrightarrow> rx_view p' = rx_view p \<and> pCalls p' = pCalls p"
  "sendS5Connect p = Some (n, p') \<Longrightarrow> rx_view p' = rx_view p \<and> pCalls p' = pCalls p"
  "sendS5Account cfg p = Some (n, p') \<Longrightarrow> rx_view p' = rx_view p \<and> pCalls p' = pCalls p"
  by (auto simp: sendS5Greet_def sendS5Connect_def sendS5Account_def Let_def
      dest: encryptAndQueue_view split: bind_splits option.splits)

lemma dispatch_buffer: "dispatch cfg data p = Some p' \<Longrightarrow> pDecryptBuffer p' = pDecryptBuffer p"
  by (auto simp: dispatch_def handleS5GreetBack_def handleS5VerifyBack_def handleS5ConnBack_def rx_view_def
      dest!: switchS5State_view send_handshake_view notify_view
      split: s5state.splits if_splits bind_splits)

text \<open>
  The loop of \<^verbatim>\<open>onReadable\<close>: decrypt what the buffer holds (at most 8192 bytes at a time), consume what was
  decrypted, handle it, until nothing more can be decrypted.
\<close>

lemma decrypt_progress:
  assumes "decrypt data room = DecryptOut out rest" "out \<noteq> []"
  shows "\<exists>used. data = used @ rest \<and> used \<noteq> []"
proof -
  have "decrypt_loop data room data [] = DecryptOut out rest"
    using assms by (auto simp: decrypt_def split: if_splits)
  then obtain used where "data = used @ rest" "length out \<le> length used"
    using decrypt_loop_consumes [of data room data "[]" out rest "[]"] by auto
  with assms(2) show ?thesis by auto
qed

lemma seg_consume_shorter:
  assumes "0 < n" "n \<le> length (seg_bytes s)"
  shows "length (seg_bytes (seg_consume (word_of_nat n) s)) < length (seg_bytes s)"
proof -
  obtain d where d: "mData s = Some d" using assms by (auto simp: seg_bytes_def split: option.splits)
  have n: "n \<le> unat (mLimit s) - unat (mPos s)" using assms d by (auto simp: seg_bytes_def)
  have lim: "unat (mLimit s) < 2 ^ 32" by (rule order_less_le_trans [OF unsigned_less]) simp
  have small: "n < 2 ^ 32" using n lim by linarith
  then have un: "unat (word_of_nat n :: size_t) = n" by (intro unat_word_of_nat) simp
  have le: "unat (mPos s) + n \<le> unat (mLimit s)" using n assms by simp
  then have sum: "unat (mPos s + word_of_nat n) = unat (mPos s) + n"
    using un lim by (subst unat_add_lem [THEN iffD1]) auto
  have "mPos s + word_of_nat n \<le> mLimit s" using le sum by (simp add: word_le_nat_alt)
  then show ?thesis using assms d sum by (simp add: seg_consume_def seg_bytes_def)
qed

function read_loop :: "s5conf \<Rightarrow> proxy \<Rightarrow> proxy option" where
  "read_loop cfg p =
     (let w = take SOCKS5_SHARE_BUFFER_SZ (seg_bytes (pDecryptBuffer p))
      in case decrypt w SOCKS5_SHARE_BUFFER_SZ of
           DecryptUnderflow \<Rightarrow> None
         | DecryptOut out rest \<Rightarrow>
             if out = [] then Some p
             else (case dispatch cfg out
                          (p\<lparr>pDecryptBuffer := seg_consume (word_of_nat (length w - length rest)) (pDecryptBuffer p)\<rparr>) of
                     None \<Rightarrow> None
                   | Some p2 \<Rightarrow> read_loop cfg p2))"
  by pat_completeness auto
termination read_loop
proof (relation "measure (\<lambda>(cfg, p). length (seg_bytes (pDecryptBuffer p)))", simp, clarsimp)
  fix cfg out and p p2 :: proxy and rest :: bytes
  let ?w = "take SOCKS5_SHARE_BUFFER_SZ (seg_bytes (pDecryptBuffer p))"
  let ?b = "seg_consume (word_of_nat (min (length (seg_bytes (pDecryptBuffer p))) SOCKS5_SHARE_BUFFER_SZ - length rest)) (pDecryptBuffer p)"
  assume "decrypt ?w SOCKS5_SHARE_BUFFER_SZ = DecryptOut out rest" "out \<noteq> []"
    and p2: "dispatch cfg out (p\<lparr>pDecryptBuffer := ?b\<rparr>) = Some p2"
  then obtain used where "?w = used @ rest" "used \<noteq> []" using decrypt_progress by blast
  then have "length ?w = length used + length rest" "0 < length used" by simp_all
  then show "length (seg_bytes (pDecryptBuffer p2)) < length (seg_bytes (pDecryptBuffer p))"
    using dispatch_buffer [OF p2] by (simp add: seg_consume_shorter)
qed

declare read_loop.simps [simp del]

text \<open>What \<^verbatim>\<open>read\<close> returned: an error that may pass (\<^verbatim>\<open>EINTR\<close>, \<^verbatim>\<open>EAGAIN\<close>) or not, the end, or 1 to 8192 bytes.\<close>

datatype read_result = RdError bool | RdEnd | RdData bytes

definition ensure_connected :: "proxy \<Rightarrow> proxy option" where
  "ensure_connected p = (if \<not> pConnected p then notify C_connected (p\<lparr>pConnected := True\<rparr>) else Some p)"

definition socks_onReadable :: "s5conf \<Rightarrow> read_result \<Rightarrow> proxy \<Rightarrow> proxy option" where
  "socks_onReadable cfg rd p =
     (case rd of
        RdError again \<Rightarrow> if again then Some p else switchS5State S_FAILED p
      | RdEnd \<Rightarrow> switchS5State S_END p
      | RdData xs \<Rightarrow>
          do { p1 \<leftarrow> ensure_connected p;
               b \<leftarrow> (if unat (seg_remain (pDecryptBuffer p1)) < length xs then seg_flip (pDecryptBuffer p1)
                    else Some (pDecryptBuffer p1));
               let p2 = p1\<lparr>pDecryptBuffer := b\<rparr>;
               if unat (seg_remain b) < length xs then switchS5State S_FAILED p2
               else do { b1 \<leftarrow> seg_put xs b; read_loop cfg (p2\<lparr>pDecryptBuffer := b1\<rparr>) } })"

definition socks_onWritable :: "s5conf \<Rightarrow> int list \<Rightarrow> proxy \<Rightarrow> proxy option" where
  "socks_onWritable cfg ks p =
     do { p1 \<leftarrow> ensure_connected p;
          if pState p1 = S_TRANS
          then (if pOutQueue p1 \<noteq> [] then map_option snd (sendQueue Q_OUT ks p1)
                else do { (s, p2) \<leftarrow> callback C_writable p1;
                          if s \<le> 0 then on_reactor (\<lambda>p. p\<lparr>pWriteEv := False\<rparr>) p2 else Some p2 })
          else if pState p1 = S_INIT
          then do { (r, p2) \<leftarrow> sendS5Greet cfg p1; switchS5State S_GREET p2 }
          else if pSocks5 p1 = [] then on_reactor (\<lambda>p. p\<lparr>pWriteEv := False\<rparr>) p1
          else map_option snd (sendQueue Q_SOCKS5 ks p1) }"

definition socks_onException :: "proxy \<Rightarrow> proxy option" where
  "socks_onException p = switchS5State S_END p"

end
