(* ===== verification/SocksRun.thy ===== *)
theory SocksRun
  imports Socks5
begin

text \<open>
  All runs of a \<^verbatim>\<open>Socks5Proxy\<close>: the step relation of an established proxy, an interface of relations that every
  primitive of the handlers keeps, and its consequences: the connection state decides which calls
  the client gets, and the client hears of the end exactly once.
\<close>

section \<open>The step relation\<close>

text \<open>The reactor delivers events while the socket is registered; the client may call at any time.\<close>

inductive s5_step :: "s5conf \<Rightarrow> proxy \<Rightarrow> proxy \<Rightarrow> bool" for cfg where
  readable: "pOpen p \<Longrightarrow> socks_onReadable cfg rd p = Some p' \<Longrightarrow> s5_step cfg p p'"
| writable: "pOpen p \<Longrightarrow> socks_onWritable cfg ks p = Some p' \<Longrightarrow> s5_step cfg p p'"
| failing: "pOpen p \<Longrightarrow> socks_onException p = Some p' \<Longrightarrow> s5_step cfg p p'"
| client: "do_act a p = Some p' \<Longrightarrow> s5_step cfg p p'"

fun s5_dead :: "s5state \<Rightarrow> bool" where
  "s5_dead S_END = True"
| "s5_dead S_FAILED = True"
| "s5_dead _ = False"

text \<open>The transitions of the handshake.\<close>

fun s5_next :: "s5state \<Rightarrow> s5state \<Rightarrow> bool" where
  "s5_next S_INIT S_GREET = True"
| "s5_next S_GREET S_VERIFY = True"
| "s5_next S_GREET S_CONNECT = True"
| "s5_next S_VERIFY S_CONNECT = True"
| "s5_next S_CONNECT S_TRANS = True"
| "s5_next st st' = (\<not> s5_dead st \<and> s5_dead st')"

definition live :: "proxy \<Rightarrow> bool" where
  "live p \<longleftrightarrow> (s5_dead (pState p) \<longrightarrow> \<not> pOpen p)"

lemma queue_after_set [simp]:
  "queue_of q (p\<lparr>pDrawn := k\<rparr>) = queue_of q p" "queue_of q (p\<lparr>pWriteEv := b\<rparr>) = queue_of q p"
  by (cases q; simp add: queue_of_def)+

lemma encryptAndQueue_flags:
  "encryptAndQueue q m p = Some (n, p') \<Longrightarrow>
   pOpen p' = pOpen p \<and> pAlive p' = pAlive p \<and> pReactor p' = pReactor p \<and> pConnected p' = pConnected p"
  by (cases q) (auto simp: encryptAndQueue_def Let_def on_reactor_def set_queue_def split: prod.splits if_splits bind_splits)

lemma greet_keeps: "sendS5Greet cfg p = Some (n, p') \<Longrightarrow> pConnected p' = pConnected p \<and> pCalls p' = pCalls p"
  by (auto simp: sendS5Greet_def Let_def dest: encryptAndQueue_flags encryptAndQueue_view split: bind_splits)

section \<open>Relations kept by the primitives\<close>

locale proxy_frame =
  fixes R :: "proxy \<Rightarrow> proxy \<Rightarrow> bool"
  assumes R_refl: "R p p"
    and R_trans: "R p1 p2 \<Longrightarrow> R p2 p3 \<Longrightarrow> R p1 p3"
    and R_act: "do_act a p = Some p' \<Longrightarrow> R p p'"
    and R_enqueue: "encryptAndQueue Q_SOCKS5 m p = Some (n, p') \<Longrightarrow> R p p'"
    and R_connected: "\<not> pConnected p \<Longrightarrow> pOpen p \<Longrightarrow> \<not> s5_dead (pState p) \<Longrightarrow> notify C_connected (p\<lparr>pConnected := True\<rparr>) = Some p' \<Longrightarrow> R p p'"
    and R_data: "pState p = S_TRANS \<Longrightarrow> notify (C_dataBack xs) (p\<lparr>pPayloadDataBack := tot\<rparr>) = Some p' \<Longrightarrow> R p p'"
    and R_writable: "pState p = S_TRANS \<Longrightarrow> callback C_writable p = Some (r, p') \<Longrightarrow> R p p'"
    and R_switch: "s5_next (pState p) st \<Longrightarrow> (st = S_GREET \<Longrightarrow> pConnected p \<or> C_connected \<in> set (pCalls p)) \<Longrightarrow> switchS5State st p = Some p' \<Longrightarrow> R p p'"
    and R_send: "q = Q_OUT \<longleftrightarrow> pState p = S_TRANS \<Longrightarrow> sendQueue q ks p = Some (sent, p') \<Longrightarrow> R p p'"
    and R_event: "R p (p\<lparr>pWriteEv := False\<rparr>)"
    and R_consume: "c \<le> length (seg_bytes (pDecryptBuffer p)) \<Longrightarrow>
        R p (p\<lparr>pDecryptBuffer := seg_consume (word_of_nat c) (pDecryptBuffer p)\<rparr>)"
    and R_flip: "seg_flip (pDecryptBuffer p) = Some b \<Longrightarrow> R p (p\<lparr>pDecryptBuffer := b\<rparr>)"
    and R_fill: "length xs \<le> unat (seg_remain (pDecryptBuffer p)) \<Longrightarrow>
        seg_put xs (pDecryptBuffer p) = Some b \<Longrightarrow> R p (p\<lparr>pDecryptBuffer := b\<rparr>)"
begin

lemma fail_R: "\<not> s5_dead (pState p) \<Longrightarrow> switchS5State S_FAILED p = Some p' \<Longrightarrow> R p p' \<and> pState p' = S_FAILED"
  using R_switch [of p S_FAILED p'] switchS5State_view [of S_FAILED p p'] by (cases "pState p") auto

lemma greet_R: "sendS5Greet cfg p = Some (n, p') \<Longrightarrow> R p p' \<and> pState p' = pState p"
  by (auto simp: sendS5Greet_def Let_def rx_view_def dest: R_enqueue encryptAndQueue_view split: bind_splits)

lemma connect_R: "sendS5Connect p = Some (n, p') \<Longrightarrow> R p p' \<and> pState p' = pState p"
  by (auto simp: sendS5Connect_def rx_view_def dest: R_enqueue encryptAndQueue_view split: bind_splits)

lemma account_R: "sendS5Account cfg p = Some (n, p') \<Longrightarrow> R p p' \<and> pState p' = pState p"
  by (auto simp: sendS5Account_def Let_def rx_view_def R_refl dest: R_enqueue encryptAndQueue_view
      split: bind_splits option.splits)

lemma switch_R:
  "R p p1 \<and> pState p1 = pState p \<Longrightarrow> s5_next (pState p) st \<Longrightarrow> switchS5State st p1 = Some p' \<Longrightarrow>
   (st = S_GREET \<Longrightarrow> pConnected p1 \<or> C_connected \<in> set (pCalls p1)) \<Longrightarrow> R p p' \<and> pState p' = st"
  using R_switch [of p1 st p'] R_trans switchS5State_view by metis

lemma greetBack_R:
  assumes "pState p = S_GREET" "handleS5GreetBack cfg data p = Some p'"
  shows "R p p' \<and> pState p' \<in> {S_GREET, S_VERIFY, S_CONNECT, S_FAILED}"
proof -
  have "switchS5State S_FAILED p = Some p' \<or> p' = p
    \<or> (\<exists>r p1. sendS5Connect p = Some (r, p1) \<and> switchS5State S_CONNECT p1 = Some p')
    \<or> (\<exists>r p1. sendS5Account cfg p = Some (r, p1) \<and> (switchS5State S_VERIFY p1 = Some p' \<or> switchS5State S_FAILED p1 = Some p'))"
    using assms(2) unfolding handleS5GreetBack_def
    by (cases "sendS5Connect p"; cases "sendS5Account cfg p") (auto split: if_splits)
  then consider (fail) "switchS5State S_FAILED p = Some p'" | (same) "p' = p"
    | (conn) r p1 where "sendS5Connect p = Some (r, p1)" "switchS5State S_CONNECT p1 = Some p'"
    | (acc) r p1 where "sendS5Account cfg p = Some (r, p1)" "switchS5State S_VERIFY p1 = Some p'"
    | (nacc) r p1 where "sendS5Account cfg p = Some (r, p1)" "switchS5State S_FAILED p1 = Some p'"
    by blast
  then show ?thesis
  proof cases
    case fail then show ?thesis using fail_R [of p p'] assms(1) by simp
  next
    case same then show ?thesis using assms(1) R_refl by simp
  next
    case conn then show ?thesis using switch_R [OF connect_R [OF conn(1)] _ conn(2)] assms(1) by simp
  next
    case acc then show ?thesis using switch_R [OF account_R [OF acc(1)] _ acc(2)] assms(1) by simp
  next
    case nacc then show ?thesis using switch_R [OF account_R [OF nacc(1)] _ nacc(2)] assms(1) by simp
  qed
qed

lemma verifyBack_R:
  assumes "pState p = S_VERIFY" "handleS5VerifyBack data p = Some p'"
  shows "R p p' \<and> pState p' \<in> {S_CONNECT, S_FAILED}"
proof -
  have "switchS5State S_FAILED p = Some p'
    \<or> (\<exists>r p1. sendS5Connect p = Some (r, p1) \<and> switchS5State S_CONNECT p1 = Some p')"
    using assms(2) unfolding handleS5VerifyBack_def by (cases "sendS5Connect p") (auto split: if_splits)
  then consider "switchS5State S_FAILED p = Some p'"
    | r p1 where "sendS5Connect p = Some (r, p1)" "switchS5State S_CONNECT p1 = Some p'"
    by blast
  then show ?thesis
  proof cases
    case 1 then show ?thesis using fail_R [of p p'] assms(1) by simp
  next
    case 2 then show ?thesis using switch_R [OF connect_R [OF 2(1)] _ 2(2)] assms(1) by simp
  qed
qed

lemma connBack_R:
  assumes "pState p = S_CONNECT" "handleS5ConnBack cfg data p = Some p'"
  shows "R p p' \<and> pState p' \<in> {S_TRANS, S_FAILED}"
proof -
  have "switchS5State S_FAILED p = Some p' \<or> switchS5State S_TRANS p = Some p'"
    using assms(2) by (auto simp: handleS5ConnBack_def split: if_splits)
  then show ?thesis
    using fail_R [of p p'] assms(1) switch_R [of p p S_TRANS p'] R_refl by auto
qed

lemma dispatch_R:
  assumes "pState p \<noteq> S_END" "dispatch cfg data p = Some p'"
  shows "R p p' \<and> pState p' \<noteq> S_END"
proof (cases "pState p")
  case S_TRANS
  then show ?thesis
    using assms(2) R_data [OF S_TRANS] by (auto simp: dispatch_def rx_view_def dest: notify_view)
next
  case S_FAILED
  then show ?thesis using assms by (simp add: dispatch_def switchS5State_def R_refl)
qed (use assms R_refl greetBack_R verifyBack_R connBack_R in \<open>fastforce simp: dispatch_def\<close>)+

lemma read_loop_R:
  "read_loop cfg p = Some p' \<Longrightarrow> pState p \<noteq> S_END \<Longrightarrow> R p p' \<and> pState p' \<noteq> S_END"
proof (induction cfg p rule: read_loop.induct)
  case (1 cfg p)
  define w where "w = take SOCKS5_SHARE_BUFFER_SZ (seg_bytes (pDecryptBuffer p))"
  note unfolded = "1.prems"(1) [unfolded read_loop.simps [of cfg p] Let_def w_def [symmetric]]
  show ?case
  proof (cases "decrypt w SOCKS5_SHARE_BUFFER_SZ")
    case DecryptUnderflow
    then show ?thesis using unfolded by simp
  next
    case (DecryptOut out rest)
    show ?thesis
    proof (cases "out = []")
      case True
      then show ?thesis using unfolded DecryptOut "1.prems"(2) by (simp add: R_refl)
    next
      case False
      define p1 where "p1 = p\<lparr>pDecryptBuffer := seg_consume (word_of_nat (length w - length rest)) (pDecryptBuffer p)\<rparr>"
      obtain p2 where p2: "dispatch cfg out p1 = Some p2" "read_loop cfg p2 = Some p'"
        using unfolded DecryptOut False by (auto simp: p1_def split: option.splits)
      have "R p p1" unfolding p1_def by (rule R_consume) (simp add: w_def)
      moreover have "R p1 p2 \<and> pState p2 \<noteq> S_END"
        using dispatch_R [OF _ p2(1)] "1.prems"(2) by (simp add: p1_def)
      moreover have "R p2 p' \<and> pState p' \<noteq> S_END"
        using "1.IH" [OF w_def DecryptOut False] p2 calculation(2) by (simp add: p1_def)
      ultimately show ?thesis using R_trans by blast
    qed
  qed
qed

lemma ensure_connected_R:
  "ensure_connected p = Some p' \<Longrightarrow> pOpen p \<Longrightarrow> \<not> s5_dead (pState p) \<Longrightarrow> R p p' \<and> pState p' = pState p"
  by (auto simp: ensure_connected_def R_refl rx_view_def dest: R_connected notify_view split: if_splits)

lemma ensure_connected_hears: "ensure_connected p = Some p' \<Longrightarrow> pConnected p' \<or> C_connected \<in> set (pCalls p')"
  by (auto simp: ensure_connected_def dest: notify_view split: if_splits)

lemma onReadable_R:
  assumes "\<not> s5_dead (pState p)" "pOpen p" "socks_onReadable cfg rd p = Some p'"
  shows "R p p'"
proof (cases rd)
  case (RdData xs)
  obtain p1 b where p1: "ensure_connected p = Some p1"
      "(if unat (seg_remain (pDecryptBuffer p1)) < length xs then seg_flip (pDecryptBuffer p1)
        else Some (pDecryptBuffer p1)) = Some b"
    using assms(3) RdData by (auto simp: socks_onReadable_def split: bind_splits)
  define p2 where "p2 = p1\<lparr>pDecryptBuffer := b\<rparr>"
  have st: "pState p2 = pState p" using ensure_connected_R [OF p1(1) assms(2,1)] by (simp add: p2_def)
  have "R p1 p2" using p1(2) by (auto simp: p2_def R_refl intro: R_flip split: if_splits)
  then have R2: "R p p2" using ensure_connected_R [OF p1(1) assms(2,1)] R_trans by blast
  have rest: "(if unat (seg_remain b) < length xs then switchS5State S_FAILED p2
      else do { b1 \<leftarrow> seg_put xs b; read_loop cfg (p2\<lparr>pDecryptBuffer := b1\<rparr>) }) = Some p'"
    using assms(3) p1 unfolding RdData socks_onReadable_def Let_def p2_def by simp
  show ?thesis
  proof (cases "unat (seg_remain b) < length xs")
    case True
    then show ?thesis using rest fail_R [of p2 p'] assms(1) st R2 R_trans by auto
  next
    case False
    obtain b1 where b1: "seg_put xs b = Some b1" "read_loop cfg (p2\<lparr>pDecryptBuffer := b1\<rparr>) = Some p'"
      using rest False by (auto split: bind_splits)
    have "R p2 (p2\<lparr>pDecryptBuffer := b1\<rparr>)"
      by (rule R_fill [of xs]) (use False b1(1) in \<open>simp_all add: p2_def\<close>)
    moreover have "R (p2\<lparr>pDecryptBuffer := b1\<rparr>) p'"
      using read_loop_R [OF b1(2)] st assms(1) by (cases "pState p") auto
    ultimately show ?thesis using R2 R_trans by blast
  qed
next
  case (RdError again)
  then have "(if again then Some p else switchS5State S_FAILED p) = Some p'"
    using assms(3) by (simp add: socks_onReadable_def)
  then show ?thesis using fail_R [OF assms(1), of p'] R_refl by (cases again) simp_all
next
  case RdEnd
  have "s5_next (pState p) S_END" using assms(1) by (cases "pState p") simp_all
  then show ?thesis using assms(3) RdEnd R_switch [of p S_END p'] by (simp add: socks_onReadable_def)
qed

lemma onWritable_R:
  assumes "\<not> s5_dead (pState p)" "pOpen p" "socks_onWritable cfg ks p = Some p'"
  shows "R p p'"
proof -
  obtain p1 where p1: "ensure_connected p = Some p1" using assms(3) by (auto simp: socks_onWritable_def split: bind_splits)
  note R1 = ensure_connected_R [OF p1 assms(2,1)]
  note rest = assms(3) [unfolded socks_onWritable_def p1, simplified]
  have "R p1 p'"
  proof (cases "pState p1 = S_TRANS")
    case True
    show ?thesis
    proof (cases "pOutQueue p1 = []")
      case False
      then obtain n where "sendQueue Q_OUT ks p1 = Some (n, p')" using rest True by auto
      then show ?thesis using R_send [of Q_OUT p1] True by simp
    next
      case empty: True
      then obtain r p2 where p2: "callback C_writable p1 = Some (r, p2)"
          "(if r \<le> 0 then on_reactor (\<lambda>p. p\<lparr>pWriteEv := False\<rparr>) p2 else Some p2) = Some p'"
        using rest True by (auto split: bind_splits)
      have "R p1 p2" using R_writable [OF True p2(1)] .
      then show ?thesis using p2(2) R_event R_trans by (auto simp: on_reactor_def split: if_splits)
    qed
  next
    case notrans: False
    show ?thesis
    proof (cases "pState p1 = S_INIT")
      case True
      then obtain r p2 where "sendS5Greet cfg p1 = Some (r, p2)" "switchS5State S_GREET p2 = Some p'"
        using rest by (auto split: bind_splits)
      moreover from this have "pConnected p2 \<or> C_connected \<in> set (pCalls p2)"
        using greet_keeps ensure_connected_hears [OF p1] by fastforce
      ultimately show ?thesis using switch_R [OF greet_R, of cfg p1 r p2 S_GREET p'] True by simp
    next
      case False
      then have "(if pSocks5 p1 = [] then on_reactor (\<lambda>p. p\<lparr>pWriteEv := False\<rparr>) p1
          else map_option snd (sendQueue Q_SOCKS5 ks p1)) = Some p'" using rest notrans by simp
      then show ?thesis using R_event R_send [of Q_SOCKS5 p1 ks _ p'] notrans
        by (auto simp: on_reactor_def split: if_splits)
    qed
  qed
  then show ?thesis using R1 R_trans by blast
qed

lemma step_R:
  assumes "s5_step cfg p p'" "live p"
  shows "R p p'"
  using assms
proof (cases rule: s5_step.cases)
  case (failing)
  then have "s5_next (pState p) S_END" using assms(2) by (cases "pState p") (simp_all add: live_def)
  then show ?thesis using failing R_switch [of p S_END p'] by (simp add: socks_onException_def)
qed (auto simp: live_def intro: onReadable_R onWritable_R R_act)

end

section \<open>The socket is closed when the connection is dead\<close>

lemma destroyTunnel_flags [simp]:
  "pOpen (destroyTunnel p) = False" "pAlive (destroyTunnel p) = False" "pReactor (destroyTunnel p) = False"
  "pConnected (destroyTunnel p) = False" "pState (destroyTunnel p) = pState p"
  by (simp_all add: destroyTunnel_def Let_def)

lemma do_act_flags: "do_act a p = Some p' \<Longrightarrow> pOpen p' \<longrightarrow> pOpen p"
  by (cases a) (auto simp: event_defs sendData_def dest: encryptAndQueue_flags split: if_splits)

lemma do_acts_flags: "do_acts as p = Some p' \<Longrightarrow> pOpen p' \<longrightarrow> pOpen p"
proof (induction as arbitrary: p)
  case (Cons a as)
  then obtain p1 where "do_act a p = Some p1" "do_acts as p1 = Some p'" by (auto split: bind_splits)
  then show ?case using Cons.IH do_act_flags by blast
qed simp

lemma callback_flags: "callback c p = Some (r, p') \<Longrightarrow> pOpen p' \<longrightarrow> pOpen p"
  by (auto simp: callback_def dest: do_acts_flags split: prod.splits)

lemma notify_flags: "notify c p = Some p' \<Longrightarrow> pOpen p' \<longrightarrow> pOpen p"
  by (auto simp: notify_def dest: callback_flags)

lemma switchS5State_live: "switchS5State st p = Some p' \<Longrightarrow> pState p \<noteq> st \<Longrightarrow> (pOpen p' \<longrightarrow> pOpen p) \<and> live p'"
proof -
  assume sw: "switchS5State st p = Some p'" and ne: "pState p \<noteq> st"
  have "pState p' = st" using switchS5State_view [OF sw] by simp
  then show ?thesis using sw ne
    by (cases st) (auto simp: switchS5State_def live_def Let_def
        dest: notify_flags split: bind_splits)
qed

text \<open>What sending leaves alone.\<close>

definition ctl_view :: "proxy \<Rightarrow> bool \<times> bool \<times> bool \<times> bool \<times> s5state \<times> client_call list \<times> segment \<times> (client_call list \<Rightarrow> client_act list \<times> int)" where
  "ctl_view p = (pOpen p, pAlive p, pConnected p, pReactor p, pState p, pCalls p, pDecryptBuffer p, pTurns p)"

lemma ctl_view_updates [simp]:
  "ctl_view (p\<lparr>pWire := b\<rparr>) = ctl_view p" "ctl_view (p\<lparr>pWriteEv := e\<rparr>) = ctl_view p"
  "ctl_view (p\<lparr>pBufferedSize := k\<rparr>) = ctl_view p" "ctl_view (set_queue q xs p) = ctl_view p"
  by (simp_all add: ctl_view_def) (cases q; simp add: set_queue_def)

lemma send_queue_loop_Nil [simp]: "queue_of q p = [] \<Longrightarrow> send_queue_loop q ks sent p = Some (sent, p)"
  by (simp add: send_queue_loop.simps)

lemma send_queue_loop_stop [simp]: "send_queue_loop q [] sent p = Some (sent, p)"
  by (simp add: send_queue_loop.simps split: list.split)

lemma send_queue_loop_Cons:
  "queue_of q p = sg # sgs \<Longrightarrow>
   send_queue_loop q (k # ks) sent p =
     (let n = min k (uint (seg_size sg))
      in if n < 0 then Some (sent, p)
         else
           (let sg1 = seg_consume (word_of_int n) sg;
                p1 = p\<lparr>pWire := pWire p @ take (nat n) (seg_bytes sg)\<rparr>
            in if seg_size sg1 \<le> 0
               then (if seg_delete_ok sg1
                     then send_queue_loop q ks (sent + word_of_int n) (set_queue q sgs p1)
                     else None)
               else send_queue_loop q ks (sent + word_of_int n) (set_queue q (sg1 # sgs) p1)))"
  by (simp add: send_queue_loop.simps)

lemma send_queue_loop_frame:
  "send_queue_loop q ks sent p = Some (n, p') \<Longrightarrow> ctl_view p' = ctl_view p"
proof (induction ks arbitrary: sent p)
  case (Cons k ks)
  show ?case
  proof (cases "queue_of q p")
    case (Cons sg sgs)
    show ?thesis
      using Cons.prems Cons.IH unfolding send_queue_loop_Cons [OF Cons] Let_def
      by (fastforce split: if_splits)
  qed (use Cons.prems in simp)
qed simp

lemma sendQueue_frame: "sendQueue q ks p = Some (n, p') \<Longrightarrow> ctl_view p' = ctl_view p"
  by (auto simp: sendQueue_def on_reactor_def dest!: send_queue_loop_frame split: if_splits bind_splits)

interpretation alive: proxy_frame "\<lambda>p p'. live p \<longrightarrow> live p'"
proof unfold_locales
  fix a p p' assume "do_act a p = Some p'"
  then show "live p \<longrightarrow> live p'" using do_act_flags do_act_view by (fastforce simp: live_def rx_view_def)
next
  fix m p n p' assume "encryptAndQueue Q_SOCKS5 m p = Some (n, p')"
  then show "live p \<longrightarrow> live p'" using encryptAndQueue_flags encryptAndQueue_view by (fastforce simp: live_def rx_view_def)
next
  fix p p' assume "notify C_connected (p\<lparr>pConnected := True\<rparr>) = Some p'"
  then show "live p \<longrightarrow> live p'" using notify_flags notify_view by (fastforce simp: live_def rx_view_def)
next
  fix p p' xs tot assume "notify (C_dataBack xs) (p\<lparr>pPayloadDataBack := tot\<rparr>) = Some p'"
  then show "live p \<longrightarrow> live p'" using notify_flags notify_view by (fastforce simp: live_def rx_view_def)
next
  fix p p' r assume "callback C_writable p = Some (r, p')"
  then show "live p \<longrightarrow> live p'" using callback_flags callback_view by (fastforce simp: live_def rx_view_def)
next
  fix p p' st assume "s5_next (pState p) st" "switchS5State st p = Some p'"
  then show "live p \<longrightarrow> live p'" using switchS5State_live by (cases "pState p = st") (auto simp: switchS5State_def)
next
  fix q ks p sent p' assume "sendQueue q ks p = Some (sent, p')"
  then show "live p \<longrightarrow> live p'" using sendQueue_frame by (fastforce simp: live_def ctl_view_def)
qed (auto simp: live_def)

context proxy_frame
begin

lemma steps_R: "(s5_step cfg)\<^sup>*\<^sup>* p p' \<Longrightarrow> live p \<Longrightarrow> R p p' \<and> live p'"
proof (induction rule: rtranclp_induct)
  case base
  then show ?case using R_refl by simp
next
  case (step p1 p2)
  then have l: "live p1" "R p p1" by simp_all
  then show ?case using step_R [OF step(2)] alive.step_R [OF step(2)] R_trans by blast
qed

end

section \<open>What the client is told\<close>

lemma switchS5State_calls:
  assumes "switchS5State st p = Some p'" "pState p \<noteq> st"
  shows "pCalls p' = pCalls p @ (if st = S_TRANS then [C_writable] else if s5_dead st then [C_disconnected] else [])"
  using assms by (cases st) (auto simp: switchS5State_def Let_def dest: notify_view split: bind_splits)

text \<open>
  The client is told of the connection first, at most once, and before the handshake starts; of the end once if the connection is
  dead and not otherwise, and of nothing afterwards; and it got data only after the handshake.
\<close>

definition told :: "proxy \<Rightarrow> bool" where
  "told p \<longleftrightarrow> count_list (pCalls p) C_disconnected = (if s5_dead (pState p) then 1 else 0)
     \<and> C_disconnected \<notin> set (butlast (pCalls p))
     \<and> (pState p \<in> {S_INIT, S_GREET, S_VERIFY, S_CONNECT} \<longrightarrow>
          C_writable \<notin> set (pCalls p) \<and> (\<forall>xs. C_dataBack xs \<notin> set (pCalls p)))
     \<and> count_list (pCalls p) C_connected \<le> 1
     \<and> (pCalls p \<noteq> [] \<and> pCalls p \<noteq> [C_disconnected] \<longrightarrow> hd (pCalls p) = C_connected)
     \<and> (pState p \<in> {S_GREET, S_VERIFY, S_CONNECT, S_TRANS} \<longrightarrow> C_connected \<in> set (pCalls p))
     \<and> (pConnected p \<longrightarrow> C_connected \<in> set (pCalls p))
     \<and> (pOpen p \<and> C_connected \<in> set (pCalls p) \<longrightarrow> pConnected p)"

definition tells :: "proxy \<Rightarrow> proxy \<Rightarrow> bool" where
  "tells p p' \<longleftrightarrow> (told p \<longrightarrow> told p') \<and> s5_next\<^sup>*\<^sup>* (pState p) (pState p')"

text \<open>The client's calls may only end the connection.\<close>

definition calmer :: "proxy \<Rightarrow> proxy \<Rightarrow> bool" where
  "calmer p p' \<longleftrightarrow> (pConnected p' \<longrightarrow> pConnected p) \<and> (pOpen p' \<longrightarrow> pOpen p \<and> pConnected p' = pConnected p)"

lemma calmer_refl [simp]: "calmer p p"
  by (simp add: calmer_def)

lemma do_act_calmer: "do_act a p = Some p' \<Longrightarrow> calmer p p'"
  by (cases a) (auto simp: calmer_def event_defs sendData_def destroyTunnel_def Let_def
      dest!: encryptAndQueue_flags split: if_splits)

lemma do_acts_calmer: "do_acts as p = Some p' \<Longrightarrow> calmer p p'"
proof (induction as arbitrary: p)
  case (Cons a as)
  then obtain p1 where "do_act a p = Some p1" "do_acts as p1 = Some p'" by (auto split: bind_splits)
  then have "calmer p p1" "calmer p1 p'" using do_act_calmer Cons.IH by blast+
  then show ?case by (auto simp: calmer_def)
qed simp

lemma callback_calmer: "callback c p = Some (r, p') \<Longrightarrow> calmer p p'"
  by (auto simp: callback_def calmer_def dest!: do_acts_calmer split: prod.splits)

lemma notify_calmer: "notify c p = Some p' \<Longrightarrow> calmer p p'"
  by (auto simp: notify_def dest: callback_calmer)

lemma tells_same: "pState p' = pState p \<Longrightarrow> pCalls p' = pCalls p \<Longrightarrow> calmer p p' \<Longrightarrow> tells p p'"
  by (auto simp: tells_def told_def calmer_def)

text \<open>One more call after the first.\<close>

lemma told_call:
  assumes "told p" "\<not> s5_dead (pState p)" "C_connected \<in> set (pCalls p)" "c \<noteq> C_connected" "c \<noteq> C_disconnected"
    "pCalls p' = pCalls p @ [c]" "pState p' = S_TRANS" "calmer p p'"
  shows "told p'"
proof -
  have no: "C_disconnected \<notin> set (pCalls p)" using assms(1,2) by (simp add: told_def count_list_0_iff)
  have ne: "pCalls p \<noteq> []" "pCalls p \<noteq> [C_disconnected]" using assms(3) by auto
  have h: "hd (pCalls p) = C_connected" "count_list (pCalls p) C_connected \<le> 1" "pOpen p \<longrightarrow> pConnected p"
    using assms(1,3) ne by (simp_all add: told_def)
  have "count_list (pCalls p') C_disconnected = 0" "C_disconnected \<notin> set (butlast (pCalls p'))"
      "count_list (pCalls p') C_connected \<le> 1" "hd (pCalls p') = C_connected" "C_connected \<in> set (pCalls p')"
    using no ne h(1,2) assms(3-6) by (simp_all add: count_list_append count_list_0_iff)
  then show ?thesis using assms(7,8) h(3) unfolding told_def calmer_def by simp
qed

lemma told_first:
  assumes "told p" "\<not> pConnected p" "pOpen p" "\<not> s5_dead (pState p)"
    "pCalls p' = pCalls p @ [C_connected]" "pState p' = pState p" "calmer (p\<lparr>pConnected := True\<rparr>) p'"
  shows "told p'"
proof -
  have no: "C_connected \<notin> set (pCalls p)" using assms(1-3) unfolding told_def by blast
  have fin: "C_disconnected \<notin> set (pCalls p)" using assms(1,4) by (simp add: told_def count_list_0_iff)
  have "pCalls p = []"
  proof (rule ccontr)
    assume ne: "pCalls p \<noteq> []"
    moreover have "pCalls p \<noteq> [C_disconnected]" using fin by auto
    ultimately have "hd (pCalls p) = C_connected" using assms(1) by (simp add: told_def)
    then show False using ne no by (metis list.set_sel(1))
  qed
  then have c: "pCalls p' = [C_connected]" using assms(5) by simp
  then show ?thesis using assms(4,6,7) unfolding told_def calmer_def c by simp
qed

lemma told_last:
  assumes "told p" "\<not> s5_dead (pState p)" "pCalls p' = pCalls p @ [C_disconnected]" "s5_dead (pState p')"
    "\<not> pConnected p'" "\<not> pOpen p'"
  shows "told p'"
proof -
  have no: "C_disconnected \<notin> set (pCalls p)" using assms(1,2) by (simp add: told_def count_list_0_iff)
  then have "pCalls p \<noteq> [C_disconnected]" by auto
  then have h: "pCalls p \<noteq> [] \<Longrightarrow> hd (pCalls p) = C_connected" "count_list (pCalls p) C_connected \<le> 1"
    using assms(1) by (simp_all add: told_def)
  have "count_list (pCalls p') C_disconnected = 1" "C_disconnected \<notin> set (butlast (pCalls p'))"
      "count_list (pCalls p') C_connected \<le> 1"
      "pCalls p' = [C_disconnected] \<or> hd (pCalls p') = C_connected"
    using no h by (cases "pCalls p"; simp add: assms(3) count_list_append count_list_0_iff butlast_append)+
  moreover have "pState p' \<notin> {S_INIT, S_GREET, S_VERIFY, S_CONNECT, S_TRANS}" using assms(4) by auto
  ultimately show ?thesis using assms(4-6) unfolding told_def by auto
qed

lemma switchS5State_trans:
  assumes "switchS5State S_TRANS p = Some p'" "pState p \<noteq> S_TRANS"
  shows "calmer p p'"
proof -
  have "notify C_writable (p\<lparr>pState := S_TRANS\<rparr>) = Some p'" using assms by (simp add: switchS5State_def)
  from notify_calmer [OF this] show ?thesis by (simp add: calmer_def)
qed

lemma switchS5State_dead:
  assumes "switchS5State st p = Some p'" "pState p \<noteq> st" "s5_dead st"
  shows "\<not> pConnected p' \<and> \<not> pOpen p'"
  using assms by (cases st) (auto simp: switchS5State_def Let_def split: bind_splits)

interpretation told: proxy_frame tells
proof unfold_locales
  fix p1 p2 p3 assume "tells p1 p2" "tells p2 p3"
  then show "tells p1 p3" unfolding tells_def by (meson rtranclp_trans)
next
  fix a p p' assume "do_act a p = Some p'"
  then show "tells p p'" using do_act_view do_act_calmer by (fastforce simp: rx_view_def intro: tells_same)
next
  fix m p n p' assume e: "encryptAndQueue Q_SOCKS5 m p = Some (n, p')"
  have "calmer p p'" using encryptAndQueue_flags [OF e] by (simp add: calmer_def)
  then show "tells p p'" using encryptAndQueue_view [OF e] by (intro tells_same) (simp_all add: rx_view_def)
next
  fix p p' assume f: "\<not> pConnected p" "pOpen p" "\<not> s5_dead (pState p)"
    and n: "notify C_connected (p\<lparr>pConnected := True\<rparr>) = Some p'"
  have v: "pCalls p' = pCalls p @ [C_connected]" "pState p' = pState p" using notify_view [OF n] by (simp_all add: rx_view_def)
  then show "tells p p'" using told_first [OF _ f v notify_calmer [OF n]] by (simp add: tells_def)
next
  fix p p' xs tot assume st: "pState p = S_TRANS" and n: "notify (C_dataBack xs) (p\<lparr>pPayloadDataBack := tot\<rparr>) = Some p'"
  have v: "pCalls p' = pCalls p @ [C_dataBack xs]" "pState p' = S_TRANS" using notify_view [OF n] st by (simp_all add: rx_view_def)
  have "calmer p p'" using notify_calmer [OF n] by (simp add: calmer_def)
  moreover have "C_connected \<in> set (pCalls p)" if "told p" using that st by (simp add: told_def)
  ultimately show "tells p p'" using told_call [OF _ _ _ _ _ v] st by (simp add: tells_def v(2))
next
  fix p p' r assume st: "pState p = S_TRANS" and n: "callback C_writable p = Some (r, p')"
  have v: "pCalls p' = pCalls p @ [C_writable]" "pState p' = S_TRANS" using callback_view [OF n] st by (simp_all add: rx_view_def)
  have "C_connected \<in> set (pCalls p)" if "told p" using that st by (simp add: told_def)
  then show "tells p p'" using told_call [OF _ _ _ _ _ v] callback_calmer [OF n] st by (simp add: tells_def v(2))
next
  fix p p' st assume nx: "s5_next (pState p) st" and con: "st = S_GREET \<Longrightarrow> pConnected p \<or> C_connected \<in> set (pCalls p)"
    and sw: "switchS5State st p = Some p'"
  have ne: "pState p \<noteq> st" and dead: "\<not> s5_dead (pState p)" using nx by (cases "pState p"; cases st; simp)+
  have st: "pState p' = st" using switchS5State_view [OF sw] by simp
  note calls = switchS5State_calls [OF sw ne]
  have "told p'" if t: "told p"
  proof (cases "s5_dead st")
    case True
    then show ?thesis using told_last [OF t dead] calls switchS5State_dead [OF sw ne] st by (cases st) auto
  next
    case alive: False
    show ?thesis
    proof (cases "st = S_TRANS")
      case True
      then have "pState p = S_CONNECT" using nx by (cases "pState p") simp_all
      then show ?thesis
        using told_call [OF t dead, of C_writable p'] calls st True t switchS5State_trans sw by (simp add: told_def)
    next
      case False
      then have "p' = p\<lparr>pState := st\<rparr>" using sw ne alive by (cases st) (simp_all add: switchS5State_def)
      then show ?thesis using t nx con alive False by (cases "pState p"; cases st) (auto simp: told_def)
    qed
  qed
  then show "tells p p'" using nx st by (auto simp: tells_def)
next
  fix q ks p sent p' assume "sendQueue q ks p = Some (sent, p')"
  then show "tells p p'" using sendQueue_frame by (fastforce simp: ctl_view_def calmer_def intro: tells_same)
qed (simp_all add: tells_def told_def)

interpretation turns: proxy_frame "\<lambda>p p'. pTurns p' = pTurns p"
proof unfold_locales
  fix p p' st assume "switchS5State st p = Some p'"
  then show "pTurns p' = pTurns p"
    by (cases st) (auto simp: switchS5State_def rx_view_def Let_def destroyTunnel_def dest!: notify_view
        split: if_splits bind_splits)
next
  fix q ks p sent p' assume "sendQueue q ks p = Some (sent, p')"
  then show "pTurns p' = pTurns p" using sendQueue_frame by (fastforce simp: ctl_view_def)
qed (auto simp: rx_view_def dest!: do_act_view encryptAndQueue_view notify_view callback_view)

text \<open>A proxy as \<^verbatim>\<open>establish\<close> leaves it: the constructor, the two setters and the connection.\<close>

definition proxy_born :: "byte \<Rightarrow> bytes \<Rightarrow> u16 \<Rightarrow> byte \<Rightarrow> (client_call list \<Rightarrow> client_act list \<times> int) \<Rightarrow>
    (nat \<Rightarrow> nat \<Rightarrow> nat \<Rightarrow> nat) \<Rightarrow> int \<times> proxy" where
  "proxy_born ver addr port pr turns draws =
     establish True True True True True (setDestAddr ver addr port (setProtocol pr (proxy_new True True turns draws)))"

lemma proxy_born_fields:
  assumes "proxy_born ver addr port pr turns draws = (0, p)"
  shows "pAlive p" "pOpen p" "pReactor p" "pState p = S_INIT" "pCalls p = []" "pSocks5 p = []" "pOutQueue p = []"
    "pBufferedSize p = 0" "pWire p = []" "pTurns p = turns" "pDraws p = draws" "pDrawn p = 0" "\<not> pConnected p"
    "pDecryptBuffer p = segment_new 32768" "pDestIPVer p = ver" "pDestPort p = port" "pProtocol p = pr"
    "pDestAddr p = (if ver = 4 then take 4 addr @ drop (min (length addr) 4) (replicate 16 0) else take 16 addr)"
  using assms
  by (cases "ver = 4"; auto simp: proxy_born_def establish_def setDestAddr_def setProtocol_def proxy_new_def
      MAX_PARCEL_SIZE_def blit_def)+

lemma proxy_born_ok:
  "proxy_born ver addr port pr turns draws = (0, p) \<Longrightarrow> live p \<and> told p"
  using proxy_born_fields by (fastforce simp: live_def told_def)

lemma proxy_born_some: "fst (proxy_born ver addr port pr turns draws) = 0"
  by (cases "ver = 4") (simp_all add: proxy_born_def establish_def setDestAddr_def setProtocol_def proxy_new_def)

text \<open>
  Claim C16. The client of the SOCKS5 tunnel is told the truth. In every run, whatever bytes the server sends and whatever the
  client does in its callbacks, the client hears of the connection at most once, and before anything else unless all it ever hears is
  that the connection has ended; it has heard of it when the handshake has begun. It hears of the end exactly once, only when the
  connection has ended, and of nothing afterwards; then the socket is closed. It is asked for data and given data only after the
  handshake is complete, and the handshake never goes back.
\<close>

theorem socks_client_told:
  assumes "proxy_born ver addr port pr turns draws = (0, p0)" "(s5_step cfg)\<^sup>*\<^sup>* p0 p"
  shows "count_list (pCalls p) C_connected \<le> 1
    \<and> (pCalls p = [] \<or> pCalls p = [C_disconnected] \<or> hd (pCalls p) = C_connected)
    \<and> (pState p \<in> {S_GREET, S_VERIFY, S_CONNECT, S_TRANS} \<longrightarrow> hd (pCalls p) = C_connected)
    \<and> count_list (pCalls p) C_disconnected = (if s5_dead (pState p) then 1 else 0)
    \<and> C_disconnected \<notin> set (butlast (pCalls p))
    \<and> (s5_dead (pState p) \<longrightarrow> \<not> pOpen p)
    \<and> (C_writable \<in> set (pCalls p) \<or> (\<exists>xs. C_dataBack xs \<in> set (pCalls p)) \<longrightarrow> pState p \<in> {S_TRANS, S_END, S_FAILED})
    \<and> s5_next\<^sup>*\<^sup>* S_INIT (pState p)"
proof -
  have "tells p0 p" "live p"
    using told.steps_R [OF assms(2)] proxy_born_ok [OF assms(1)] by simp_all
  then have t: "told p" "live p" "s5_next\<^sup>*\<^sup>* S_INIT (pState p)"
    using proxy_born_ok [OF assms(1)] proxy_born_fields(4) [OF assms(1)] by (simp_all add: tells_def)
  have "hd (pCalls p) = C_connected" if "C_connected \<in> set (pCalls p)"
    using t(1) that by (auto simp: told_def)
  then show ?thesis using t by (cases "pState p") (auto simp: told_def live_def)
qed

text \<open>A proxy to test the theorems on: the client does nothing in its callbacks.\<close>

definition sample_proxy :: proxy where
  "sample_proxy = snd (proxy_born 4 [10, 0, 0, 1] 80 6 (\<lambda>cs. ([], 0)) (\<lambda>_ _ _. 0))"

lemma sample_proxy_born: "proxy_born 4 [10, 0, 0, 1] 80 6 (\<lambda>cs. ([], 0)) (\<lambda>_ _ _. 0) = (0, sample_proxy)"
  using proxy_born_some by (metis prod.collapse sample_proxy_def)

lemma sample_exception:
  "\<exists>p. socks_onException sample_proxy = Some p \<and> pState p = S_END"
  using proxy_born_fields [OF sample_proxy_born]
  by (simp add: socks_onException_def switchS5State_def notify_def callback_def Let_def)

text \<open>It reads one byte, the beginning of a frame, and then the connection fails.\<close>

lemma sample_reads:
  "\<exists>p. socks_onReadable cfg (RdData [1]) sample_proxy = Some p \<and> pCalls p = [C_connected] \<and> pState p = S_INIT \<and> pOpen p"
proof -
  note f = proxy_born_fields [OF sample_proxy_born]
  define p1 where "p1 = sample_proxy\<lparr>pConnected := True, pCalls := [C_connected]\<rparr>"
  have c: "ensure_connected sample_proxy = Some p1"
    using f by (simp add: ensure_connected_def notify_def callback_def p1_def)
  have b: "pDecryptBuffer p1 = segment_new 32768" using f by (simp add: p1_def)
  have rem: "unat (seg_remain (segment_new 32768)) = 32768" by (simp add: segment_new_def seg_remain_def seg_max_def)
  obtain b1 where b1: "seg_put [1] (segment_new 32768) = Some b1" "seg_bytes b1 = [1]"
    using seg_put_fits [OF segment_new_inv, of "[1]" 32768] rem by (auto simp: segment_new_bytes)
  have "decrypt [1] SOCKS5_SHARE_BUFFER_SZ = DecryptOut [] [1]"
    by (simp add: decrypt_def decrypt_loop.simps unpack_def SOCKS5_SHARE_BUFFER_SZ_def estimateDecryptLen_def cipher_sizes)
  then have "read_loop cfg (p1\<lparr>pDecryptBuffer := b1\<rparr>) = Some (p1\<lparr>pDecryptBuffer := b1\<rparr>)"
    by (subst read_loop.simps) (simp add: b1(2) SOCKS5_SHARE_BUFFER_SZ_def cipher_sizes)
  then have "socks_onReadable cfg (RdData [1]) sample_proxy = Some (p1\<lparr>pDecryptBuffer := b1\<rparr>)"
    using c b rem b1(1) by (simp add: socks_onReadable_def)
  then show ?thesis using f by (simp add: p1_def)
qed

definition sample_s5conf :: s5conf where
  "sample_s5conf = \<lparr>verifyMethod = 0, s5User = None, s5Password = None, s5Stale = 0\<rparr>"

theorem socks_client_told_witness:
  "\<exists>p q. socks_onReadable sample_s5conf (RdData [1]) sample_proxy = Some p \<and> socks_onException p = Some q \<and> pState q = S_END
    \<and> pCalls q = [C_connected, C_disconnected] \<and> count_list (pCalls q) C_connected \<le> 1
    \<and> hd (pCalls q) = C_connected \<and> C_disconnected \<notin> set (butlast (pCalls q)) \<and> \<not> pOpen q"
proof -
  obtain p where p: "socks_onReadable sample_s5conf (RdData [1]) sample_proxy = Some p" "pCalls p = [C_connected]"
      "pState p = S_INIT" "pOpen p"
    using sample_reads by blast
  have r: "(s5_step sample_s5conf)\<^sup>*\<^sup>* sample_proxy p"
    using s5_step.readable [OF proxy_born_fields(2) [OF sample_proxy_born] p(1)] by (rule r_into_rtranclp)
  have "pTurns p = (\<lambda>cs. ([], 0))"
    using turns.steps_R [OF r] proxy_born_ok [OF sample_proxy_born] proxy_born_fields(10) [OF sample_proxy_born] by simp
  then obtain q where q: "socks_onException p = Some q" "pState q = S_END" "pCalls q = [C_connected, C_disconnected]"
    using p(2,3) by (auto simp: socks_onException_def switchS5State_def notify_def callback_def Let_def)
  have "(s5_step sample_s5conf)\<^sup>*\<^sup>* sample_proxy q"
    using r s5_step.failing [OF p(4) q(1)] by (rule rtranclp.rtrancl_into_rtrancl)
  from socks_client_told [OF sample_proxy_born this] show ?thesis using p(1) q by simp
qed

end
