(* ===== verification/SocksChannel.thy ===== *)
theory SocksChannel
  imports SocksRun
begin

text \<open>
  The SOCKS5 tunnel as a byte channel: the invariant of the proxy's buffers, the absence of NULL calls, what
  the wire carries as a refinement of an abstract stream of bytes, and what the client receives.
\<close>

section \<open>The invariant of the buffers\<close>

definition seg_full :: "'a segment_scheme \<Rightarrow> bool" where
  "seg_full sg \<longleftrightarrow> seg_inv sg \<and> seg_bytes sg \<noteq> []"

definition queue_bytes :: "segment list \<Rightarrow> bytes" where
  "queue_bytes q = concat (map seg_bytes q)"

definition buffers_ok :: "proxy \<Rightarrow> bool" where
  "buffers_ok p \<longleftrightarrow>
     (\<forall>sg \<in> set (pSocks5 p). seg_full sg) \<and> (\<forall>sg \<in> set (pOutQueue p). seg_full sg)
     \<and> pBufferedSize p = word_of_nat (length (queue_bytes (pSocks5 p)) + length (queue_bytes (pOutQueue p)))
     \<and> seg_inv (pDecryptBuffer p) \<and> mSize (pDecryptBuffer p) = 32768 \<and> length (pDestAddr p) = 16"

text \<open>While the tunnel is alive its socket is registered with a reactor.\<close>

definition wired :: "proxy \<Rightarrow> bool" where
  "wired p \<longleftrightarrow> (pOpen p \<longrightarrow> pAlive p) \<and> (pAlive p \<longrightarrow> pOpen p \<and> pReactor p)"

lemma encrypt_eq:
  "0 < length m \<Longrightarrow>
   encrypt rnds m SOCKS5_SHARE_BUFFER_SZ = (min (length m) MAX_ENCRYPT_SIZE, frame rnds (take MAX_ENCRYPT_SIZE m))"
proof -
  assume m: "0 < length m"
  have le: "estimateEncryptLen (min (length m) MAX_ENCRYPT_SIZE) \<le> MAX_PARCEL_SIZE"
    by (rule estimateEncryptLen_fits) simp
  show ?thesis
    using m le unfolding frame_def encrypt_def SOCKS5_SHARE_BUFFER_SZ_def Let_def
    by (cases "length m > MAX_ENCRYPT_SIZE") (auto simp: min_def cipher_sizes)
qed

lemma encrypt_empty: "encrypt rnds [] room = (0, [])"
  by (simp add: encrypt_def)

text \<open>The segment of one message: it holds the whole frame.\<close>

lemma segment_holds:
  assumes "0 < length xs" "length xs \<le> 524288"
  shows "\<exists>sg. seg_put xs (segment_new (word_of_nat (length xs))) = Some sg \<and> seg_full sg \<and> seg_bytes sg = xs"
proof -
  have un: "unat (word_of_nat (length xs) :: size_t) = length xs" using assms(2) by simp
  have inv: "seg_inv (segment_new (word_of_nat (length xs)))" by (rule segment_new_inv)
  have nz: "(word_of_nat (length xs) :: size_t) \<noteq> 0" using un assms(1) by (metis less_irrefl unat_0)
  have "unat (seg_remain (segment_new (word_of_nat (length xs)))) = length xs"
    using un assms nz by (auto simp: segment_new_def seg_remain_def word_less_nat_alt)
  then obtain sg where "seg_put xs (segment_new (word_of_nat (length xs))) = Some sg" "seg_inv sg"
      "seg_bytes sg = seg_bytes (segment_new (word_of_nat (length xs))) @ xs"
    using seg_put_fits [OF inv, of xs] by auto
  then show ?thesis using assms(1) by (auto simp: seg_full_def segment_new_bytes)
qed

lemma word_of_nat_add: "word_of_nat a + word_of_nat b = (word_of_nat (a + b) :: 'a::len word)"
  by simp

lemma frame_cut:
  assumes "m \<noteq> []"
  shows "frame r (take MAX_ENCRYPT_SIZE m) \<noteq> []" "length (frame r (take MAX_ENCRYPT_SIZE m)) \<le> 4114"
proof -
  have "0 < length (take MAX_ENCRYPT_SIZE m)" "length (take MAX_ENCRYPT_SIZE m) \<le> MAX_ENCRYPT_SIZE"
    using assms by (simp_all add: MAX_ENCRYPT_SIZE_def)
  from length_frame [OF this, of r] show "frame r (take MAX_ENCRYPT_SIZE m) \<noteq> []"
      "length (frame r (take MAX_ENCRYPT_SIZE m)) \<le> 4114" by auto
qed

text \<open>
  The central lemma: \<^verbatim>\<open>encryptAndQueue\<close> takes at most 4096 bytes and appends their frame to the queue.
\<close>

lemma encryptAndQueue_effect:
  assumes r: "pReactor p" and m: "0 < length m"
  shows "\<exists>p' sg. encryptAndQueue q m p = Some (int (min (length m) MAX_ENCRYPT_SIZE), p')
     \<and> p' = (set_queue q (queue_of q p @ [sg]) (p\<lparr>pDrawn := pDrawn p + 1\<rparr>))
          \<lparr>pWriteEv := True, pBufferedSize := pBufferedSize p + word_of_nat (length (seg_bytes sg))\<rparr>
     \<and> seg_full sg \<and> seg_bytes sg = frame (pDraws p (pDrawn p)) (take MAX_ENCRYPT_SIZE m)"
proof -
  define f where "f = frame (pDraws p (pDrawn p)) (take MAX_ENCRYPT_SIZE m)"
  have f: "0 < length f" "length f \<le> 524288"
    using frame_cut [of m "pDraws p (pDrawn p)"] m by (auto simp: f_def)
  obtain sg where sg: "seg_put f (segment_new (word_of_nat (length f))) = Some sg" "seg_full sg" "seg_bytes sg = f"
    using segment_holds [OF f] by blast
  have "encryptAndQueue q m p = Some (int (min (length m) MAX_ENCRYPT_SIZE),
      (set_queue q (queue_of q p @ [sg]) (p\<lparr>pDrawn := pDrawn p + 1\<rparr>))
          \<lparr>pWriteEv := True, pBufferedSize := pBufferedSize p + word_of_nat (length (seg_bytes sg))\<rparr>)"
    using r f(1) sg unfolding encryptAndQueue_def encrypt_eq [OF m] f_def [symmetric]
    by (cases q) (simp_all add: Let_def on_reactor_def set_queue_def queue_of_def)
  then show ?thesis using sg(2,3) unfolding f_def by blast
qed

lemma encryptAndQueue_nothing: "encryptAndQueue q [] p = Some (0, p\<lparr>pDrawn := pDrawn p + 1\<rparr>)"
  by (simp add: encryptAndQueue_def encrypt_empty)

lemma encryptAndQueue_no_reactor: "\<not> pReactor p \<Longrightarrow> 0 < length m \<Longrightarrow> encryptAndQueue q m p = None"
proof -
  assume r: "\<not> pReactor p" and m: "0 < length m"
  have "0 < length (frame (pDraws p (pDrawn p)) (take MAX_ENCRYPT_SIZE m))" using frame_cut(1) [of m] m by auto
  then show ?thesis using r unfolding encryptAndQueue_def encrypt_eq [OF m]
    by (cases q; cases "seg_put (frame (pDraws p (pDrawn p)) (take MAX_ENCRYPT_SIZE m)) (segment_new (word_of_nat
        (length (frame (pDraws p (pDrawn p)) (take MAX_ENCRYPT_SIZE m)))))")
      (simp_all add: on_reactor_def set_queue_def Let_def)
qed

lemma encryptAndQueue_cases:
  assumes "encryptAndQueue q m p = Some (n, p')"
  obtains "m = []" "n = 0" "p' = p\<lparr>pDrawn := pDrawn p + 1\<rparr>"
  | sg where "m \<noteq> []" "n = int (min (length m) MAX_ENCRYPT_SIZE)" "pReactor p" "seg_full sg"
      "p' = (set_queue q (queue_of q p @ [sg]) (p\<lparr>pDrawn := pDrawn p + 1\<rparr>))
          \<lparr>pWriteEv := True, pBufferedSize := pBufferedSize p + word_of_nat (length (seg_bytes sg))\<rparr>"
      "seg_bytes sg = frame (pDraws p (pDrawn p)) (take MAX_ENCRYPT_SIZE m)"
proof (cases "m = []")
  case True
  then show ?thesis using assms that(1) by (simp add: encryptAndQueue_nothing)
next
  case False
  then have m: "0 < length m" by simp
  have "pReactor p" using assms encryptAndQueue_no_reactor [OF _ m] by fastforce
  from encryptAndQueue_effect [OF this m, of q] assms False \<open>pReactor p\<close> show ?thesis using that(2) by auto
qed

lemma buffers_ok_enqueue:
  assumes ok: "buffers_ok p" and e: "encryptAndQueue q m p = Some (n, p')"
  shows "buffers_ok p'"
  using e
proof (cases rule: encryptAndQueue_cases)
  case 1
  then show ?thesis using ok by (simp add: buffers_ok_def)
next
  case (2 sg)
  then show ?thesis using ok
    by (cases q) (auto simp: buffers_ok_def set_queue_def queue_of_def queue_bytes_def)
qed

section \<open>Sending a queue\<close>

lemma uint_seg_size: "seg_inv sg \<Longrightarrow> uint (seg_size sg) = int (length (seg_bytes sg))"
  using seg_size_bytes [of sg] by (metis uint_nat)

lemma seg_consume_full:
  assumes "seg_inv sg" "n \<le> length (seg_bytes sg)"
  shows "seg_inv (seg_consume (word_of_nat n) sg)" "seg_bytes (seg_consume (word_of_nat n) sg) = drop n (seg_bytes sg)"
    "seg_size (seg_consume (word_of_nat n) sg) \<le> 0 \<longleftrightarrow> n = length (seg_bytes sg)"
proof -
  have un: "unat (word_of_nat n :: size_t) = n" using assms seg_bytes_le [OF assms(1)] by simp
  show inv: "seg_inv (seg_consume (word_of_nat n) sg)" using assms(1) by (rule seg_consume_inv)
  show b: "seg_bytes (seg_consume (word_of_nat n) sg) = drop n (seg_bytes sg)"
    using seg_consume_bytes [OF assms(1), of "word_of_nat n"] un assms(2) by simp
  have "seg_size (seg_consume (word_of_nat n) sg) \<le> 0 \<longleftrightarrow> unat (seg_size (seg_consume (word_of_nat n) sg)) = 0"
    by (simp add: word_le_nat_alt)
  then show "seg_size (seg_consume (word_of_nat n) sg) \<le> 0 \<longleftrightarrow> n = length (seg_bytes sg)"
    using seg_size_bytes [OF inv] b assms(2) by auto
qed

lemma seg_full_data: "seg_full sg \<Longrightarrow> seg_delete_ok (seg_consume n sg)"
  by (auto simp: seg_full_def seg_bytes_def seg_delete_ok_def seg_simps split: option.splits)

text \<open>One round of the loop moves bytes from the front of the queue to the socket, or ends it.\<close>

lemma send_queue_loop_one:
  assumes q: "queue_of q p = sg # sgs" and full: "\<forall>sg \<in> set (queue_of q p). seg_full sg"
  shows "send_queue_loop q (k # ks) sent p = Some (sent, p)
    \<or> (\<exists>out qs1. send_queue_loop q (k # ks) sent p
            = send_queue_loop q ks (sent + word_of_nat (length out)) (set_queue q qs1 (p\<lparr>pWire := pWire p @ out\<rparr>))
          \<and> queue_bytes (queue_of q p) = out @ queue_bytes qs1 \<and> (\<forall>sg \<in> set qs1. seg_full sg))"
proof -
  have sg: "seg_full sg" "seg_inv sg" using full q by (simp_all add: seg_full_def)
  define n where "n = min k (uint (seg_size sg))"
  define sg1 where "sg1 = seg_consume (word_of_int n) sg"
  define p1 where "p1 = p\<lparr>pWire := pWire p @ take (nat n) (seg_bytes sg)\<rparr>"
  have loop: "send_queue_loop q (k # ks) sent p =
     (if n < 0 then Some (sent, p)
      else if seg_size sg1 \<le> 0
           then (if seg_delete_ok sg1 then send_queue_loop q ks (sent + word_of_int n) (set_queue q sgs p1) else None)
           else send_queue_loop q ks (sent + word_of_int n) (set_queue q (sg1 # sgs) p1))"
    unfolding send_queue_loop_Cons [OF q] Let_def n_def [symmetric] sg1_def [symmetric] p1_def [symmetric] by simp
  show ?thesis
  proof (cases "n < 0")
    case False
    define m where "m = nat n"
    have m: "n = int m" "m \<le> length (seg_bytes sg)"
      using False uint_seg_size [OF sg(2)] by (auto simp: m_def n_def)
    have sg1: "seg_inv sg1" "seg_bytes sg1 = drop m (seg_bytes sg)" "seg_size sg1 \<le> 0 \<longleftrightarrow> m = length (seg_bytes sg)"
      using seg_consume_full [OF sg(2) m(2)] by (simp_all add: sg1_def m(1))
    define qs1 where "qs1 = (if seg_size sg1 \<le> 0 then sgs else sg1 # sgs)"
    have "send_queue_loop q (k # ks) sent p
        = send_queue_loop q ks (sent + word_of_nat (length (take m (seg_bytes sg)))) (set_queue q qs1 p1)"
      using loop False seg_full_data [OF sg(1)] m(2) by (simp add: qs1_def sg1_def m(1))
    moreover have "queue_bytes (queue_of q p) = take m (seg_bytes sg) @ queue_bytes qs1"
      using sg1 m(2) q by (simp add: qs1_def queue_bytes_def)
    moreover have "\<forall>sg \<in> set qs1. seg_full sg" using full q sg1 m(2) by (auto simp: qs1_def seg_full_def)
    ultimately show ?thesis unfolding p1_def m_def by blast
  qed (simp add: loop)
qed

lemma send_queue_loop_effect:
  "\<forall>sg \<in> set (queue_of q p). seg_full sg \<Longrightarrow>
   \<exists>out qs'. send_queue_loop q ks sent p
       = Some (sent + word_of_nat (length out), set_queue q qs' (p\<lparr>pWire := pWire p @ out\<rparr>))
     \<and> queue_bytes (queue_of q p) = out @ queue_bytes qs' \<and> (\<forall>sg \<in> set qs'. seg_full sg)"
proof (induction ks arbitrary: sent p)
  case Nil
  have "set_queue q (queue_of q p) (p\<lparr>pWire := pWire p @ []\<rparr>) = p"
    by (cases q) (simp_all add: set_queue_def queue_of_def)
  with Nil show ?case by (intro exI [of _ "[]"] exI [of _ "queue_of q p"]) simp
next
  case (Cons k ks)
  have same: "set_queue q (queue_of q p) (p\<lparr>pWire := pWire p @ []\<rparr>) = p"
    by (cases q) (simp_all add: set_queue_def queue_of_def)
  have "send_queue_loop q (k # ks) sent p = Some (sent, p)" if "queue_of q p = []" using that by simp
  then consider "send_queue_loop q (k # ks) sent p = Some (sent, p)"
    | out qs1 where "send_queue_loop q (k # ks) sent p
            = send_queue_loop q ks (sent + word_of_nat (length out)) (set_queue q qs1 (p\<lparr>pWire := pWire p @ out\<rparr>))"
        "queue_bytes (queue_of q p) = out @ queue_bytes qs1" "\<forall>sg \<in> set qs1. seg_full sg"
    using send_queue_loop_one [OF _ Cons.prems] by (cases "queue_of q p") blast+
  then show ?case
  proof cases
    case 1
    with Cons.prems same show ?thesis by (intro exI [of _ "[]"] exI [of _ "queue_of q p"]) simp
  next
    case (2 out qs1)
    let ?p = "set_queue q qs1 (p\<lparr>pWire := pWire p @ out\<rparr>)"
    have "\<forall>sg \<in> set (queue_of q ?p). seg_full sg" using 2(3) by simp
    from Cons.IH [OF this, of "sent + word_of_nat (length out)"] obtain out' qs' where
      r: "send_queue_loop q (k # ks) sent p = Some (sent + word_of_nat (length out) + word_of_nat (length out'),
          set_queue q qs' (?p\<lparr>pWire := pWire ?p @ out'\<rparr>))"
        "queue_bytes qs1 = out' @ queue_bytes qs'" "\<forall>sg \<in> set qs'. seg_full sg" using 2(1) by auto
    have "set_queue q qs' (?p\<lparr>pWire := pWire ?p @ out'\<rparr>) = set_queue q qs' (p\<lparr>pWire := pWire p @ (out @ out')\<rparr>)"
      by (cases q) (simp_all add: set_queue_def)
    with r 2(2) show ?thesis
      by (intro exI [of _ "out @ out'"] exI [of _ qs']) (simp add: add.assoc)
  qed
qed

lemma queue_bytes_le:
  "buffers_ok p \<Longrightarrow> queue_bytes (queue_of q p) = out @ queue_bytes qs' \<Longrightarrow>
   pBufferedSize p - word_of_nat (length out)
     = word_of_nat (length (queue_bytes (pSocks5 (set_queue q qs' p))) + length (queue_bytes (pOutQueue (set_queue q qs' p))))"
  by (cases q) (auto simp: buffers_ok_def set_queue_def queue_of_def)

lemma sendQueue_total:
  assumes ok: "buffers_ok p" and r: "pReactor p"
  shows "\<exists>n p'. sendQueue q ks p = Some (n, p')"
proof -
  have "\<forall>sg \<in> set (queue_of q p). seg_full sg" using ok by (cases q) (simp_all add: buffers_ok_def queue_of_def)
  then obtain n p1 where "send_queue_loop q ks 0 p = Some (n, p1)"
    using send_queue_loop_effect [of q p ks 0] by blast
  moreover from this have "pReactor p1" using send_queue_loop_frame [of q ks 0 p n p1] r by (simp add: ctl_view_def)
  ultimately show ?thesis using r by (simp add: sendQueue_def on_reactor_def)
qed

lemma sendQueue_effect:
  assumes ok: "buffers_ok p" and s: "sendQueue q ks p = Some (n, p')"
  shows "\<exists>out. buffers_ok p' \<and> queue_bytes (queue_of q p) = out @ queue_bytes (queue_of q p')
     \<and> pWire p' = pWire p @ out \<and> (\<forall>q'. q' \<noteq> q \<longrightarrow> queue_of q' p' = queue_of q' p)"
proof (cases "queue_of q p = []")
  case True
  then have "p' = p\<lparr>pWriteEv := False\<rparr>" using s by (auto simp: sendQueue_def on_reactor_def split: if_splits)
  then show ?thesis using ok True by (auto simp: queue_bytes_def buffers_ok_def)
next
  case False
  have "\<forall>sg \<in> set (queue_of q p). seg_full sg" using ok by (cases q) (simp_all add: buffers_ok_def queue_of_def)
  then obtain out qs' where l: "send_queue_loop q ks 0 p
       = Some (word_of_nat (length out), set_queue q qs' (p\<lparr>pWire := pWire p @ out\<rparr>))"
     "queue_bytes (queue_of q p) = out @ queue_bytes qs'" "\<forall>sg \<in> set qs'. seg_full sg"
    using send_queue_loop_effect [of q p ks 0] by auto
  define p1 where "p1 = set_queue q qs' (p\<lparr>pWire := pWire p @ out\<rparr>)"
  have p': "p' = (if (word_of_nat (length out) :: u32) > 0
      then p1\<lparr>pBufferedSize := pBufferedSize p1 - word_of_nat (length out)\<rparr> else p1\<lparr>pWriteEv := False\<rparr>)"
    using s False l(1) by (auto simp: sendQueue_def on_reactor_def p1_def [symmetric] split: if_splits)
  have buf: "pBufferedSize p' = pBufferedSize p - word_of_nat (length out)"
    by (auto simp: p' p1_def word_gt_0)
  have qs: "pSocks5 p' = pSocks5 (set_queue q qs' p)" "pOutQueue p' = pOutQueue (set_queue q qs' p)"
     "pDecryptBuffer p' = pDecryptBuffer p" "pDestAddr p' = pDestAddr p" "pWire p' = pWire p @ out"
    by (cases q; simp add: p' p1_def set_queue_def)+
  have "(\<forall>sg \<in> set (pSocks5 p'). seg_full sg) \<and> (\<forall>sg \<in> set (pOutQueue p'). seg_full sg)"
    unfolding qs using ok l(3) by (cases q) (simp_all add: set_queue_def buffers_ok_def)
  then have "buffers_ok p'"
    using ok queue_bytes_le [OF ok l(2)] buf by (simp add: buffers_ok_def qs)
  moreover have "queue_of q p' = qs'" "\<forall>q'. q' \<noteq> q \<longrightarrow> queue_of q' p' = queue_of q' p"
    using qs(1,2) by (cases q; simp add: queue_of_def set_queue_def split: outq.splits)+
  ultimately show ?thesis using l(2) qs(5) by auto
qed

section \<open>The invariant is kept\<close>

definition sound :: "proxy \<Rightarrow> bool" where
  "sound p \<longleftrightarrow> buffers_ok p \<and> wired p"

lemma sound_same:
  "sound p \<Longrightarrow> pSocks5 p' = pSocks5 p \<Longrightarrow> pOutQueue p' = pOutQueue p \<Longrightarrow> pBufferedSize p' = pBufferedSize p \<Longrightarrow>
   pDecryptBuffer p' = pDecryptBuffer p \<Longrightarrow> pDestAddr p' = pDestAddr p \<Longrightarrow> pOpen p' = pOpen p \<Longrightarrow>
   pAlive p' = pAlive p \<Longrightarrow> pReactor p' = pReactor p \<Longrightarrow> sound p'"
  by (simp add: sound_def buffers_ok_def wired_def)

lemma encryptAndQueue_sound: "encryptAndQueue q m p = Some (n, p') \<Longrightarrow> sound p \<Longrightarrow> sound p'"
  using buffers_ok_enqueue encryptAndQueue_flags [of q m p n p'] by (auto simp: sound_def wired_def)

lemma destroyTunnel_sound: "sound p \<Longrightarrow> sound (destroyTunnel p)"
  by (simp add: sound_def wired_def buffers_ok_def destroyTunnel_def Let_def)

lemma do_act_sound:
  assumes "do_act a p = Some p'" "sound p"
  shows "sound p'"
proof (cases a)
  case (A_sendData data)
  then show ?thesis using assms encryptAndQueue_sound by (auto simp: sendData_def split: if_splits)
next
  case A_destroyTunnel
  then show ?thesis using assms(1) destroyTunnel_sound [OF assms(2)] by simp
qed (use assms sound_same in \<open>auto simp: event_defs split: if_splits\<close>)

lemma do_acts_sound: "do_acts as p = Some p' \<Longrightarrow> sound p \<Longrightarrow> sound p'"
proof (induction as arbitrary: p)
  case (Cons a as)
  then obtain p1 where "do_act a p = Some p1" "do_acts as p1 = Some p'" by (auto split: bind_splits)
  then show ?case using Cons do_act_sound by blast
qed simp

lemma callback_sound: "callback c p = Some (r, p') \<Longrightarrow> sound p \<Longrightarrow> sound p'"
proof -
  assume "callback c p = Some (r, p')" and s: "sound p"
  then obtain as where "do_acts as (p\<lparr>pCalls := pCalls p @ [c]\<rparr>) = Some p'"
    by (auto simp: callback_def split: prod.splits)
  moreover have "sound (p\<lparr>pCalls := pCalls p @ [c]\<rparr>)" by (rule sound_same [OF s]) simp_all
  ultimately show ?thesis by (rule do_acts_sound)
qed

lemma notify_sound: "notify c p = Some p' \<Longrightarrow> sound p \<Longrightarrow> sound p'"
  by (auto simp: notify_def intro: callback_sound)

lemma switchS5State_sound:
  assumes "switchS5State st p = Some p'" "sound p"
  shows "sound p'"
proof (cases "pState p = st")
  case True
  then show ?thesis using assms by (simp add: switchS5State_def)
next
  case False
  have "sound (p\<lparr>pState := st\<rparr>)" by (rule sound_same [OF assms(2)]) simp_all
  then show ?thesis using assms(1) False
    by (cases st) (auto simp: switchS5State_def Let_def intro: notify_sound destroyTunnel_sound split: bind_splits)
qed

lemma seg_flip_keeps:
  assumes "seg_inv s" "seg_flip s = Some b"
  shows "seg_inv b \<and> mSize b = mSize s \<and> seg_bytes b = seg_bytes s"
proof -
  have "length (seg_bytes s) \<le> unat (mPos s)"
    using seg_flip_undefined [OF assms(1)] assms(2) by (metis not_le_imp_less option.distinct(1))
  then show ?thesis using seg_flip_defined [OF assms(1)] assms(2) by auto
qed

lemma sendQueue_sound:
  assumes s: "sendQueue q ks p = Some (sent, p')" and ok: "sound p"
  shows "sound p'"
proof -
  have view: "ctl_view p' = ctl_view p" using sendQueue_frame [OF s] .
  have "buffers_ok p'" using sendQueue_effect [OF _ s] ok by (auto simp: sound_def)
  then show ?thesis using ok view by (simp add: sound_def wired_def ctl_view_def)
qed

interpretation sound: proxy_frame "\<lambda>p p'. sound p \<longrightarrow> sound p'"
proof unfold_locales
  fix p p' assume n: "notify C_connected (p\<lparr>pConnected := True\<rparr>) = Some p'"
  show "sound p \<longrightarrow> sound p'"
    using notify_sound [OF n] sound_same [of p "p\<lparr>pConnected := True\<rparr>"] by simp
next
  fix p p' xs tot assume n: "notify (C_dataBack xs) (p\<lparr>pPayloadDataBack := tot\<rparr>) = Some p'"
  show "sound p \<longrightarrow> sound p'"
    using notify_sound [OF n] sound_same [of p "p\<lparr>pPayloadDataBack := tot\<rparr>"] by simp
next
  fix xs and p :: proxy and b
  assume "length xs \<le> unat (seg_remain (pDecryptBuffer p))" "seg_put xs (pDecryptBuffer p) = Some b"
  then show "sound p \<longrightarrow> sound (p\<lparr>pDecryptBuffer := b\<rparr>)"
    using seg_put_fits [of "pDecryptBuffer p" xs] by (auto simp: sound_def buffers_ok_def wired_def)
next
  fix p :: proxy and b assume "seg_flip (pDecryptBuffer p) = Some b"
  then show "sound p \<longrightarrow> sound (p\<lparr>pDecryptBuffer := b\<rparr>)"
    using seg_flip_keeps [of "pDecryptBuffer p" b] by (simp add: sound_def buffers_ok_def wired_def)
next
  fix c and p :: proxy
  show "sound p \<longrightarrow> sound (p\<lparr>pDecryptBuffer := seg_consume (word_of_nat c) (pDecryptBuffer p)\<rparr>)"
    by (simp add: sound_def buffers_ok_def wired_def seg_consume_inv seg_simps)
next
  fix p :: proxy show "sound p \<longrightarrow> sound (p\<lparr>pWriteEv := False\<rparr>)"
    using sound_same [of p "p\<lparr>pWriteEv := False\<rparr>"] by simp
qed (blast intro: do_act_sound encryptAndQueue_sound callback_sound switchS5State_sound sendQueue_sound)+

section \<open>No handler meets a NULL reactor\<close>

lemma encryptAndQueue_total: "pReactor p \<Longrightarrow> \<exists>n p'. encryptAndQueue q m p = Some (n, p')"
  using encryptAndQueue_effect [of p m q] by (cases "m = []") (auto simp: encryptAndQueue_nothing)

lemma do_act_total:
  assumes "wired p"
  shows "\<exists>p'. do_act a p = Some p'"
proof (cases a)
  case (A_sendData m)
  then show ?thesis using assms encryptAndQueue_total [of p Q_OUT m] by (auto simp: sendData_def wired_def)
qed (use assms in \<open>simp_all add: event_defs switchable_def wired_def\<close>)

lemma do_act_wired: "do_act a p = Some p' \<Longrightarrow> wired p \<Longrightarrow> wired p'"
  by (cases a) (auto simp: event_defs wired_def sendData_def dest!: encryptAndQueue_flags split: if_splits)

lemma do_act_keeps:
  "do_act a p = Some p' \<Longrightarrow> a \<noteq> A_destroyTunnel \<Longrightarrow> pReactor p' = pReactor p \<and> pOpen p' = pOpen p"
  by (cases a) (auto simp: event_defs sendData_def dest!: encryptAndQueue_flags split: if_splits)

lemma do_acts_total:
  "wired p \<Longrightarrow> \<exists>p'. do_acts as p = Some p'
     \<and> (A_destroyTunnel \<notin> set as \<longrightarrow> pReactor p' = pReactor p \<and> pOpen p' = pOpen p)"
proof (induction as arbitrary: p)
  case (Cons a as)
  obtain p1 where p1: "do_act a p = Some p1" using do_act_total [OF Cons.prems] by blast
  from Cons.IH [OF do_act_wired [OF p1 Cons.prems]] p1 show ?case by (auto dest!: do_act_keeps)
qed simp

text \<open>A client that does not destroy the tunnel when it hears of the connection or is asked for data.\<close>

definition polite :: "(client_call list \<Rightarrow> client_act list \<times> int) \<Rightarrow> bool" where
  "polite turns \<longleftrightarrow> (\<forall>cs c. c \<in> {C_connected, C_writable} \<longrightarrow> A_destroyTunnel \<notin> set (fst (turns (cs @ [c]))))"

lemma callback_total:
  assumes "wired p"
  shows "\<exists>r p'. callback c p = Some (r, p')
     \<and> (polite (pTurns p) \<and> c \<in> {C_connected, C_writable} \<longrightarrow> pReactor p' = pReactor p \<and> pOpen p' = pOpen p)"
proof -
  obtain as r where t: "pTurns p (pCalls p @ [c]) = (as, r)" by fastforce
  have "wired (p\<lparr>pCalls := pCalls p @ [c]\<rparr>)" using assms by (simp add: wired_def)
  from do_acts_total [OF this, of as] obtain p' where p': "do_acts as (p\<lparr>pCalls := pCalls p @ [c]\<rparr>) = Some p'"
      "A_destroyTunnel \<notin> set as \<longrightarrow> pReactor p' = pReactor p \<and> pOpen p' = pOpen p" by auto
  have "A_destroyTunnel \<notin> set as" if "polite (pTurns p)" "c \<in> {C_connected, C_writable}"
    using that(1) [unfolded polite_def, rule_format, OF that(2), of "pCalls p"] t by simp
  then show ?thesis using p' t by (simp add: callback_def)
qed

lemma notify_total:
  assumes "wired p"
  shows "\<exists>p'. notify c p = Some p'
     \<and> (polite (pTurns p) \<and> c \<in> {C_connected, C_writable} \<longrightarrow> pReactor p' = pReactor p \<and> pOpen p' = pOpen p)"
  using callback_total [OF assms, of c] by (auto simp: notify_def)

lemma switchS5State_total: "wired p \<Longrightarrow> \<exists>p'. switchS5State st p = Some p'"
proof -
  assume w: "wired p"
  have "wired (p\<lparr>pState := st\<rparr>)" using w by (simp add: wired_def)
  then obtain p1 p2 where "notify C_writable (p\<lparr>pState := st\<rparr>) = Some p1" "notify C_disconnected (p\<lparr>pState := st\<rparr>) = Some p2"
    using notify_total by blast
  then show ?thesis by (cases st) (simp_all add: switchS5State_def Let_def)
qed

lemma assemble_total:
  assumes "0 < n" "n \<le> seg_max" "length (concat ws) \<le> unat n"
  shows "assemble n ws = Some (concat ws)"
proof -
  have inv: "seg_inv (segment_new n)" by (rule segment_new_inv)
  have rem: "unat (seg_remain (segment_new n)) = unat n"
    using assms(1,2) by (auto simp: segment_new_def seg_remain_def word_less_nat_alt word_le_nat_alt)
  obtain sg where sg: "put_all seg_put ws (segment_new n) = Some sg" "seg_bytes sg = concat ws"
      "seg_inv sg" "unat (seg_remain sg) + length (concat ws) = unat n"
    using seg.put_all_view [OF inv, of ws] assms(3) rem by auto
  have "mData sg \<noteq> None"
  proof
    assume "mData sg = None"
    then have "length (seg_bytes sg) = 0" "mSize sg = 0" using sg(3) by (simp_all add: seg_bytes_def seg_inv_def)
    moreover from this have "unat (seg_remain sg) = 0" using sg(3) by (simp add: unat_seg_remain)
    ultimately have "unat n = 0" using sg(4) unfolding sg(2) by linarith
    then show False using assms(1) by (simp add: word_gt_0 unat_eq_zero)
  qed
  then show ?thesis using sg by (simp add: assemble_def seg_delete_ok_def)
qed

lemma methods_loop_length: "length out \<le> len \<Longrightarrow> length (methods_loop i v len out) \<le> len"
  by (induction i v len out rule: methods_loop.induct) (auto simp: Let_def)

lemma sendS5Greet_total: "pReactor p \<Longrightarrow> \<exists>n p'. sendS5Greet cfg p = Some (n, p')"
proof -
  assume r: "pReactor p"
  define ms where "ms = getS5VerifyMethods cfg 4"
  have "length ms \<le> 4" using methods_loop_length [of "[]" 4 4] by (simp add: ms_def getS5VerifyMethods_def)
  then have "assemble 64 [[5, word_of_nat (length ms)] @ ms] = Some ([5, word_of_nat (length ms)] @ ms)"
    using assemble_total [of 64 "[[5, word_of_nat (length ms)] @ ms]"] by (simp add: seg_max_def)
  then show ?thesis using encryptAndQueue_total [OF r]
    by (simp add: sendS5Greet_def Let_def ms_def)
qed

lemma ensure_connected_total:
  assumes s: "sound p" and l: "live p" and o: "pOpen p" and pol: "polite (pTurns p)"
  shows "\<exists>p1. ensure_connected p = Some p1 \<and> sound p1 \<and> pReactor p1 \<and> pOpen p1 \<and> pState p1 = pState p"
proof -
  have w: "wired p" using s by (simp add: sound_def)
  obtain p1 where p1: "ensure_connected p = Some p1" "pReactor p1" "pOpen p1"
    using notify_total [of "p\<lparr>pConnected := True\<rparr>" C_connected] w o pol
    by (cases "pConnected p") (auto simp: ensure_connected_def wired_def)
  have "\<not> s5_dead (pState p)" using l o by (simp add: live_def)
  then have "sound p1 \<and> pState p1 = pState p" using sound.ensure_connected_R [OF p1(1) o] s by simp
  then show ?thesis using p1 by blast
qed

lemma socks_onWritable_total:
  assumes s: "sound p" and l: "live p" and o: "pOpen p" and pol: "polite (pTurns p)"
  shows "\<exists>p'. socks_onWritable cfg ks p = Some p'"
proof -
  obtain p1 where p1: "ensure_connected p = Some p1" "sound p1" "pReactor p1" "pOpen p1" "pState p1 = pState p"
    using ensure_connected_total [OF s l o pol] by blast
  then have s1: "sound p1" by simp
  then have w1: "wired p1" and b1: "buffers_ok p1" by (simp_all add: sound_def)
  have t1: "pTurns p1 = pTurns p"
    using p1(1) by (auto simp: ensure_connected_def rx_view_def dest: notify_view split: if_splits)
  obtain r p2 where p2: "callback C_writable p1 = Some (r, p2)" "pReactor p2"
    using callback_total [OF w1, of C_writable] pol p1(3) t1 by auto
  obtain k p3 where p3: "sendS5Greet cfg p1 = Some (k, p3)" using sendS5Greet_total [OF p1(3)] by blast
  have "wired p3" using sound.greet_R [OF p3] s1 by (simp add: sound_def)
  then obtain p4 where p4: "switchS5State S_GREET p3 = Some p4" using switchS5State_total by blast
  obtain n1 p5 where p5: "sendQueue Q_OUT ks p1 = Some (n1, p5)" using sendQueue_total [OF b1 p1(3)] by blast
  obtain n2 p6 where p6: "sendQueue Q_SOCKS5 ks p1 = Some (n2, p6)" using sendQueue_total [OF b1 p1(3)] by blast
  show ?thesis
    using p1 p2 p3 p4 p5 p6 by (simp add: socks_onWritable_def on_reactor_def)
qed

lemma proxy_born_sound:
  assumes "proxy_born ver addr port pr turns draws = (0, p)" "16 \<le> length addr \<or> ver = 4 \<and> 4 \<le> length addr"
  shows "sound p"
proof -
  note f = proxy_born_fields [OF assms(1)]
  have "length (pDestAddr p) = 16" using assms(2) unfolding f(18) by auto
  then show ?thesis using f segment_new_inv [of 32768]
    by (simp add: sound_def buffers_ok_def wired_def queue_bytes_def segment_new_def seg_max_def)
qed

text \<open>
  When a read of data has no outcome: the bytes in the decrypt buffer must be moved to its front and the ranges overlap, or, in
  the loop over the messages, a frame claims more than it has (\<^verbatim>\<open>decrypt\<close> runs away) or the reply to CONNECT carries a name of more than five bytes.
\<close>

definition connect_overlaps :: "s5conf \<Rightarrow> bytes \<Rightarrow> bool" where
  "connect_overlaps cfg data \<longleftrightarrow> 4 \<le> length data \<and> data ! 0 = 5 \<and> data ! 1 = 0 \<and> data ! 3 = 3 \<and> 5 < conn_name_len cfg data"

inductive read_breaks :: "s5conf \<Rightarrow> proxy \<Rightarrow> bool" for cfg where
  underflow: "decrypt (take SOCKS5_SHARE_BUFFER_SZ (seg_bytes (pDecryptBuffer p))) SOCKS5_SHARE_BUFFER_SZ = DecryptUnderflow
    \<Longrightarrow> read_breaks cfg p"
| overlap: "w = take SOCKS5_SHARE_BUFFER_SZ (seg_bytes (pDecryptBuffer p)) \<Longrightarrow> decrypt w SOCKS5_SHARE_BUFFER_SZ = DecryptOut out rest
    \<Longrightarrow> out \<noteq> [] \<Longrightarrow> pState p = S_CONNECT \<Longrightarrow> connect_overlaps cfg out \<Longrightarrow> read_breaks cfg p"
| later: "w = take SOCKS5_SHARE_BUFFER_SZ (seg_bytes (pDecryptBuffer p)) \<Longrightarrow> decrypt w SOCKS5_SHARE_BUFFER_SZ = DecryptOut out rest
    \<Longrightarrow> out \<noteq> []
    \<Longrightarrow> dispatch cfg out (p\<lparr>pDecryptBuffer := seg_consume (word_of_nat (length w - length rest)) (pDecryptBuffer p)\<rparr>) = Some p2
    \<Longrightarrow> read_breaks cfg p2 \<Longrightarrow> read_breaks cfg p"

definition data_breaks :: "s5conf \<Rightarrow> bytes \<Rightarrow> proxy \<Rightarrow> bool" where
  "data_breaks cfg xs p \<longleftrightarrow>
     (\<exists>p1. ensure_connected p = Some p1
        \<and> (if unat (seg_remain (pDecryptBuffer p1)) < length xs
           then unat (mPos (pDecryptBuffer p1)) < length (seg_bytes (pDecryptBuffer p1))
             \<or> (\<exists>b b1. seg_flip (pDecryptBuffer p1) = Some b \<and> length xs \<le> unat (seg_remain b) \<and> seg_put xs b = Some b1
                  \<and> read_breaks cfg (p1\<lparr>pDecryptBuffer := b1\<rparr>))
           else (\<exists>b1. seg_put xs (pDecryptBuffer p1) = Some b1 \<and> read_breaks cfg (p1\<lparr>pDecryptBuffer := b1\<rparr>))))"

lemma sendS5Connect_total: "pReactor p \<Longrightarrow> \<exists>n p'. sendS5Connect p = Some (n, p')"
proof -
  assume r: "pReactor p"
  have "length (concat (connect_request p)) \<le> 32" by (auto simp: connect_request_def st16_def)
  then have "assemble 32 (connect_request p) = Some (concat (connect_request p))"
    by (intro assemble_total) (simp_all add: seg_max_def)
  then show ?thesis using encryptAndQueue_total [OF r] by (simp add: sendS5Connect_def)
qed

lemma sendS5Account_total: "pReactor p \<Longrightarrow> \<exists>n p'. sendS5Account cfg p = Some (n, p')"
proof -
  assume r: "pReactor p"
  show ?thesis
  proof (cases "s5User cfg = None \<or> s5Password cfg = None")
    case True
    then show ?thesis by (auto simp: sendS5Account_def split: option.splits)
  next
    case False
    then obtain user pw where up: "s5User cfg = Some user" "s5Password cfg = Some pw" by auto
    define ul where "ul = (word_of_nat (length user) :: byte)"
    define pl where "pl = (word_of_nat (length pw) :: byte)"
    define ws where "ws = [[5], [ul], take (unat ul) user, [pl], take (unat pl) pw]"
    have small: "unat ul < 256" "unat pl < 256" using unsigned_less [of ul] unsigned_less [of pl] by simp_all
    then have "unat ul + unat pl + 10 < 4294967296" by linarith
    then have sz: "unat (word_of_nat (unat ul + unat pl + 10) :: size_t) = unat ul + unat pl + 10"
      by (intro unat_word_of_nat) simp
    have "unat ul + unat pl \<le> 510" using small by linarith
    then have "assemble (word_of_nat (unat ul + unat pl + 10)) ws = Some (concat ws)"
      using sz by (intro assemble_total) (simp_all add: word_less_nat_alt word_le_nat_alt ws_def seg_max_def)
    then show ?thesis using encryptAndQueue_total [OF r]
      by (simp add: sendS5Account_def up ul_def pl_def ws_def Let_def)
  qed
qed

definition reactor_there :: "proxy \<Rightarrow> bool" where
  "reactor_there p \<longleftrightarrow> (pState p \<in> {S_GREET, S_VERIFY} \<longrightarrow> pReactor p)"

lemma greetBack_total:
  assumes s: "sound p" and r: "pReactor p"
  shows "\<exists>p'. handleS5GreetBack cfg data p = Some p'"
proof -
  have sw: "sound q \<Longrightarrow> \<exists>q'. switchS5State st q = Some q'" for q st using switchS5State_total by (simp add: sound_def)
  obtain n1 p1 where p1: "sendS5Connect p = Some (n1, p1)" using sendS5Connect_total [OF r] by blast
  obtain n2 p2 where p2: "sendS5Account cfg p = Some (n2, p2)" using sendS5Account_total [OF r] by blast
  have "sound p1" "sound p2" using sound.connect_R [OF p1] sound.account_R [OF p2] s by simp_all
  then show ?thesis using sw [OF s] sw p1 p2 by (simp add: handleS5GreetBack_def)
qed

lemma verifyBack_total:
  assumes s: "sound p" and r: "pReactor p"
  shows "\<exists>p'. handleS5VerifyBack data p = Some p'"
proof -
  have sw: "sound q \<Longrightarrow> \<exists>q'. switchS5State st q = Some q'" for q st using switchS5State_total by (simp add: sound_def)
  obtain n1 p1 where p1: "sendS5Connect p = Some (n1, p1)" using sendS5Connect_total [OF r] by blast
  have "sound p1" using sound.connect_R [OF p1] s by simp
  then show ?thesis using sw [OF s] sw p1 by (simp add: handleS5VerifyBack_def)
qed

lemma dispatch_undefined:
  assumes s: "sound p" and r: "reactor_there p"
  shows "dispatch cfg data p = None \<longleftrightarrow> pState p = S_CONNECT \<and> connect_overlaps cfg data"
proof -
  obtain q1 q2 where sw: "switchS5State S_FAILED p = Some q1" "switchS5State S_TRANS p = Some q2"
    using switchS5State_total s unfolding sound_def by blast
  have "sound (p\<lparr>pPayloadDataBack := k\<rparr>)" for k by (rule sound_same [OF s]) simp_all
  then have "notify c (p\<lparr>pPayloadDataBack := k\<rparr>) \<noteq> None" for c k
    using notify_total [of "p\<lparr>pPayloadDataBack := k\<rparr>" c] by (auto simp: sound_def)
  then show ?thesis
    using sw greetBack_total [OF s, of cfg data] verifyBack_total [OF s, of data] r
    by (cases "pState p") (auto simp: dispatch_def reactor_there_def handleS5ConnBack_def connect_overlaps_def not_less)
qed

lemma dispatch_reactor:
  assumes d: "dispatch cfg data p = Some p'" and r: "reactor_there p" and e: "pState p \<noteq> S_END"
  shows "reactor_there p'"
proof (cases "pState p = S_GREET")
  case True
  have flags: "pReactor p1 = pReactor p" if "sendS5Account cfg p = Some (n, p1)" for n p1
    using that by (auto simp: sendS5Account_def Let_def dest: encryptAndQueue_flags split: bind_splits option.splits)
  have h: "handleS5GreetBack cfg data p = Some p'" using d True by (simp add: dispatch_def)
  note st = alive.greetBack_R [OF True h]
  show ?thesis
  proof (cases "pState p' = S_GREET \<or> pState p' = S_VERIFY")
    case there: True
    have same: "p1 = p'\<lparr>pState := pState p1\<rparr>" if "switchS5State q p1 = Some p'" "q \<in> {S_VERIFY, S_CONNECT}" for q p1
      using that by (auto simp: switchS5State_def split: if_splits)
    have "pReactor p'"
      using h there r True flags same [of S_VERIFY] switchS5State_view [of S_FAILED _ p'] switchS5State_view [of S_CONNECT _ p']
      unfolding handleS5GreetBack_def reactor_there_def
      by (auto split: if_splits bind_splits) (metis proxy.select_convs(5) proxy.surjective proxy.update_convs(12))+
    then show ?thesis by (simp add: reactor_there_def)
  qed (simp add: reactor_there_def)
next
  case False
  then have "pState p' \<notin> {S_GREET, S_VERIFY}"
    using d e alive.verifyBack_R [of p data p'] alive.connBack_R [of p cfg data p'] switchS5State_view [of S_FAILED p p']
    by (cases "pState p") (auto simp: dispatch_def rx_view_def dest: notify_view)
  then show ?thesis by (simp add: reactor_there_def)
qed

lemma read_loop_undefined:
  "sound p \<Longrightarrow> reactor_there p \<Longrightarrow> pState p \<noteq> S_END \<Longrightarrow> read_loop cfg p = None \<longleftrightarrow> read_breaks cfg p"
proof (induction cfg p rule: read_loop.induct)
  case (1 cfg p)
  define w where "w = take SOCKS5_SHARE_BUFFER_SZ (seg_bytes (pDecryptBuffer p))"
  show ?case
  proof (cases "decrypt w SOCKS5_SHARE_BUFFER_SZ")
    case DecryptUnderflow
    then show ?thesis by (subst read_loop.simps) (simp add: w_def read_breaks.underflow)
  next
    case (DecryptOut out rest)
    define p1 where "p1 = p\<lparr>pDecryptBuffer := seg_consume (word_of_nat (length w - length rest)) (pDecryptBuffer p)\<rparr>"
    have run: "read_loop cfg p = (if out = [] then Some p
        else (case dispatch cfg out p1 of None \<Rightarrow> None | Some p2 \<Rightarrow> read_loop cfg p2))"
      by (subst read_loop.simps) (simp only: Let_def w_def [symmetric] DecryptOut decrypt_result.case p1_def)
    have breaks: "read_breaks cfg p \<longleftrightarrow> out \<noteq> [] \<and> (pState p = S_CONNECT \<and> connect_overlaps cfg out
        \<or> (\<exists>p2. dispatch cfg out p1 = Some p2 \<and> read_breaks cfg p2))"
      using DecryptOut unfolding p1_def w_def by (subst read_breaks.simps) auto
    have "sound p1" using "1.prems"(1) unfolding p1_def
      by (intro sound.R_consume [rule_format]) (simp_all add: w_def)
    moreover have "reactor_there p1" "pState p1 = pState p" using "1.prems"(2) by (simp_all add: p1_def reactor_there_def)
    ultimately have there: "sound p1" "reactor_there p1" "pState p1 = pState p" by simp_all
    then have d: "dispatch cfg out p1 = None \<longleftrightarrow> pState p = S_CONNECT \<and> connect_overlaps cfg out"
      using dispatch_undefined [of p1 cfg out] by simp
    have nx: "reactor_there p2 \<and> sound p2 \<and> pState p2 \<noteq> S_END" if "dispatch cfg out p1 = Some p2" for p2
      using dispatch_reactor [of cfg out p1] sound.dispatch_R [of p1 cfg out] there "1.prems"(3) that by simp
    have IH: "read_loop cfg p2 = None \<longleftrightarrow> read_breaks cfg p2" if "out \<noteq> []" "dispatch cfg out p1 = Some p2" for p2
      using "1.IH" [OF w_def DecryptOut that(1) that(2) [unfolded p1_def]] nx [OF that(2)] by simp
    show ?thesis unfolding run breaks using d IH by (cases "dispatch cfg out p1") auto
  qed
qed

lemma data_undefined:
  assumes s: "sound p" and l: "live p" and o: "pOpen p" and pol: "polite (pTurns p)"
  shows "socks_onReadable cfg (RdData xs) p = None \<longleftrightarrow> data_breaks cfg xs p"
proof -
  obtain p1 where p1: "ensure_connected p = Some p1" "sound p1" "pReactor p1" "pState p1 = pState p"
    using ensure_connected_total [OF s l o pol] by blast
  have b0: "seg_inv (pDecryptBuffer p1)" using p1(2) by (simp add: sound_def buffers_ok_def)
  have e: "pState p1 \<noteq> S_END" using l o p1(4) by (auto simp: live_def)
  have fill: "\<exists>b1. seg_put xs b = Some b1 \<and> (read_loop cfg (p1\<lparr>pDecryptBuffer := b1\<rparr>) = None
        \<longleftrightarrow> read_breaks cfg (p1\<lparr>pDecryptBuffer := b1\<rparr>))"
    if b: "sound (p1\<lparr>pDecryptBuffer := b\<rparr>)" "length xs \<le> unat (seg_remain b)" for b
  proof -
    have "seg_inv b" using b(1) by (simp add: sound_def buffers_ok_def)
    then obtain b1 where b1: "seg_put xs b = Some b1" using seg_put_fits b(2) by blast
    have "sound (p1\<lparr>pDecryptBuffer := b1\<rparr>)"
      using sound.R_fill [of xs "p1\<lparr>pDecryptBuffer := b\<rparr>" b1] b b1 by simp
    then show ?thesis using read_loop_undefined [of "p1\<lparr>pDecryptBuffer := b1\<rparr>" cfg] b1 p1(3) e
      by (simp add: reactor_there_def)
  qed
  have sw: "sound q \<Longrightarrow> \<exists>q'. switchS5State S_FAILED q = Some q'" for q using switchS5State_total by (simp add: sound_def)
  show ?thesis
  proof (cases "unat (seg_remain (pDecryptBuffer p1)) < length xs")
    case False
    have "sound (p1\<lparr>pDecryptBuffer := pDecryptBuffer p1\<rparr>)" using p1(2) by simp
    from fill [OF this] False show ?thesis
      by (auto simp: socks_onReadable_def data_breaks_def p1(1))
  next
    case True
    show ?thesis
    proof (cases "seg_flip (pDecryptBuffer p1)")
      case None
      then have "unat (mPos (pDecryptBuffer p1)) < length (seg_bytes (pDecryptBuffer p1))"
        using seg_flip_defined [OF b0] by (metis not_le_imp_less option.distinct(1))
      then show ?thesis using True None by (simp add: socks_onReadable_def data_breaks_def p1(1))
    next
      case (Some b)
      then have no: "\<not> unat (mPos (pDecryptBuffer p1)) < length (seg_bytes (pDecryptBuffer p1))"
        using seg_flip_undefined [OF b0] by auto
      have sb: "sound (p1\<lparr>pDecryptBuffer := b\<rparr>)" using sound.R_flip [OF Some] p1(2) by simp
      then obtain q where q: "switchS5State S_FAILED (p1\<lparr>pDecryptBuffer := b\<rparr>) = Some q" using sw by blast
      show ?thesis
      proof (cases "unat (seg_remain b) < length xs")
        case True
        then show ?thesis using \<open>unat (seg_remain (pDecryptBuffer p1)) < length xs\<close> Some no q
          by (simp add: socks_onReadable_def data_breaks_def p1(1))
      next
        case False
        with fill [OF sb] True Some no show ?thesis
          by (auto simp: socks_onReadable_def data_breaks_def p1(1))
      qed
    qed
  qed
qed



section \<open>Sending: a stream of bytes\<close>

text \<open>
  The abstract channel is the sequence of bytes handed to the tunnel. \<open>chan\<close> is what the wire
  got and what is queued for it. A client that sends and a device that takes bytes, in any order.
\<close>

definition chan :: "proxy \<Rightarrow> bytes" where
  "chan p = pWire p @ queue_bytes (pOutQueue p)"

datatype chan_op = SendData bytes | Flush "int list"

text \<open>The run of a sequence of operations, with the bytes \<^verbatim>\<open>sendData\<close> said it took.\<close>

fun chan_run :: "chan_op list \<Rightarrow> proxy \<Rightarrow> (bytes \<times> proxy) option" where
  "chan_run [] p = Some ([], p)"
| "chan_run (SendData m # ops) p =
     do { (n, p1) \<leftarrow> sendData m p; (acc, p2) \<leftarrow> chan_run ops p1; Some (take (nat n) m @ acc, p2) }"
| "chan_run (Flush ks # ops) p = do { (n, p1) \<leftarrow> sendQueue Q_OUT ks p; chan_run ops p1 }"

definition frames :: "((nat \<Rightarrow> nat \<Rightarrow> nat) \<times> bytes) list \<Rightarrow> bytes" where
  "frames fs = concat (map (\<lambda>(r, m). frame r m) fs)"

definition messages_ok :: "((nat \<Rightarrow> nat \<Rightarrow> nat) \<times> bytes) list \<Rightarrow> bool" where
  "messages_ok fs \<longleftrightarrow> (\<forall>(r, m) \<in> set fs. 0 < length m \<and> length m \<le> MAX_ENCRYPT_SIZE)"

lemma frames_simps [simp]:
  "frames [] = []" "frames (f # fs) = frame (fst f) (snd f) @ frames fs" "frames (fs @ gs) = frames fs @ frames gs"
  "messages_ok []" "messages_ok (f # fs) \<longleftrightarrow> 0 < length (snd f) \<and> length (snd f) \<le> MAX_ENCRYPT_SIZE \<and> messages_ok fs"
  "messages_ok (fs @ gs) \<longleftrightarrow> messages_ok fs \<and> messages_ok gs"
  by (auto simp: frames_def messages_ok_def split: prod.splits)

lemma sendData_chan:
  assumes ok: "sound p" and s: "sendData m p = Some (n, p')"
  shows "sound p' \<and> (n = 0 \<and> chan p' = chan p
     \<or> 0 < n \<and> nat n \<le> length m \<and> (\<exists>r. messages_ok [(r, take (nat n) m)] \<and> chan p' = chan p @ frame r (take (nat n) m)))"
proof (cases "n = 0 \<and> p' = p")
  case True
  then show ?thesis using ok by simp
next
  case False
  then have e: "encryptAndQueue Q_OUT m p = Some (n, p')" using s by (auto simp: sendData_def split: if_splits)
  have "sound p'" using encryptAndQueue_sound [OF e ok] .
  moreover from e have "n = 0 \<and> chan p' = chan p
     \<or> 0 < n \<and> nat n \<le> length m \<and> (\<exists>r. messages_ok [(r, take (nat n) m)] \<and> chan p' = chan p @ frame r (take (nat n) m))"
  proof (cases rule: encryptAndQueue_cases)
    case 1
    then show ?thesis by (simp add: chan_def)
  next
    case (2 sg)
    have "take (nat n) m = take MAX_ENCRYPT_SIZE m" using 2(2) by (auto simp: min_def)
    then show ?thesis using 2
      by (auto simp: chan_def queue_bytes_def set_queue_def queue_of_def MAX_ENCRYPT_SIZE_def)
  qed
  ultimately show ?thesis by blast
qed

lemma sendQueue_chan:
  assumes ok: "sound p" and s: "sendQueue Q_OUT ks p = Some (n, p')"
  shows "sound p' \<and> chan p' = chan p"
  using sendQueue_sound [OF s ok] sendQueue_effect [OF _ s] ok by (auto simp: sound_def chan_def queue_of_def)

lemma chan_run_frames:
  "chan_run ops p = Some (acc, p') \<Longrightarrow> sound p \<Longrightarrow>
   \<exists>fs. messages_ok fs \<and> chan p' = chan p @ frames fs \<and> acc = concat (map snd fs) \<and> sound p'"
proof (induction ops arbitrary: p acc)
  case Nil
  then show ?case by (intro exI [of _ "[]"]) simp
next
  case (Cons a ops)
  show ?case
  proof (cases a)
    case (SendData m)
    then obtain n p1 acc1 where s: "sendData m p = Some (n, p1)" "chan_run ops p1 = Some (acc1, p')"
        "acc = take (nat n) m @ acc1"
      using Cons.prems(1) by (auto split: bind_splits)
    note e = sendData_chan [OF Cons.prems(2) s(1)]
    then obtain fs where fs: "messages_ok fs" "chan p' = chan p1 @ frames fs" "acc1 = concat (map snd fs)" "sound p'"
      using Cons.IH [OF s(2)] by auto
    from e consider "n = 0" "chan p1 = chan p"
      | r where "0 < n" "messages_ok [(r, take (nat n) m)]" "chan p1 = chan p @ frame r (take (nat n) m)" by auto
    then show ?thesis
    proof cases
      case 1
      then show ?thesis using fs s(3) by (intro exI [of _ fs]) simp
    next
      case 2
      then show ?thesis using fs s(3) by (intro exI [of _ "(r, take (nat n) m) # fs"]) simp
    qed
  next
    case (Flush ks)
    then obtain n p1 where s: "sendQueue Q_OUT ks p = Some (n, p1)" "chan_run ops p1 = Some (acc, p')"
      using Cons.prems(1) by (auto split: bind_splits)
    then show ?thesis using Cons.IH [OF s(2)] sendQueue_chan [OF Cons.prems(2) s(1)] by simp
  qed
qed

text \<open>Whole frames, and the beginning of one more, come out of \<^verbatim>\<open>decrypt\<close> as their messages.\<close>

lemma frames_nonempty: "messages_ok fs \<Longrightarrow> frames fs = [] \<longleftrightarrow> fs = []"
proof (cases fs)
  case (Cons f fs')
  moreover assume "messages_ok fs"
  ultimately show ?thesis using length_frame(1) [of "snd f" "fst f"] by auto
qed simp

lemma decrypt_frames:
  assumes "messages_ok fs" "unpack part CIPHER_BUFFER_SIZE = None" "length (frames fs @ part) \<le> room"
  shows "decrypt (frames fs @ part) room = DecryptOut (concat (map snd fs)) part"
proof (cases "frames fs @ part = []")
  case True
  then show ?thesis using frames_nonempty [OF assms(1)] by (simp add: decrypt_def)
next
  case False
  then have "decrypt (frames fs @ part) room = decrypt_loop (frames fs @ part) room (frames fs @ part) []"
    using assms(3) by (auto simp: decrypt_def estimateDecryptLen_def)
  then show ?thesis
    using decrypt_loop_frames [of fs "[]" room "frames fs @ part" part] assms decrypt_loop_wait [OF assms(2)]
    by (simp add: messages_ok_def frames_def)
qed

lemma unpack_Nil: "unpack [] room = None"
  by (simp add: unpack_def)

text \<open>
  Claim C18. The sending side refines a stream of bytes. Whatever the client sends, in whatever pieces the
  socket takes it, what the wire got and the queue still holds is the old content followed by frames whose
  messages are, in order, exactly the bytes the tunnel said it took: a server that decrypts them
  gets these bytes.
\<close>

theorem socks_send_refines:
  assumes "sound p" "chan_run ops p = Some (acc, p')" "length (chan p') \<le> length (chan p) + room"
  shows "take (length (chan p)) (chan p') = chan p
    \<and> decrypt (drop (length (chan p)) (chan p')) room = DecryptOut acc []"
proof -
  obtain fs where fs: "messages_ok fs" "chan p' = chan p @ frames fs" "acc = concat (map snd fs)"
    using chan_run_frames [OF assms(2,1)] by blast
  then show ?thesis using decrypt_frames [OF fs(1) unpack_Nil, of room] assms(3) by simp
qed

text \<open>A client that sends three bytes and a socket that takes five, then the rest.\<close>

lemma sample_sends:
  "\<exists>acc p'. chan_run [SendData [1, 2, 3], Flush [5, 5000]] sample_proxy = Some (acc, p') \<and> length (chan p') \<le> 5000"
proof -
  have s: "sound sample_proxy" using proxy_born_sound [OF sample_proxy_born] by simp
  obtain n p1 where p1: "sendData [1, 2, 3] sample_proxy = Some (n, p1)"
    using do_act_total [of sample_proxy "A_sendData [1, 2, 3]"] s by (auto simp: sound_def)
  note c = sendData_chan [OF s p1]
  have "pReactor p1" "pOpen p1"
    using do_act_keeps [of "A_sendData [1, 2, 3]" sample_proxy p1] p1 proxy_born_fields(2,3) [OF sample_proxy_born] by simp_all
  moreover have "buffers_ok p1" using c by (simp add: sound_def)
  ultimately obtain k p2 where p2: "sendQueue Q_OUT [5, 5000] p1 = Some (k, p2)"
    using sendQueue_total [of p1 Q_OUT "[5, 5000]"] by blast
  have empty: "chan sample_proxy = []"
    using proxy_born_fields [OF sample_proxy_born] by (simp add: chan_def queue_bytes_def)
  have "length (chan p1) \<le> 5000"
  proof (cases "n = 0")
    case True
    then show ?thesis using c empty by auto
  next
    case False
    then obtain r where r: "messages_ok [(r, take (nat n) [1, 2, 3])]" "chan p1 = frame r (take (nat n) [1, 2, 3])"
      using c empty by auto
    have "length (chan p1) \<le> 4114" unfolding r(2)
      by (rule length_frame(2)) (use r(1) in \<open>simp_all only: frames_simps snd_conv\<close>)
    then show ?thesis by linarith
  qed
  then show ?thesis using p1 p2 sendQueue_chan [OF _ p2] c by auto
qed

theorem socks_send_refines_witness:
  "\<exists>acc p'. chan_run [SendData [1, 2, 3], Flush [5, 5000]] sample_proxy = Some (acc, p')
    \<and> take (length (chan sample_proxy)) (chan p') = chan sample_proxy
    \<and> decrypt (drop (length (chan sample_proxy)) (chan p')) 8192 = DecryptOut acc []"
proof -
  obtain acc p' where r: "chan_run [SendData [1, 2, 3], Flush [5, 5000]] sample_proxy = Some (acc, p')"
      "length (chan p') \<le> 5000" using sample_sends by blast
  have s: "sound sample_proxy" using proxy_born_sound [OF sample_proxy_born] by simp
  from socks_send_refines [OF s r(1), of 8192] r show ?thesis by simp
qed

text \<open>
  Claim C20. The send buffer is bounded. \<^verbatim>\<open>sendData\<close> takes the first 4096 bytes, or all if there are fewer, when the tunnel
  is alive and the data fits into the 262144 bytes of the send buffer together with what is queued; the byte
  count stays below 266258. In every other case it takes nothing and the count does not change.
\<close>

theorem socks_send_bounded:
  assumes "sendData m p = Some (n, p')" "length m < 2 ^ 32"
  shows "if pAlive p \<and> m \<noteq> [] \<and> length m + unat (pBufferedSize p) \<le> 262144
    then n = int (min (length m) 4096) \<and> unat (pBufferedSize p') < 266258
    else n = 0 \<and> pBufferedSize p' = pBufferedSize p"
proof (cases "pAlive p \<and> \<not> getAvailableBufferSize p < word_of_nat (length m)")
  case False
  then have same: "n = 0 \<and> p' = p" using assms(1) by (auto simp: sendData_def split: if_splits)
  have no: "\<not> (pAlive p \<and> m \<noteq> [] \<and> length m + unat (pBufferedSize p) \<le> 262144)"
  proof
    assume a: "pAlive p \<and> m \<noteq> [] \<and> length m + unat (pBufferedSize p) \<le> 262144"
    then have b: "\<not> pBufferedSize p > MAX_SOCKS5_PROXY_SEND_BUFFER"
      by (simp add: MAX_SOCKS5_PROXY_SEND_BUFFER_def word_less_nat_alt)
    then have "unat (getAvailableBufferSize p) = 262144 - unat (pBufferedSize p)"
      using a by (simp add: getAvailableBufferSize_def unat_sub_le not_less MAX_SOCKS5_PROXY_SEND_BUFFER_def)
    moreover have "unat (word_of_nat (length m) :: u32) = length m" using assms(2) by simp
    moreover have "getAvailableBufferSize p < word_of_nat (length m)" using a False by simp
    ultimately have "262144 - unat (pBufferedSize p) < length m" by (simp only: word_less_nat_alt)
    moreover have "length m + unat (pBufferedSize p) \<le> 262144" using a by simp
    ultimately show False by linarith
  qed
  show ?thesis unfolding if_not_P [OF no] using same by simp
next
  case True
  then have e: "encryptAndQueue Q_OUT m p = Some (n, p')" using assms(1) by (simp add: sendData_def)
  from e show ?thesis
  proof (cases rule: encryptAndQueue_cases)
    case 1
    then show ?thesis by simp
  next
    case (2 sg)
    have len: "unat (word_of_nat (length m) :: u32) = length m" using assms(2) by simp
    have "unat (getAvailableBufferSize p) \<ge> length m" using True len by (simp add: word_less_nat_alt)
    then have fits: "length m + unat (pBufferedSize p) \<le> 262144" using 2(1) True
      by (auto simp: getAvailableBufferSize_def unat_sub_le not_less MAX_SOCKS5_PROXY_SEND_BUFFER_def
          word_le_nat_alt split: if_splits)
    have fl: "length (seg_bytes sg) \<le> 4114" using frame_cut(2) [OF 2(1)] 2(6) by simp
    have "unat (pBufferedSize p + word_of_nat (length (seg_bytes sg))) = unat (pBufferedSize p) + length (seg_bytes sg)"
      using fl fits by (subst unat_add_small) simp_all
    moreover have "pBufferedSize p' = pBufferedSize p + word_of_nat (length (seg_bytes sg))" using 2(5) by simp
    ultimately have "unat (pBufferedSize p') = unat (pBufferedSize p) + length (seg_bytes sg)" by simp
    moreover have "0 < length m" using 2(1) by simp
    then have "unat (pBufferedSize p) < 262144" using fits by linarith
    ultimately have "unat (pBufferedSize p') < 266258" using fl by simp
    then show ?thesis using True 2 fits by (simp add: MAX_ENCRYPT_SIZE_def)
  qed
qed

theorem socks_send_bounded_witness:
  "\<exists>n p'. sendData [1, 2, 3] sample_proxy = Some (n, p') \<and> n = 3 \<and> unat (pBufferedSize p') < 266258"
proof -
  have s: "sound sample_proxy" using proxy_born_sound [OF sample_proxy_born] by simp
  obtain n p1 where p1: "sendData [1, 2, 3] sample_proxy = Some (n, p1)"
    using do_act_total [of sample_proxy "A_sendData [1, 2, 3]"] s by (auto simp: sound_def)
  have "pAlive sample_proxy" "pBufferedSize sample_proxy = 0" using proxy_born_fields [OF sample_proxy_born] by simp_all
  with socks_send_bounded [OF p1] p1 show ?thesis by simp
qed

section \<open>Receiving: whatever the pieces\<close>

lemma prefix_waits:
  assumes "0 < length m" "length m \<le> MAX_ENCRYPT_SIZE" "n < length (frame r m)"
  shows "unpack (take n (frame r m)) CIPHER_BUFFER_SIZE = None"
  using unpack_partial_frame [OF assms(1,2), of "take n (frame r m)" "drop n (frame r m)" r] assms(3) by simp

text \<open>A window of a stream of frames is a stream of frames again, and takes a whole frame if it is big enough.\<close>

lemma frames_window:
  assumes "messages_ok fs" "part @ missing = frame r' m'" "missing \<noteq> []" "0 < length m'" "length m' \<le> MAX_ENCRYPT_SIZE"
  shows "\<exists>fs1 fs2 w. fs = fs1 @ fs2 \<and> take n (frames fs @ part) = frames fs1 @ w
     \<and> unpack w CIPHER_BUFFER_SIZE = None \<and> (4114 \<le> n \<longrightarrow> fs \<noteq> [] \<longrightarrow> fs1 \<noteq> [])"
  using assms(1)
proof (induction fs arbitrary: n)
  case Nil
  have "take n part = take (min n (length part)) (frame r' m')" using assms(2) [symmetric] by (simp add: min_def)
  moreover have "length part < length (frame r' m')" using assms(2,3) by (metis append_eq_conv_conj length_append length_greater_0_conv less_add_same_cancel1)
  ultimately have "unpack (take n part) CIPHER_BUFFER_SIZE = None"
    using prefix_waits [OF assms(4,5), of "min n (length part)" r'] by simp
  then show ?case by (intro exI [of _ "[]"] exI [of _ "take n part"]) simp
next
  case (Cons f fs)
  then have f: "0 < length (snd f)" "length (snd f) \<le> MAX_ENCRYPT_SIZE" "messages_ok fs" by simp_all
  show ?case
  proof (cases "n < length (frame (fst f) (snd f))")
    case True
    then have "unpack (take n (frames (f # fs) @ part)) CIPHER_BUFFER_SIZE = None"
      using prefix_waits [OF f(1,2) True] True by simp
    moreover have "\<not> 4114 \<le> n" using True length_frame(2) [OF f(1,2), of "fst f"] by linarith
    ultimately show ?thesis
      by (intro exI [of _ "[]"] exI [of _ "f # fs"] exI [of _ "take n (frames (f # fs) @ part)"]) (simp del: frames_simps(2) take_append)
  next
    case False
    obtain fs1 fs2 w where "fs = fs1 @ fs2" "take (n - length (frame (fst f) (snd f))) (frames fs @ part) = frames fs1 @ w"
        "unpack w CIPHER_BUFFER_SIZE = None" using Cons.IH [OF f(3)] by blast
    then show ?thesis using False by (intro exI [of _ "f # fs1"] exI [of _ fs2] exI [of _ w]) simp
  qed
qed

lemma dispatch_trans:
  assumes "sound p" "pState p = S_TRANS"
  shows "\<exists>p'. dispatch cfg d p = Some p' \<and> pCalls p' = pCalls p @ [C_dataBack d] \<and> pState p' = S_TRANS
     \<and> pDecryptBuffer p' = pDecryptBuffer p \<and> sound p'"
proof -
  define p1 where "p1 = p\<lparr>pPayloadDataBack := pPayloadDataBack p + word_of_nat (length d)\<rparr>"
  have s1: "sound p1" by (rule sound_same [OF assms(1)]) (simp_all add: p1_def)
  then obtain p' where n: "notify (C_dataBack d) p1 = Some p'" using notify_total by (auto simp: sound_def)
  then show ?thesis using notify_view [OF n] notify_sound [OF n s1] assms(2)
    by (simp add: dispatch_def p1_def rx_view_def)
qed

lemma read_loop_stream:
  assumes "part @ missing = frame r' m'" "missing \<noteq> []" "0 < length m'" "length m' \<le> MAX_ENCRYPT_SIZE"
  shows "messages_ok fs \<Longrightarrow> sound p \<Longrightarrow> pState p = S_TRANS \<Longrightarrow> seg_bytes (pDecryptBuffer p) = frames fs @ part \<Longrightarrow>
    \<exists>p' ys. read_loop cfg p = Some p' \<and> pCalls p' = pCalls p @ map C_dataBack ys \<and> concat ys = concat (map snd fs)
      \<and> seg_bytes (pDecryptBuffer p') = part \<and> pState p' = S_TRANS \<and> sound p'"
proof (induction "length fs" arbitrary: fs p rule: less_induct)
  case less
  have big: "4114 \<le> SOCKS5_SHARE_BUFFER_SZ" by (simp add: SOCKS5_SHARE_BUFFER_SZ_def MAX_PARCEL_SIZE_def)
  obtain fs1 fs2 w where win: "fs = fs1 @ fs2" "take SOCKS5_SHARE_BUFFER_SZ (frames fs @ part) = frames fs1 @ w"
      "unpack w CIPHER_BUFFER_SIZE = None" "fs \<noteq> [] \<longrightarrow> fs1 \<noteq> []"
    using frames_window [OF less.prems(1) assms, of SOCKS5_SHARE_BUFFER_SZ] big by blast
  have ok: "messages_ok fs1" "messages_ok fs2" using less.prems(1) win(1) by simp_all
  have fits: "length (frames fs1 @ w) \<le> SOCKS5_SHARE_BUFFER_SZ" using win(2) by (metis length_take min.cobounded2)
  note dec = decrypt_frames [OF ok(1) win(3) fits]
  show ?case
  proof (cases "fs = []")
    case True
    then have "concat (map snd fs1) = []" using win(1) by simp
    then have "read_loop cfg p = Some p" using dec win(2) less.prems(4) by (subst read_loop.simps) simp
    then show ?thesis using less.prems True by (intro exI [of _ p] exI [of _ "[]"]) simp
  next
    case False
    then have ne: "fs1 \<noteq> []" using win(4) by simp
    then have out: "concat (map snd fs1) \<noteq> []" using ok(1) by (cases fs1) auto
    define b where "b = seg_consume (word_of_nat (length (frames fs1))) (pDecryptBuffer p)"
    have inv: "seg_inv (pDecryptBuffer p)" using less.prems(2) by (simp add: sound_def buffers_ok_def)
    have le: "length (frames fs1) \<le> length (seg_bytes (pDecryptBuffer p))" using less.prems(4) win(1) by simp
    have b: "seg_bytes b = frames fs2 @ part"
      using seg_consume_full(2) [OF inv le] less.prems(4) win(1) by (simp add: b_def)
    have "sound (p\<lparr>pDecryptBuffer := b\<rparr>)"
      using less.prems(2) by (simp add: b_def sound_def buffers_ok_def wired_def seg_consume_inv seg_simps)
    from dispatch_trans [OF this, of cfg "concat (map snd fs1)"] less.prems(3)
    obtain p2 where p2: "dispatch cfg (concat (map snd fs1)) (p\<lparr>pDecryptBuffer := b\<rparr>) = Some p2"
        "pCalls p2 = pCalls p @ [C_dataBack (concat (map snd fs1))]" "pState p2 = S_TRANS"
        "pDecryptBuffer p2 = b" "sound p2" by auto
    have "length fs2 < length fs" using ne win(1) by simp
    from less.hyps [OF this ok(2) p2(5,3)] p2(4) b obtain p' ys where r: "read_loop cfg p2 = Some p'"
        "pCalls p' = pCalls p2 @ map C_dataBack ys" "concat ys = concat (map snd fs2)"
        "seg_bytes (pDecryptBuffer p') = part" "pState p' = S_TRANS" "sound p'" by auto
    have "read_loop cfg p = Some p'"
      by (subst read_loop.simps)
        (simp only: Let_def less.prems(4) win(2) dec decrypt_result.case out if_False length_append
          diff_add_inverse2 b_def [symmetric] p2(1) option.case r(1))
    then show ?thesis using r p2(2) win(1)
      by (intro exI [of _ p'] exI [of _ "concat (map snd fs1) # ys"]) simp
  qed
qed

text \<open>
  The decrypt buffer makes room for a read: either it has it, or its window is so far from the front that the
  move to the front does not overlap.
\<close>

lemma decrypt_room:
  fixes s :: segment
  assumes inv: "seg_inv s" "mSize s = 32768" and short: "length (seg_bytes s) \<le> 4113" and n: "n \<le> 8192"
  shows "\<exists>b. (if unat (seg_remain s) < n then seg_flip s else Some s) = Some b
     \<and> seg_inv b \<and> mSize b = 32768 \<and> seg_bytes b = seg_bytes s \<and> n \<le> unat (seg_remain b)"
proof (cases "unat (seg_remain s) < n")
  case True
  have len: "length (seg_bytes s) = unat (mLimit s) - unat (mPos s)"
    using seg_size_bytes [OF inv(1)] inv(1) by (simp add: seg_size_def seg_inv_def unat_sub_le)
  have "unat (seg_remain s) = 32768 - unat (mLimit s)" using inv by (simp add: unat_seg_remain)
  then have "length (seg_bytes s) \<le> unat (mPos s)" using True n short len by linarith
  from seg_flip_defined [OF inv(1) this] obtain b where
    b: "seg_flip s = Some b" "seg_inv b" "seg_bytes b = seg_bytes s" "mSize b = mSize s"
      "unat (seg_remain b) = unat (mSize s) - length (seg_bytes s)" by blast
  have "n \<le> unat (seg_remain b)" using b(5) inv(2) short n by simp
  then show ?thesis using True b inv(2) by simp
qed (use inv in simp)

text \<open>
  Claim C19. The receiving side delivers the stream. In whatever pieces the frames of a server arrive: when
  the buffer holds the beginning of a frame and a read of up to 8192 bytes brings the rest of it, any
  number of further frames and the beginning of another, the client is given exactly the messages of
  the completed frames, in order and each byte once, the buffer keeps the beginning of the unfinished frame,
  and neither the buffer overflows nor the moved bytes overlap.
\<close>

theorem socks_receive_stream:
  assumes "sound p" "pState p = S_TRANS" "pConnected p"
    "seg_bytes (pDecryptBuffer p) @ old = frame r m" "old \<noteq> []" "0 < length m" "length m \<le> MAX_ENCRYPT_SIZE"
    "seg_bytes (pDecryptBuffer p) @ xs = frames fs @ part" "messages_ok fs" "length xs \<le> 8192"
    "part @ missing = frame r' m'" "missing \<noteq> []" "0 < length m'" "length m' \<le> MAX_ENCRYPT_SIZE"
  shows "\<exists>p' ys. socks_onReadable cfg (RdData xs) p = Some p' \<and> pCalls p' = pCalls p @ map C_dataBack ys
      \<and> concat ys = concat (map snd fs) \<and> seg_bytes (pDecryptBuffer p') = part \<and> pState p' = S_TRANS \<and> sound p'"
proof -
  let ?b = "pDecryptBuffer p"
  have inv: "seg_inv ?b" "mSize ?b = 32768" using assms(1) by (simp_all add: sound_def buffers_ok_def)
  have "length (seg_bytes ?b) + length old = length (frame r m)" using arg_cong [OF assms(4), of length] by simp
  moreover have "length (frame r m) \<le> 4114" using length_frame(2) [OF assms(6,7), of r] by simp
  moreover have "0 < length old" using assms(5) by simp
  ultimately have short: "length (seg_bytes ?b) \<le> 4113" by linarith
  obtain b where b: "(if unat (seg_remain ?b) < length xs then seg_flip ?b else Some ?b) = Some b"
      "seg_inv b" "mSize b = 32768" "seg_bytes b = seg_bytes ?b" "length xs \<le> unat (seg_remain b)"
    using decrypt_room [OF inv short assms(10)] by blast
  obtain b1 where b1: "seg_put xs b = Some b1" "seg_inv b1" "mSize b1 = 32768" "seg_bytes b1 = seg_bytes ?b @ xs"
    using seg_put_fits [OF b(2,5)] b(3,4) by auto
  let ?q = "p\<lparr>pDecryptBuffer := b1\<rparr>"
  have "sound ?q" using assms(1) b1(2,3) by (simp add: sound_def buffers_ok_def wired_def)
  moreover have "seg_bytes (pDecryptBuffer ?q) = frames fs @ part" using b1(4) assms(8) by simp
  ultimately obtain p' ys where r: "read_loop cfg ?q = Some p'" "pCalls p' = pCalls ?q @ map C_dataBack ys"
      "concat ys = concat (map snd fs)" "seg_bytes (pDecryptBuffer p') = part" "pState p' = S_TRANS" "sound p'"
    using read_loop_stream [OF assms(11-14,9)] assms(2) by fastforce
  have "socks_onReadable cfg (RdData xs) p = Some p'"
    using r(1) b(1,5) b1(1) assms(3) by (simp add: socks_onReadable_def ensure_connected_def)
  then show ?thesis using r by auto
qed

theorem socks_receive_stream_witness:
  "\<exists>p' ys. socks_onReadable sample_s5conf
        (RdData (frame (\<lambda>_ _. 0) [7, 8] @ take 1 (frame (\<lambda>_ _. 0) [9])))
        (sample_proxy\<lparr>pState := S_TRANS, pConnected := True\<rparr>) = Some p'
    \<and> concat ys = [7, 8] \<and> pCalls p' = pCalls sample_proxy @ map C_dataBack ys"
proof -
  let ?p = "sample_proxy\<lparr>pState := S_TRANS, pConnected := True\<rparr>"
  let ?f = "\<lambda>m. frame (\<lambda>_ _. 0) (m :: bytes)"
  have s: "sound ?p" using proxy_born_sound [OF sample_proxy_born] by (simp add: sound_def buffers_ok_def wired_def)
  have b: "seg_bytes (pDecryptBuffer ?p) = []"
    using proxy_born_fields [OF sample_proxy_born] by (simp add: segment_new_def seg_bytes_def seg_max_def)
  have e1: "seg_bytes (pDecryptBuffer ?p) @ ?f [9] = ?f [9]" using b by simp
  have e2: "seg_bytes (pDecryptBuffer ?p) @ (?f [7, 8] @ take 1 (?f [9]))
      = frames [(\<lambda>_ _. 0, [7, 8])] @ take 1 (?f [9])" using b by simp
  have e3: "take 1 (?f [9]) @ drop 1 (?f [9]) = ?f [9]" by simp
  have small: "length ([9] :: bytes) \<le> MAX_ENCRYPT_SIZE" "length ([7, 8] :: bytes) \<le> MAX_ENCRYPT_SIZE"
    by (simp_all add: MAX_ENCRYPT_SIZE_def)
  have "1 < length (?f [9])" "length (?f [9]) \<le> 4114" "length (?f [7, 8]) \<le> 4114"
    using length_frame [of "[9]" "\<lambda>_ _. 0"] length_frame [of "[7, 8]" "\<lambda>_ _. 0"] small by simp_all
  then have n: "?f [9] \<noteq> []" "drop 1 (?f [9]) \<noteq> []" "length (?f [7, 8] @ take 1 (?f [9])) \<le> 8192" by auto
  have m: "messages_ok [(\<lambda>_ _. 0, [7, 8])]" by (simp add: MAX_ENCRYPT_SIZE_def)
  show ?thesis
    using socks_receive_stream [OF s _ _ e1 n(1) _ small(1) e2 m n(3) e3 n(2) _ small(1),
        of sample_s5conf] by auto
qed

end
