(* ===== verification/Tunnel.thy ===== *)
theory Tunnel
  imports Socks5
begin

text \<open>
  \<^verbatim>\<open>core/TCPTunnel.h\<close> and \<^verbatim>\<open>core/TCPTunnel.cpp\<close>: the tunnel of a TCP session that is connected directly to the remote
  host. It shares the interfaces \<^verbatim>\<open>ITunnel\<close> and \<^verbatim>\<open>ITunnelClient\<close> with \<^verbatim>\<open>Socks5Proxy\<close>. The client is open: at every callback it
  makes any list of calls on the tunnel, each with the answer the kernel will give to it.
\<close>

section \<open>State\<close>

text \<open>The calls of a client; a send has the data, \<^verbatim>\<open>more\<close>, the answer of \<^verbatim>\<open>send\<close> and the time.\<close>

datatype tunnel_act =
    U_sendData bytes bool int int | U_requestSendData bool | U_pauseSendData | U_pauseReceiveData
  | U_resumeReceiveData bool | U_destroyTunnel

text \<open>
  \<open>nOpen\<close> is \<^verbatim>\<open>mSocket >= 0\<close>, \<open>nReactor\<close> is \<^verbatim>\<open>mReactor != NULL\<close>, \<open>nRemoteSet\<close> is \<^verbatim>\<open>mRemoteSockAddr != NULL\<close>; \<open>nReadEv\<close> and
  \<open>nWriteEv\<close> are the events the reactor has for the socket, \<open>nFds\<close> counts the sockets the process holds for this tunnel,
  \<open>nWire\<close> are the bytes the kernel took. \<open>nCalls\<close> records the callbacks, \<open>nTurns cs\<close> is what the client does in the last one of \<open>cs\<close>.
\<close>

record tunnel =
  nAlive :: bool
  nConnected :: bool
  nRemoteSet :: bool
  nLastTime :: int
  nOpen :: bool
  nReactor :: bool
  nReadEv :: bool
  nWriteEv :: bool
  nFds :: nat
  nWire :: bytes
  nCalls :: "client_call list"
  nTurns :: "client_call list \<Rightarrow> tunnel_act list"

definition TUNNEL_TIMEOUT :: int where "TUNNEL_TIMEOUT = 25 * 1000"
definition SHARED_BUFFER_SIZE :: nat where "SHARED_BUFFER_SIZE = 61440"

section \<open>Construction\<close>

text \<open>The constructor of \<^verbatim>\<open>ITunnel\<close>: only for IP version 4 an address is stored.\<close>

definition remote_set :: "bool \<Rightarrow> u16 \<Rightarrow> byte \<Rightarrow> bool" where
  "remote_set addr port ipver \<longleftrightarrow> addr \<and> port \<noteq> 0 \<and> ipver = 4"

definition tunnel_new :: "bool \<Rightarrow> u16 \<Rightarrow> byte \<Rightarrow> bool \<Rightarrow> (client_call list \<Rightarrow> tunnel_act list) \<Rightarrow> tunnel" where
  "tunnel_new addr port ipver reactor turns =
     \<lparr>nAlive = False, nConnected = False, nRemoteSet = remote_set addr port ipver, nLastTime = 0, nOpen = False,
      nReactor = reactor, nReadEv = False, nWriteEv = False, nFds = 0, nWire = [], nCalls = [], nTurns = turns\<rparr>"

definition tunnel_delete :: "tunnel \<Rightarrow> tunnel" where
  "tunnel_delete t = t\<lparr>nReactor := False, nOpen := False\<rparr>"

text \<open>
  \<^verbatim>\<open>establish\<close>: the arguments are whether \<^verbatim>\<open>socket\<close>, \<^verbatim>\<open>protectSock\<close>, the two \<^verbatim>\<open>fcntl\<close>s, \<^verbatim>\<open>connect\<close> (\<^verbatim>\<open>EINPROGRESS\<close> counts) and
  \<^verbatim>\<open>addEvent\<close> succeed; the answer of \<^verbatim>\<open>addEvent\<close> is not looked at. \<^term>\<open>None\<close>: \<^verbatim>\<open>mReactor\<close> is NULL.
\<close>

definition TCPTunnel_establish :: "bool \<Rightarrow> bool \<Rightarrow> bool \<Rightarrow> bool \<Rightarrow> bool \<Rightarrow> int \<Rightarrow> tunnel \<Rightarrow> (int \<times> tunnel) option" where
  "TCPTunnel_establish sock protect nonblock conn added now t =
     (if nAlive t then Some (1, t)
      else if \<not> nRemoteSet t then Some (1, t)
      else if \<not> sock then Some (1, t\<lparr>nOpen := False\<rparr>)
      else
        (let t1 = t\<lparr>nOpen := True, nFds := nFds t + 1\<rparr>
         in if \<not> protect then Some (1, t1\<lparr>nOpen := False\<rparr>)
            else if \<not> nonblock then Some (1, t1)
            else if \<not> conn then Some (1, t1)
            else if \<not> nReactor t1 then None
            else Some (0, t1\<lparr>nReadEv := added, nWriteEv := added, nAlive := True, nLastTime := now + TUNNEL_TIMEOUT\<rparr>)))"

section \<open>The operations of the tunnel\<close>

definition getSockBufferSize :: "bool \<Rightarrow> int \<Rightarrow> int \<Rightarrow> u32" where
  "getSockBufferSize opened bufferSize used = (if \<not> opened then 0 else word_of_int (bufferSize - used))"

definition TCPTunnel_getAvailableBufferSize :: "int \<Rightarrow> int \<Rightarrow> tunnel \<Rightarrow> u32" where
  "TCPTunnel_getAvailableBufferSize bufferSize used t = getSockBufferSize (nOpen t) bufferSize used"

definition TCPTunnel_keepAlive :: "int \<Rightarrow> tunnel \<Rightarrow> int" where
  "TCPTunnel_keepAlive err t = (if nOpen t then err else 1)"

definition TCPTunnel_requestSendData :: "bool \<Rightarrow> tunnel \<Rightarrow> tunnel" where
  "TCPTunnel_requestSendData added t = (if nOpen t \<and> nReactor t \<and> added then t\<lparr>nWriteEv := True\<rparr> else t)"

definition TCPTunnel_pauseSendData :: "tunnel \<Rightarrow> tunnel" where
  "TCPTunnel_pauseSendData t = (if nOpen t \<and> nReactor t then t\<lparr>nWriteEv := False\<rparr> else t)"

definition TCPTunnel_pauseReceiveData :: "tunnel \<Rightarrow> tunnel" where
  "TCPTunnel_pauseReceiveData t = (if nOpen t \<and> nReactor t then t\<lparr>nReadEv := False\<rparr> else t)"

definition TCPTunnel_resumeReceiveData :: "bool \<Rightarrow> tunnel \<Rightarrow> tunnel" where
  "TCPTunnel_resumeReceiveData added t = (if nOpen t \<and> nReactor t \<and> added then t\<lparr>nReadEv := True\<rparr> else t)"

text \<open>\<^verbatim>\<open>SAFE_CLOSE_SOCKET\<close> and the two flags.\<close>

definition close_socket :: "tunnel \<Rightarrow> tunnel" where
  "close_socket t =
     (let t1 = (if nReactor t \<and> nOpen t then t\<lparr>nReadEv := False, nWriteEv := False, nFds := nFds t - 1\<rparr> else t)
      in t1\<lparr>nOpen := False, nReactor := False\<rparr>)"

definition TCPTunnel_destroyTunnel :: "tunnel \<Rightarrow> tunnel" where
  "TCPTunnel_destroyTunnel t = close_socket (t\<lparr>nAlive := False, nConnected := False\<rparr>)"

text \<open>\<^verbatim>\<open>sendData\<close> with the answer \<open>k\<close> of \<^verbatim>\<open>send\<close>; \<open>tell\<close> is a callback of the client.\<close>

definition tunnel_send :: "(client_call \<Rightarrow> tunnel \<Rightarrow> tunnel) \<Rightarrow> bytes \<Rightarrow> bool \<Rightarrow> int \<Rightarrow> int \<Rightarrow> tunnel \<Rightarrow> int \<times> tunnel" where
  "tunnel_send tell data more_data k now t =
     (if nOpen t
      then if k < 0 then (k, tell C_disconnected (TCPTunnel_destroyTunnel t))
           else (let n = min k (int (length data))
                 in (n, t\<lparr>nWire := nWire t @ take (nat n) data, nLastTime := now + TUNNEL_TIMEOUT\<rparr>))
      else (0, t))"

definition tunnel_do :: "(client_call \<Rightarrow> tunnel \<Rightarrow> tunnel) \<Rightarrow> tunnel_act \<Rightarrow> tunnel \<Rightarrow> tunnel" where
  "tunnel_do tell a t =
     (case a of
        U_sendData data more_data k now \<Rightarrow> snd (tunnel_send tell data more_data k now t)
      | U_requestSendData added \<Rightarrow> TCPTunnel_requestSendData added t
      | U_pauseSendData \<Rightarrow> TCPTunnel_pauseSendData t
      | U_pauseReceiveData \<Rightarrow> TCPTunnel_pauseReceiveData t
      | U_resumeReceiveData added \<Rightarrow> TCPTunnel_resumeReceiveData added t
      | U_destroyTunnel \<Rightarrow> TCPTunnel_destroyTunnel t)"

text \<open>
  A callback and what the client does in it. A send that fails calls the client again from inside; that callback finds the socket
  closed and no further one follows, so two levels are all there are (\<open>tell_depth\<close> below).
\<close>

fun tell_at :: "nat \<Rightarrow> client_call \<Rightarrow> tunnel \<Rightarrow> tunnel" where
  "tell_at 0 c t = t\<lparr>nCalls := nCalls t @ [c]\<rparr>"
| "tell_at (Suc n) c t =
     (let t1 = t\<lparr>nCalls := nCalls t @ [c]\<rparr> in fold (tunnel_do (tell_at n)) (nTurns t1 (nCalls t1)) t1)"

definition tell :: "client_call \<Rightarrow> tunnel \<Rightarrow> tunnel" where
  "tell = tell_at 2"

definition TCPTunnel_act :: "tunnel_act \<Rightarrow> tunnel \<Rightarrow> tunnel" where
  "TCPTunnel_act = tunnel_do tell"

section \<open>The callbacks of the reactor\<close>

definition ensure_told :: "tunnel \<Rightarrow> tunnel" where
  "ensure_told t = (if \<not> nConnected t then tell C_connected (t\<lparr>nConnected := True\<rparr>) else t)"

text \<open>
  What \<^verbatim>\<open>read\<close> gives: an error, whether it is \<^verbatim>\<open>EINTR\<close> or \<^verbatim>\<open>EAGAIN\<close>, or bytes, none at the end of the stream. On a closed
  socket \<^verbatim>\<open>read\<close> fails with \<^verbatim>\<open>EBADF\<close>.
\<close>

datatype tunnel_read = Read_error bool | Read_bytes bytes

definition TCPTunnel_onReadable :: "tunnel_read \<Rightarrow> int \<Rightarrow> tunnel \<Rightarrow> tunnel" where
  "TCPTunnel_onReadable r now t =
     (case (if nOpen t then r else Read_error False) of
        Read_error again \<Rightarrow> if \<not> again then tell C_disconnected (TCPTunnel_destroyTunnel t) else t
      | Read_bytes bs \<Rightarrow>
          let data = take SHARED_BUFFER_SIZE bs
          in if data = [] then tell C_disconnected (TCPTunnel_destroyTunnel t)
             else (tell (C_dataBack data) (ensure_told t))\<lparr>nLastTime := now + TUNNEL_TIMEOUT\<rparr>)"

definition TCPTunnel_onWritable :: "tunnel \<Rightarrow> tunnel" where
  "TCPTunnel_onWritable t = tell C_writable (ensure_told t)"

definition TCPTunnel_onException :: "tunnel \<Rightarrow> tunnel" where
  "TCPTunnel_onException t = TCPTunnel_destroyTunnel (tell C_disconnected t)"

definition TCPTunnel_onPeriodicallyCheck :: "int \<Rightarrow> tunnel \<Rightarrow> tunnel" where
  "TCPTunnel_onPeriodicallyCheck now t =
     (if now > nLastTime t then tell C_disconnected (TCPTunnel_destroyTunnel t) else t)"

section \<open>Two levels of callbacks are enough\<close>

lemmas tunnel_ops = TCPTunnel_requestSendData_def TCPTunnel_pauseSendData_def TCPTunnel_pauseReceiveData_def
  TCPTunnel_resumeReceiveData_def TCPTunnel_destroyTunnel_def close_socket_def

lemma destroyed [simp]: "\<not> nOpen (TCPTunnel_destroyTunnel t)"
  by (simp add: tunnel_ops Let_def)

lemma tunnel_do_closed: "\<not> nOpen t \<Longrightarrow> tunnel_do f a t = tunnel_do g a t \<and> \<not> nOpen (tunnel_do f a t)"
  by (cases a) (simp_all add: tunnel_do_def tunnel_send_def tunnel_ops Let_def)

lemma fold_closed:
  "\<not> nOpen t \<Longrightarrow> fold (tunnel_do f) as t = fold (tunnel_do g) as t \<and> \<not> nOpen (fold (tunnel_do f) as t)"
proof (induction as arbitrary: t)
  case (Cons a as)
  then show ?case using tunnel_do_closed [OF Cons.prems, of f a g] by (metis fold_simps(2))
qed simp

lemma tell_closed: "\<not> nOpen t \<Longrightarrow> tell_at (Suc n) c t = tell_at 1 c t \<and> \<not> nOpen (tell_at (Suc n) c t)"
  using fold_closed [of "t\<lparr>nCalls := nCalls t @ [c]\<rparr>"] by (simp add: Let_def)

lemma tunnel_do_depth: "tunnel_do (tell_at (Suc n)) a t = tunnel_do (tell_at 1) a t"
  using tell_closed [of "TCPTunnel_destroyTunnel t" n C_disconnected]
  by (cases a) (simp_all add: tunnel_do_def tunnel_send_def)

lemma tunnel_do_fixed: "tunnel_do (tell_at (Suc n)) = tunnel_do (tell_at 1)"
  by (intro ext) (rule tunnel_do_depth)

lemma tell_depth:
  assumes "n \<ge> 2"
  shows "tell_at n c t = tell c t"
proof -
  obtain m where n: "n = Suc (Suc m)" using le_Suc_ex [OF assms] by auto
  have two: "(2 :: nat) = Suc (Suc 0)" by simp
  show ?thesis
    by (simp only: n tell_def two tell_at.simps(2) [of "Suc m"] tell_at.simps(2) [of "Suc 0"] tunnel_do_fixed [of m]
        One_nat_def)
qed

section \<open>What a client may hear\<close>

text \<open>The contract of \<^verbatim>\<open>ITunnelClient\<close>: connected first, then data and write events, and the end once.\<close>

datatype phase = Connecting | Transfer | Over

fun phase_step :: "phase \<Rightarrow> client_call \<Rightarrow> phase option" where
  "phase_step Connecting C_connected = Some Transfer"
| "phase_step Transfer C_writable = Some Transfer"
| "phase_step Transfer (C_dataBack bs) = (if bs = [] then None else Some Transfer)"
| "phase_step Connecting C_disconnected = Some Over"
| "phase_step Transfer C_disconnected = Some Over"
| "phase_step _ _ = None"

definition phase_of :: "client_call list \<Rightarrow> phase option" where
  "phase_of cs = fold (\<lambda>c ph. Option.bind ph (\<lambda>p. phase_step p c)) cs (Some Connecting)"

lemma phase_of_simps [simp]:
  "phase_of [] = Some Connecting"
  "phase_of (cs @ [c]) = Option.bind (phase_of cs) (\<lambda>p. phase_step p c)"
  by (simp_all add: phase_of_def)

text \<open>The phases are ordered, and no call goes back.\<close>

fun phase_rank :: "phase \<Rightarrow> nat" where
  "phase_rank Connecting = 0"
| "phase_rank Transfer = 1"
| "phase_rank Over = 2"

instantiation phase :: linorder
begin

definition less_eq_phase :: "phase \<Rightarrow> phase \<Rightarrow> bool" where
  "less_eq_phase p q \<longleftrightarrow> phase_rank p \<le> phase_rank q"

definition less_phase :: "phase \<Rightarrow> phase \<Rightarrow> bool" where
  "less_phase p q \<longleftrightarrow> phase_rank p < phase_rank q"

instance
proof
  fix p q r :: phase
  show "(p < q) = (p \<le> q \<and> \<not> q \<le> p)" by (auto simp: less_eq_phase_def less_phase_def)
  show "p \<le> p" by (simp add: less_eq_phase_def)
  show "p \<le> q \<Longrightarrow> q \<le> r \<Longrightarrow> p \<le> r" by (simp add: less_eq_phase_def)
  show "p \<le> q \<Longrightarrow> q \<le> p \<Longrightarrow> p = q" by (cases p; cases q; simp add: less_eq_phase_def)
  show "p \<le> q \<or> q \<le> p" by (auto simp: less_eq_phase_def)
qed

end

lemma phase_step_mono: "phase_step p c = Some q \<Longrightarrow> p \<le> q"
  by (cases p; cases c; auto simp: less_eq_phase_def split: if_splits)

lemma phase_of_mono: "phase_of (cs @ ds) = Some q \<Longrightarrow> \<exists>p. phase_of cs = Some p \<and> p \<le> q"
proof (induction ds arbitrary: q rule: rev_induct)
  case (snoc d ds)
  then have "Option.bind (phase_of (cs @ ds)) (\<lambda>p. phase_step p d) = Some q"
    using phase_of_simps(2) [of "cs @ ds" d] by simp
  then obtain r where "phase_of (cs @ ds) = Some r" "phase_step r d = Some q"
    by (auto split: bind_splits)
  with snoc.IH show ?case using phase_step_mono order_trans by blast
qed simp

text \<open>The words of the contract, written out.\<close>

fun traffic :: "client_call \<Rightarrow> bool" where
  "traffic C_writable = True"
| "traffic (C_dataBack bs) = (bs \<noteq> [])"
| "traffic _ = False"

definition contract_word :: "client_call list \<Rightarrow> bool" where
  "contract_word cs \<longleftrightarrow>
     cs = [] \<or> cs = [C_disconnected]
     \<or> (\<exists>ds. list_all traffic ds \<and> (cs = C_connected # ds \<or> cs = C_connected # ds @ [C_disconnected]))"

lemma phase_of_word:
  assumes "phase_of cs = Some p"
  shows "(p = Connecting \<longrightarrow> cs = []) \<and> (p = Transfer \<longrightarrow> (\<exists>ds. list_all traffic ds \<and> cs = C_connected # ds))
    \<and> (p = Over \<longrightarrow> cs = [C_disconnected] \<or> (\<exists>ds. list_all traffic ds \<and> cs = C_connected # ds @ [C_disconnected]))"
  using assms
proof (induction cs arbitrary: p rule: rev_induct)
  case (snoc c cs)
  then obtain q where q: "phase_of cs = Some q" "phase_step q c = Some p" by (auto split: bind_splits)
  then show ?case
    using snoc.IH [OF q(1)] by (cases q; cases c) (auto split: if_splits)
qed simp

lemma phase_of_contract: "phase_of cs = Some p \<Longrightarrow> contract_word cs"
  using phase_of_word by (cases p) (fastforce simp: contract_word_def)+

text \<open>
  What the sessions do in the callbacks: nothing when they hear of the connection, and they do not send when they hear of its end.
\<close>

fun is_send :: "tunnel_act \<Rightarrow> bool" where
  "is_send (U_sendData data more_data k now) = True"
| "is_send _ = False"

definition quiet_turns :: "(client_call list \<Rightarrow> tunnel_act list) \<Rightarrow> bool" where
  "quiet_turns turns \<longleftrightarrow>
     (\<forall>cs. turns (cs @ [C_connected]) = [] \<and> (\<forall>a \<in> set (turns (cs @ [C_disconnected])). \<not> is_send a))"

inductive tunnel_step :: "tunnel \<Rightarrow> tunnel \<Rightarrow> bool" where
  readable: "nOpen t \<Longrightarrow> nReadEv t \<Longrightarrow> tunnel_step t (TCPTunnel_onReadable r now t)"
| writable: "nOpen t \<Longrightarrow> nWriteEv t \<Longrightarrow> tunnel_step t (TCPTunnel_onWritable t)"
| failing: "nOpen t \<Longrightarrow> tunnel_step t (TCPTunnel_onException t)"
| checked: "nOpen t \<Longrightarrow> tunnel_step t (TCPTunnel_onPeriodicallyCheck now t)"
| called: "tunnel_step t (TCPTunnel_act a t)"

section \<open>Tunnels\<close>

text \<open>
  What a session relies on: whatever happens to a tunnel, the calls so far are a word of the contract, and none is taken back.
\<close>

locale tunnel_contract =
  fixes step :: "'t \<Rightarrow> 't \<Rightarrow> bool"
    and calls_of :: "'t \<Rightarrow> client_call list"
    and inv :: "'t \<Rightarrow> bool"
  assumes inv_step: "step t t' \<Longrightarrow> inv t \<Longrightarrow> inv t'"
    and inv_phase: "inv t \<Longrightarrow> \<exists>p. phase_of (calls_of t) = Some p"
    and calls_grow: "step t t' \<Longrightarrow> inv t \<Longrightarrow> \<exists>cs. calls_of t' = calls_of t @ cs"
begin

lemma inv_run: "step\<^sup>*\<^sup>* t t' \<Longrightarrow> inv t \<Longrightarrow> inv t'"
  by (induction rule: rtranclp_induct) (auto intro: inv_step)

lemma run_word: "step\<^sup>*\<^sup>* t t' \<Longrightarrow> inv t \<Longrightarrow> contract_word (calls_of t')"
  using inv_run inv_phase phase_of_contract by blast

lemma calls_run: "step\<^sup>*\<^sup>* t t' \<Longrightarrow> inv t \<Longrightarrow> \<exists>cs. calls_of t' = calls_of t @ cs"
proof (induction rule: rtranclp_induct)
  case (step t1 t2)
  then show ?case using calls_grow [OF step.hyps(2)] inv_run [OF step.hyps(1)] by fastforce
qed simp

lemma phase_advances:
  assumes "step\<^sup>*\<^sup>* t t'" "inv t"
  shows "\<exists>p q. phase_of (calls_of t) = Some p \<and> phase_of (calls_of t') = Some q \<and> p \<le> q"
proof -
  obtain cs where cs: "calls_of t' = calls_of t @ cs" using calls_run [OF assms] by blast
  obtain q where q: "phase_of (calls_of t') = Some q" using inv_phase inv_run [OF assms] by blast
  then show ?thesis using phase_of_mono [of "calls_of t" cs q] cs by auto
qed

end

section \<open>The invariant\<close>

text \<open>The socket: one is held while the tunnel is open, and nothing is registered for it afterwards.\<close>

definition sock_ok :: "tunnel \<Rightarrow> bool" where
  "sock_ok t \<longleftrightarrow>
     (if nOpen t then nAlive t \<and> nReactor t \<and> nFds t = 1
      else \<not> nAlive t \<and> \<not> nReactor t \<and> \<not> nConnected t \<and> \<not> nReadEv t \<and> \<not> nWriteEv t \<and> nFds t = 0)"

definition told_ok :: "tunnel \<Rightarrow> bool" where
  "told_ok t \<longleftrightarrow> sock_ok t \<and> quiet_turns (nTurns t)
     \<and> (\<exists>ph. phase_of (nCalls t) = Some ph \<and> (nOpen t \<longrightarrow> ph = (if nConnected t then Transfer else Connecting)))"

text \<open>An operation that calls nobody keeps the socket in order and the calls as they were.\<close>

lemma destroy_fields [simp]:
  "\<not> nReactor (TCPTunnel_destroyTunnel t)" "\<not> nAlive (TCPTunnel_destroyTunnel t)"
  "\<not> nConnected (TCPTunnel_destroyTunnel t)"
  "nReadEv (TCPTunnel_destroyTunnel t) \<longleftrightarrow> nReadEv t \<and> \<not> (nReactor t \<and> nOpen t)"
  "nWriteEv (TCPTunnel_destroyTunnel t) \<longleftrightarrow> nWriteEv t \<and> \<not> (nReactor t \<and> nOpen t)"
  "nFds (TCPTunnel_destroyTunnel t) = (if nReactor t \<and> nOpen t then nFds t - 1 else nFds t)"
  "nCalls (TCPTunnel_destroyTunnel t) = nCalls t" "nTurns (TCPTunnel_destroyTunnel t) = nTurns t"
  by (simp_all add: TCPTunnel_destroyTunnel_def close_socket_def Let_def)

lemma destroy_ok: "sock_ok t \<Longrightarrow> sock_ok (TCPTunnel_destroyTunnel t)"
  by (cases "nOpen t") (simp_all add: sock_ok_def)

lemma event_op_fields:
  assumes "a = U_requestSendData b \<or> a = U_pauseSendData \<or> a = U_pauseReceiveData \<or> a = U_resumeReceiveData b"
  shows "nOpen (tunnel_do f a t) = nOpen t" "nReactor (tunnel_do f a t) = nReactor t"
    "nAlive (tunnel_do f a t) = nAlive t" "nConnected (tunnel_do f a t) = nConnected t"
    "nFds (tunnel_do f a t) = nFds t" "nCalls (tunnel_do f a t) = nCalls t" "nTurns (tunnel_do f a t) = nTurns t"
    "\<not> nOpen t \<Longrightarrow> tunnel_do f a t = t"
  using assms
  by (auto simp: tunnel_do_def TCPTunnel_requestSendData_def TCPTunnel_pauseSendData_def TCPTunnel_pauseReceiveData_def
      TCPTunnel_resumeReceiveData_def split: if_splits)

lemma silent_op:
  assumes "\<not> is_send a" "sock_ok t"
  shows "sock_ok (tunnel_do f a t)" "nCalls (tunnel_do f a t) = nCalls t" "nTurns (tunnel_do f a t) = nTurns t"
    "nOpen (tunnel_do f a t) \<Longrightarrow> nOpen t \<and> nConnected (tunnel_do f a t) = nConnected t"
proof -
  consider b where "a = U_requestSendData b \<or> a = U_pauseSendData \<or> a = U_pauseReceiveData \<or> a = U_resumeReceiveData b"
    | "tunnel_do f a t = TCPTunnel_destroyTunnel t"
    using assms(1) by (cases a) (auto simp: tunnel_do_def)
  then have "sock_ok (tunnel_do f a t) \<and> nCalls (tunnel_do f a t) = nCalls t \<and> nTurns (tunnel_do f a t) = nTurns t
      \<and> (nOpen (tunnel_do f a t) \<longrightarrow> nOpen t \<and> nConnected (tunnel_do f a t) = nConnected t)"
  proof cases
    case 1
    note fields = event_op_fields [OF 1, where f = f and t = t]
    show ?thesis
    proof (cases "nOpen t")
      case True
      then show ?thesis using assms(2) by (simp add: sock_ok_def fields)
    qed (use assms(2) fields in simp)
  qed (use assms(2) destroy_ok in simp)
  then show "sock_ok (tunnel_do f a t)" "nCalls (tunnel_do f a t) = nCalls t" "nTurns (tunnel_do f a t) = nTurns t"
    "nOpen (tunnel_do f a t) \<Longrightarrow> nOpen t \<and> nConnected (tunnel_do f a t) = nConnected t"
    by blast+
qed

lemma silent_ops:
  assumes "\<forall>a \<in> set as. \<not> is_send a" "sock_ok t"
  shows "sock_ok (fold (tunnel_do f) as t) \<and> nCalls (fold (tunnel_do f) as t) = nCalls t
    \<and> nTurns (fold (tunnel_do f) as t) = nTurns t \<and> (nOpen (fold (tunnel_do f) as t) \<longrightarrow> nOpen t)"
  using assms
proof (induction as arbitrary: t)
  case (Cons a as)
  then have "sock_ok (tunnel_do f a t)" "\<not> is_send a" by (simp_all add: silent_op(1))
  with Cons.IH [of "tunnel_do f a t"] Cons.prems show ?case using silent_op [of a t f] by auto
qed simp

lemma tell_Suc:
  "tell_at (Suc n) c t = fold (tunnel_do (tell_at n)) (nTurns t (nCalls t @ [c])) (t\<lparr>nCalls := nCalls t @ [c]\<rparr>)"
  by (simp add: Let_def)

lemma tell_end:
  assumes "sock_ok t" "quiet_turns (nTurns t)"
  shows "sock_ok (tell_at (Suc n) C_disconnected t)
    \<and> nCalls (tell_at (Suc n) C_disconnected t) = nCalls t @ [C_disconnected]
    \<and> nTurns (tell_at (Suc n) C_disconnected t) = nTurns t \<and> (nOpen (tell_at (Suc n) C_disconnected t) \<longrightarrow> nOpen t)"
proof -
  have "sock_ok (t\<lparr>nCalls := nCalls t @ [C_disconnected]\<rparr>)" using assms(1) by (simp add: sock_ok_def)
  moreover have "\<forall>a \<in> set (nTurns t (nCalls t @ [C_disconnected])). \<not> is_send a"
    using assms(2) by (simp add: quiet_turns_def)
  ultimately show ?thesis
    using silent_ops [of "nTurns t (nCalls t @ [C_disconnected])" "t\<lparr>nCalls := nCalls t @ [C_disconnected]\<rparr>" "tell_at n"]
    unfolding tell_Suc by (simp del: tell_at.simps)
qed

text \<open>The end of an open connection.\<close>

lemma end_told:
  assumes "told_ok t" "nOpen t"
  shows "told_ok (tell_at (Suc n) C_disconnected (TCPTunnel_destroyTunnel t))"
    "told_ok (TCPTunnel_destroyTunnel (tell_at (Suc n) C_disconnected t))"
proof -
  obtain ph where ph: "phase_of (nCalls t) = Some ph" "ph = (if nConnected t then Transfer else Connecting)"
      and ok: "sock_ok t" "quiet_turns (nTurns t)"
    using assms by (auto simp: told_ok_def)
  then have over: "phase_of (nCalls t @ [C_disconnected]) = Some Over" by simp
  show "told_ok (tell_at (Suc n) C_disconnected (TCPTunnel_destroyTunnel t))"
    using tell_end [of "TCPTunnel_destroyTunnel t" n] destroy_ok [OF ok(1)] ok(2) over
    by (auto simp: told_ok_def)
  show "told_ok (TCPTunnel_destroyTunnel (tell_at (Suc n) C_disconnected t))"
    using tell_end [OF ok, of n] ok(2) over by (auto simp: told_ok_def destroy_ok)
qed

lemma act_told:
  assumes "told_ok t"
  shows "told_ok (tunnel_do (tell_at (Suc n)) a t)"
proof (cases "is_send a")
  case False
  then show ?thesis
    using assms silent_op [of a t "tell_at (Suc n)"] by (auto simp: told_ok_def)
next
  case True
  then obtain data more_data k now where a: "a = U_sendData data more_data k now" by (cases a) auto
  show ?thesis
    using assms end_told(1) [OF assms, of n]
    by (auto simp: a tunnel_do_def tunnel_send_def Let_def told_ok_def sock_ok_def)
qed

lemma acts_told: "told_ok t \<Longrightarrow> told_ok (fold (tunnel_do (tell_at (Suc n))) as t)"
  by (induction as arbitrary: t) (simp_all add: act_told)

lemma tell_told:
  assumes "told_ok (t\<lparr>nCalls := nCalls t @ [c]\<rparr>)"
  shows "told_ok (tell c t)"
  using acts_told [OF assms, of 0 "nTurns t (nCalls t @ [c])"] by (simp add: tell_def numeral_2_eq_2 Let_def)

lemma ensure_told_ok:
  assumes "told_ok t" "nOpen t"
  shows "told_ok (ensure_told t) \<and> nOpen (ensure_told t) \<and> nConnected (ensure_told t)"
  using assms
  by (auto simp: ensure_told_def tell_def numeral_2_eq_2 Let_def told_ok_def quiet_turns_def sock_ok_def split: if_splits)

lemma tunnel_step_told:
  assumes "tunnel_step t t'" "told_ok t"
  shows "told_ok t'"
  using assms
proof (cases rule: tunnel_step.cases)
  case (readable r now)
  let ?e = "ensure_told t"
  have e: "told_ok ?e" "nOpen ?e" "nConnected ?e" using ensure_told_ok assms(2) readable by simp_all
  have "told_ok ((tell (C_dataBack data) ?e)\<lparr>nLastTime := k\<rparr>)" if "data \<noteq> []" for data k
  proof -
    have "told_ok (?e\<lparr>nCalls := nCalls ?e @ [C_dataBack data]\<rparr>)"
      using e that by (auto simp: told_ok_def sock_ok_def)
    from tell_told [OF this] show ?thesis by (simp add: told_ok_def sock_ok_def)
  qed
  moreover have "told_ok (tell C_disconnected (TCPTunnel_destroyTunnel t))"
    using end_told(1) [OF assms(2), of 1] readable by (simp add: tell_def numeral_2_eq_2)
  ultimately show ?thesis
    using assms(2) readable by (auto simp: TCPTunnel_onReadable_def Let_def split: tunnel_read.splits)
next
  case writable
  then have e: "told_ok (ensure_told t)" "nOpen (ensure_told t)" "nConnected (ensure_told t)"
    using ensure_told_ok assms(2) by simp_all
  then have "told_ok ((ensure_told t)\<lparr>nCalls := nCalls (ensure_told t) @ [C_writable]\<rparr>)"
    by (auto simp: told_ok_def sock_ok_def)
  then show ?thesis using writable tell_told by (simp add: TCPTunnel_onWritable_def)
next
  case failing
  then show ?thesis
    using end_told(2) [OF assms(2), of 1] by (simp add: TCPTunnel_onException_def tell_def numeral_2_eq_2)
next
  case (checked now)
  then show ?thesis
    using end_told(1) [OF assms(2), of 1] assms(2)
    by (simp add: TCPTunnel_onPeriodicallyCheck_def tell_def numeral_2_eq_2)
next
  case (called a)
  then show ?thesis
    using act_told [OF assms(2), of 1 a] by (simp add: TCPTunnel_act_def tell_def numeral_2_eq_2)
qed

text \<open>A handler only adds calls.\<close>

definition extends :: "tunnel \<Rightarrow> tunnel \<Rightarrow> bool" where
  "extends t t' \<longleftrightarrow> (\<exists>cs. nCalls t' = nCalls t @ cs)"

lemma extends_refl [intro, simp]: "extends t t" "nCalls t' = nCalls t \<Longrightarrow> extends t t'"
  by (simp_all add: extends_def)

lemma extends_trans: "extends t1 t2 \<Longrightarrow> extends t2 t3 \<Longrightarrow> extends t1 t3"
  unfolding extends_def by (metis append_assoc)

lemma fold_extends: "(\<And>a t. extends t (f a t)) \<Longrightarrow> extends t (fold f as t)"
  by (induction as arbitrary: t) (auto intro: extends_trans)

lemma do_extends:
  assumes "\<And>c t. extends t (g c t)"
  shows "extends t (tunnel_do g a t)"
proof (cases "is_send a")
  case True
  then obtain data more_data k now where a: "a = U_sendData data more_data k now" by (cases a) auto
  have "extends t (g C_disconnected (TCPTunnel_destroyTunnel t))"
    using assms [of "TCPTunnel_destroyTunnel t"] by (auto simp: extends_def)
  then show ?thesis by (simp add: a tunnel_do_def tunnel_send_def Let_def)
next
  case False
  then consider b where "a = U_requestSendData b \<or> a = U_pauseSendData \<or> a = U_pauseReceiveData \<or> a = U_resumeReceiveData b"
    | "a = U_destroyTunnel" by (cases a) auto
  then show ?thesis
    by cases (simp_all add: event_op_fields, simp add: tunnel_do_def)
qed

lemma tell_extends: "extends t (tell_at n c t)"
proof (induction n arbitrary: c t)
  case 0
  show ?case by (simp add: extends_def)
next
  case (Suc n)
  let ?t1 = "t\<lparr>nCalls := nCalls t @ [c]\<rparr>"
  have "extends t ?t1" by (simp add: extends_def)
  moreover have "extends ?t1 (fold (tunnel_do (tell_at n)) (nTurns t (nCalls t @ [c])) ?t1)"
    by (rule fold_extends, rule do_extends, rule Suc.IH)
  ultimately show ?case unfolding tell_Suc by (rule extends_trans)
qed

lemma ensure_extends: "extends t (ensure_told t)"
  using tell_extends [of "t\<lparr>nConnected := True\<rparr>" 2 C_connected] by (simp add: ensure_told_def tell_def extends_def)

lemma tunnel_step_extends:
  assumes "tunnel_step t t'"
  shows "extends t t'"
proof -
  have tell: "extends t (tell c t)" for c t by (simp add: tell_def tell_extends)
  have gone: "extends t (tell c (TCPTunnel_destroyTunnel t))" for c t
    using tell [of "TCPTunnel_destroyTunnel t"] by (simp add: extends_def)
  have via: "extends t (tell c (ensure_told t))" for c t using extends_trans [OF ensure_extends tell] .
  from assms show ?thesis
  proof cases
    case (readable r now)
    have "extends t ((tell c (ensure_told t))\<lparr>nLastTime := k\<rparr>)" for c k using via [of t c] by (simp add: extends_def)
    then show ?thesis using readable gone by (auto simp: TCPTunnel_onReadable_def Let_def split: tunnel_read.splits)
  next
    case writable
    then show ?thesis using via by (simp add: TCPTunnel_onWritable_def)
  next
    case failing
    then show ?thesis using tell [of t C_disconnected] by (simp add: TCPTunnel_onException_def extends_def)
  next
    case (checked now)
    then show ?thesis using gone by (simp add: TCPTunnel_onPeriodicallyCheck_def)
  next
    case (called a)
    then show ?thesis using do_extends [OF tell] by (simp add: TCPTunnel_act_def)
  qed
qed

interpretation direct: tunnel_contract tunnel_step nCalls told_ok
proof
  fix t t'
  show "tunnel_step t t' \<Longrightarrow> told_ok t \<Longrightarrow> told_ok t'" by (rule tunnel_step_told)
  show "told_ok t \<Longrightarrow> \<exists>p. phase_of (nCalls t) = Some p" by (auto simp: told_ok_def)
  show "tunnel_step t t' \<Longrightarrow> told_ok t \<Longrightarrow> \<exists>cs. nCalls t' = nCalls t @ cs"
    using tunnel_step_extends by (simp add: extends_def)
qed

text \<open>
  Claim C34. The client of a direct tunnel is told the truth. In every run of an established tunnel whose client does nothing on hearing of the connection and does not
  send on hearing of its end, the callbacks are a word of the contract of \<^verbatim>\<open>ITunnelClient\<close>, \<open>mConnected\<close> is its phase while the
  tunnel is open, and exactly one socket is held while it is open, none and nothing registered afterwards.
\<close>

theorem tunnel_told:
  assumes "TCPTunnel_establish True True True True added now (tunnel_new True port 4 True turns) = Some (0, t0)"
    "quiet_turns turns" "tunnel_step\<^sup>*\<^sup>* t0 t"
  shows "contract_word (nCalls t)
    \<and> (nOpen t \<longrightarrow> phase_of (nCalls t) = Some (if nConnected t then Transfer else Connecting))
    \<and> nFds t = (if nOpen t then 1 else 0)
    \<and> (\<not> nOpen t \<longrightarrow> \<not> nAlive t \<and> \<not> nReadEv t \<and> \<not> nWriteEv t)"
proof -
  have "told_ok t0"
    using assms(1,2)
    by (auto simp: TCPTunnel_establish_def tunnel_new_def remote_set_def told_ok_def sock_ok_def split: if_splits)
  note run = direct.inv_run [OF assms(3) this] direct.run_word [OF assms(3) this]
  then show ?thesis by (cases "nOpen t") (auto simp: told_ok_def sock_ok_def)
qed

definition sample_tunnel :: tunnel where
  "sample_tunnel =
     snd (the (TCPTunnel_establish True True True True True 100 (tunnel_new True 80 4 True (\<lambda>cs. []))))"

lemma tunnel_told_witness:
  "let t = TCPTunnel_onException (TCPTunnel_onReadable (Read_bytes [1, 2]) 200 sample_tunnel) in
   contract_word (nCalls t)
    \<and> (nOpen t \<longrightarrow> phase_of (nCalls t) = Some (if nConnected t then Transfer else Connecting))
    \<and> nFds t = (if nOpen t then 1 else 0)
    \<and> (\<not> nOpen t \<longrightarrow> \<not> nAlive t \<and> \<not> nReadEv t \<and> \<not> nWriteEv t)"
proof -
  let ?t = "TCPTunnel_onReadable (Read_bytes [1, 2]) 200 sample_tunnel"
  have e: "TCPTunnel_establish True True True True True 100 (tunnel_new True 80 4 True (\<lambda>cs. [])) = Some (0, sample_tunnel)"
    by (simp add: sample_tunnel_def TCPTunnel_establish_def tunnel_new_def remote_set_def)
  have o: "nOpen sample_tunnel" "nReadEv sample_tunnel" "nTurns sample_tunnel = (\<lambda>cs. [])"
    by (simp_all add: sample_tunnel_def TCPTunnel_establish_def tunnel_new_def remote_set_def)
  then have "nOpen ?t"
    by (simp add: TCPTunnel_onReadable_def ensure_told_def tell_def numeral_2_eq_2 SHARED_BUFFER_SIZE_def)
  then have "tunnel_step\<^sup>*\<^sup>* sample_tunnel (TCPTunnel_onException ?t)"
    using o tunnel_step.readable [of sample_tunnel "Read_bytes [1, 2]" 200] tunnel_step.failing [of ?t]
    by (meson converse_rtranclp_into_rtranclp rtranclp.rtrancl_refl)
  from tunnel_told [OF e _ this] show ?thesis by (simp add: quiet_turns_def)
qed

section \<open>Sockets that are never closed\<close>

text \<open>An \<^verbatim>\<open>establish\<close> that fails after \<^verbatim>\<open>socket\<close> leaves a socket behind that the destructor does not close.\<close>

lemma establish_leaks_socket:
  assumes "\<not> nAlive t" "nRemoteSet t" "\<not> (protect \<and> nonblock \<and> conn)"
  shows "\<exists>t'. TCPTunnel_establish True protect nonblock conn added now t = Some (1, t') \<and> nFds (tunnel_delete t') = nFds t + 1"
  using assms by (cases protect; cases nonblock) (simp_all add: TCPTunnel_establish_def tunnel_delete_def Let_def)

end
