(* ===== verification/Dns.thy ===== *)
theory Dns
  imports TCPPacket
begin

text \<open>
  \<^verbatim>\<open>core/Dns.h\<close> and \<^verbatim>\<open>core/Dns.cpp\<close>: the parser of DNS messages. The message is the memory behind the UDP header, so that
  a compression pointer may also read behind its end; the buffer for the name is a list, and writing outside it is \<^term>\<open>None\<close>.
\<close>

section \<open>Names\<close>

text \<open>The local variables of \<^verbatim>\<open>getNameNotation\<close>: \<open>ptr\<close>, \<open>off\<close>, \<open>c\<close>, \<open>rlen\<close>, \<open>len\<close> and the buffer \<open>out\<close>.\<close>

record name_state =
  dPtr :: u16
  dOff :: u16
  dJumped :: bool
  dRlen :: byte
  dLen :: byte
  dOut :: bytes

definition put_label :: "packet \<Rightarrow> nat \<Rightarrow> name_state \<Rightarrow> bytes option" where
  "put_label dns sz s =
     (let rlen = unat (dRlen s); len = unat (dLen s);
          tlen = (if rlen + len \<ge> sz then int sz - int rlen - 1 else int len)
      in if tlen > 0
         then if rlen + nat tlen < length (dOut s)
              then Some (blit (dOut s) rlen (map (\<lambda>i. dns (unat (dPtr s) + 1 + i)) [0..<nat tlen] @ [46]))
              else None
         else Some (dOut s))"

text \<open>
  The loop, with the value \<open>loop\<close> before the test \<open>loop-- > 0\<close>. It is done with the final value of \<open>loop\<close>: an empty label ends
  it before \<open>loop\<close> is decremented, and the test that fails still decrements it, to 255.
\<close>

fun name_loop :: "packet \<Rightarrow> nat \<Rightarrow> nat \<Rightarrow> nat \<Rightarrow> name_state \<Rightarrow> (byte \<times> name_state) option" where
  "name_loop dns datalen sz loop s =
     (if dLen s = 0 then Some (word_of_nat loop, s)
      else
        (case loop of
           0 \<Rightarrow> Some (255, s)
         | Suc k \<Rightarrow>
             if dLen s AND 0xC0 \<noteq> 0
             then (let p = push_bit 8 (ucast (dLen s AND 0x3F)) OR ucast (dns (unat (dPtr s) + 1))
                   in name_loop dns datalen sz k
                        (s\<lparr>dPtr := p, dLen := dns (unat p), dJumped := True,
                           dOff := (if dJumped s then dOff s else dOff s + 2)\<rparr>))
             else if unat (dPtr s) + 1 + unat (dLen s) < datalen
             then (case put_label dns sz s of
                     None \<Rightarrow> None
                   | Some out \<Rightarrow>
                       (let p = dPtr s + ucast (dLen s) + 1
                        in name_loop dns datalen sz k
                             (s\<lparr>dOut := out, dRlen := dRlen s + dLen s + 1, dPtr := p, dLen := dns (unat p),
                                dOff := (if dJumped s then dOff s else p + 1)\<rparr>)))
             else Some (word_of_nat k, s)))"

declare name_loop.simps [simp del]

definition name_start :: "packet \<Rightarrow> u16 \<Rightarrow> bytes \<Rightarrow> name_state" where
  "name_start dns off out =
     \<lparr>dPtr = off, dOff = off, dJumped = False, dRlen = 0, dLen = dns (unat off), dOut = out[0 := 0]\<rparr>"

definition getNameNotation :: "packet \<Rightarrow> nat \<Rightarrow> u16 \<Rightarrow> bytes \<Rightarrow> nat \<Rightarrow> (u16 \<times> bytes) option" where
  "getNameNotation dns datalen off out sz =
     (if out = [] then None
      else
        do { (loop, s) \<leftarrow> name_loop dns datalen sz 10 (name_start dns off out);
             if loop = 0 then Some (dOff s, dOut s)
             else if dLen s > 0 \<or> dRlen s = 0 then Some (dOff s, dOut s)
             else if unat (dRlen s) \<le> length (dOut s)
             then Some (if dJumped s then dOff s else dPtr s + 1, (dOut s)[unat (dRlen s) - 1 := 0])
             else None })"

section \<open>Messages\<close>

text \<open>What \<^verbatim>\<open>toString\<close> prints, before it is text: a string ends at its first zero byte.\<close>

definition c_string :: "bytes \<Rightarrow> bytes" where
  "c_string bs = takeWhile (\<lambda>b. b \<noteq> 0) bs"

record question =
  qName :: bytes
  qType :: u16
  qClass :: u16

record answer =
  aName :: bytes
  aType :: u16
  aClass :: u16
  aTtl :: u32
  aRdlen :: u16
  aIp :: "u32 option"

definition DNS_QCLASS_IN :: u16 where "DNS_QCLASS_IN = 1"
definition DNS_QTYPE_A :: u16 where "DNS_QTYPE_A = 1"

text \<open>
  \<^verbatim>\<open>toString\<close> of one resource record, with the offset of the next one. \<open>junk\<close> is what the array \<open>name\<close> holds, which no one has
  initialised.
\<close>

definition dns_answer :: "packet \<Rightarrow> u16 \<Rightarrow> nat \<Rightarrow> bytes \<Rightarrow> (answer \<times> u16) option" where
  "dns_answer dns rdOff dataLen junk =
     do { (off, name) \<leftarrow> getNameNotation dns dataLen rdOff junk 255;
          let p = unat off;
          let type = swap16 (ld16 dns p);
          let cls = swap16 (ld16 dns (p + 2));
          let rdlen = swap16 (ld16 dns (p + 8));
          Some (\<lparr>aName = c_string name, aType = type, aClass = cls, aTtl = swap32 (ld32 dns (p + 4)), aRdlen = rdlen,
                 aIp = (if cls = DNS_QCLASS_IN \<and> type = DNS_QTYPE_A then Some (ld32 dns (p + 10)) else None)\<rparr>,
                off + 10 + rdlen) }"

text \<open>
  The questions: the loop ends when the offset comes back unchanged. All questions use one array \<open>name\<close>, which holds the name
  before.
\<close>

fun dns_questions :: "packet \<Rightarrow> nat \<Rightarrow> nat \<Rightarrow> bytes \<Rightarrow> u16 \<Rightarrow> (question list \<times> u16) option" where
  "dns_questions dns datalen 0 name offset = Some ([], offset)"
| "dns_questions dns datalen (Suc n) name offset =
     do { (offset2, name2) \<leftarrow> getNameNotation dns datalen offset name 255;
          if offset2 \<noteq> offset
          then do { (qs, next_off) \<leftarrow> dns_questions dns datalen n name2 (offset2 + 4);
                    Some (\<lparr>qName = c_string name2, qType = swap16 (ld16 dns (unat offset2)),
                           qClass = swap16 (ld16 dns (unat offset2 + 2))\<rparr> # qs, next_off) }
          else Some ([], offset) }"

fun dns_answers :: "packet \<Rightarrow> nat \<Rightarrow> bytes \<Rightarrow> nat \<Rightarrow> u16 \<Rightarrow> answer list option" where
  "dns_answers dns datalen junk 0 offset = Some []"
| "dns_answers dns datalen junk (Suc n) offset =
     do { (a, offset2) \<leftarrow> dns_answer dns offset datalen junk;
          if offset2 = offset then Some [a]
          else do { as \<leftarrow> dns_answers dns datalen junk n offset2; Some (a # as) } }"

text \<open>The header, as the bit fields of \<^verbatim>\<open>DnsHeader\<close> lie on a little-endian machine; the identification is not swapped.\<close>

record dns_header =
  hId :: u16
  hQr :: bool
  hRd :: bool
  hTc :: bool
  hAa :: bool
  hQnum :: u16
  hAnum :: u16
  hAuthNum :: u16
  hAddNum :: u16

definition dns_read_header :: "packet \<Rightarrow> dns_header" where
  "dns_read_header dns =
     \<lparr>hId = ld16 dns 0, hQr = bit (dns 2) 7, hRd = bit (dns 2) 0, hTc = bit (dns 2) 1, hAa = bit (dns 2) 2,
      hQnum = swap16 (ld16 dns 4), hAnum = swap16 (ld16 dns 6), hAuthNum = swap16 (ld16 dns 8), hAddNum = swap16 (ld16 dns 10)\<rparr>"

definition dns_message :: "packet \<Rightarrow> nat \<Rightarrow> bytes \<Rightarrow> (dns_header \<times> question list \<times> answer list) option" where
  "dns_message dns payloadLen junk =
     (let h = dns_read_header dns
      in do { (qs, offset) \<leftarrow> dns_questions dns payloadLen (unat (hQnum h)) junk 12;
              as \<leftarrow> dns_answers dns payloadLen junk (unat (hAnum h)) offset;
              Some (h, qs, as) })"

section \<open>The parser never writes outside its buffer\<close>

lemma label_room:
  fixes r l sz :: nat
  assumes "1 \<le> sz" "t = (if r + l \<ge> sz then int sz - int r - 1 else int l)" "t > 0"
  shows "r + nat t < sz"
  using assms by (auto split: if_splits)

lemma put_label_length:
  assumes "length (dOut s) = sz" "sz \<ge> 1"
  shows "\<exists>out. put_label dns sz s = Some out \<and> length out = sz"
proof -
  define t where "t = (if unat (dRlen s) + unat (dLen s) \<ge> sz then int sz - int (unat (dRlen s)) - 1 else int (unat (dLen s)))"
  have "unat (dRlen s) + nat t < sz" if "t > 0"
    using label_room [OF assms(2) t_def that] .
  then show ?thesis
    using assms(1) length_blit [of "unat (dRlen s)" "map (\<lambda>i. dns (unat (dPtr s) + 1 + i)) [0..<nat t] @ [46]" "dOut s"]
    by (auto simp: put_label_def t_def [symmetric] Let_def Suc_le_eq simp del: length_blit)
qed

lemma name_loop_length:
  assumes "length (dOut s) = sz" "sz \<ge> 1"
  shows "\<exists>l s'. name_loop dns datalen sz loop s = Some (l, s') \<and> length (dOut s') = sz"
  using assms
proof (induction loop arbitrary: s)
  case 0
  then show ?case by (subst name_loop.simps) auto
next
  case (Suc k)
  obtain out where out: "put_label dns sz s = Some out" "length out = sz"
    using put_label_length [OF Suc.prems] by blast
  have IH: "\<exists>l s'. name_loop dns datalen sz k s1 = Some (l, s') \<and> length (dOut s') = sz" if "length (dOut s1) = sz" for s1
    using Suc.IH [OF that Suc.prems(2)] .
  show ?case
    by (subst name_loop.simps) (simp add: Let_def out IH Suc.prems(1))
qed

lemma getNameNotation_length:
  assumes "length out = 255"
  shows "\<exists>off' out'. getNameNotation dns datalen off out 255 = Some (off', out') \<and> length out' = 255"
proof -
  have "length (dOut (name_start dns off out)) = 255" using assms by (simp add: name_start_def)
  from name_loop_length [OF this] obtain l s' where
    s': "name_loop dns datalen 255 10 (name_start dns off out) = Some (l, s')" "length (dOut s') = 255"
    by fastforce
  moreover have "unat (dRlen s') < 256" using unsigned_less [of "dRlen s'"] by simp
  then have "unat (dRlen s') \<le> 255" by linarith
  ultimately show ?thesis
    using assms by (auto simp: getNameNotation_def)
qed

lemma dns_answer_defined:
  "length junk = 255 \<Longrightarrow> \<exists>a off'. dns_answer dns off datalen junk = Some (a, off')"
  using getNameNotation_length [of junk dns datalen off] by (auto simp: dns_answer_def Let_def)

lemma dns_questions_defined:
  "length name = 255 \<Longrightarrow> \<exists>qs off'. dns_questions dns datalen n name off = Some (qs, off')"
proof (induction n arbitrary: off name)
  case (Suc n)
  obtain off2 name2 where "getNameNotation dns datalen off name 255 = Some (off2, name2)" "length name2 = 255"
    using getNameNotation_length [OF Suc.prems] by blast
  moreover obtain qs off' where "dns_questions dns datalen n name2 (off2 + 4) = Some (qs, off')"
    using Suc.IH calculation(2) by blast
  ultimately show ?case by simp
qed simp

lemma dns_answers_defined:
  "length junk = 255 \<Longrightarrow> \<exists>as. dns_answers dns datalen junk n off = Some as"
proof (induction n arbitrary: off)
  case (Suc n)
  obtain a off2 where "dns_answer dns off datalen junk = Some (a, off2)"
    using dns_answer_defined [OF Suc.prems] by blast
  moreover obtain as where "dns_answers dns datalen junk n off2 = Some as"
    using Suc by blast
  ultimately show ?case by simp
qed simp

text \<open>
  Whatever a DNS message holds, the parser comes to an end, after at most ten labels or pointers per name, and
  never writes outside the 255 bytes of the caller's buffer.
\<close>

theorem dns_parser_safe:
  assumes "length junk = 255"
  shows "\<exists>r. dns_message dns payloadLen junk = Some r"
  using dns_questions_defined [OF assms] dns_answers_defined [OF assms]
  by (simp add: dns_message_def Let_def) (metis (no_types, lifting) bind.bind_lunit case_prod_conv)

section \<open>Names without compression\<close>

definition wire_labels :: "bytes list \<Rightarrow> bytes" where
  "wire_labels ls = concat (map (\<lambda>l. word_of_nat (length l) # l) ls)"

definition wire_name :: "bytes list \<Rightarrow> bytes" where
  "wire_name ls = wire_labels ls @ [0]"

definition dotted :: "bytes list \<Rightarrow> bytes" where
  "dotted ls = concat (map (\<lambda>l. l @ [46]) ls)"

definition label_ok :: "bytes \<Rightarrow> bool" where
  "label_ok l \<longleftrightarrow> 1 \<le> length l \<and> length l \<le> 63"

lemma laid_out_read: "laid_out m p xs \<Longrightarrow> map (\<lambda>i. m (p + i)) [0..<length xs] = xs"
proof (induction xs arbitrary: p)
  case (Cons x xs)
  have "map (\<lambda>i. m (p + i)) [0..<length (x # xs)] = m p # map (\<lambda>i. m (p + 1 + i)) [0..<length xs]"
    by (simp only: length_Cons map_upt_Suc) simp
  also have "\<dots> = x # xs" using Cons.IH [of "p + 1"] Cons.prems by simp
  finally show ?case .
qed simp

text \<open>The steps of the loop.\<close>

lemma name_loop_end: "dLen s = 0 \<Longrightarrow> name_loop dns datalen sz loop s = Some (word_of_nat loop, s)"
  by (subst name_loop.simps) simp

lemma name_loop_jump:
  assumes "dLen s AND 0xC0 \<noteq> 0" "p = push_bit 8 (ucast (dLen s AND 0x3F)) OR ucast (dns (unat (dPtr s) + 1))"
  shows "name_loop dns datalen sz (Suc k) s = name_loop dns datalen sz k
    (s\<lparr>dPtr := p, dLen := dns (unat p), dJumped := True, dOff := (if dJumped s then dOff s else dOff s + 2)\<rparr>)"
proof -
  have "dLen s \<noteq> 0" using assms(1) by auto
  then show ?thesis using assms by (subst name_loop.simps) (simp add: Let_def)
qed

lemma name_loop_label:
  assumes "dLen s AND 0xC0 = 0" "dLen s \<noteq> 0" "unat (dPtr s) + 1 + unat (dLen s) < datalen"
    "put_label dns sz s = Some out" "p = dPtr s + ucast (dLen s) + 1"
  shows "name_loop dns datalen sz (Suc k) s = name_loop dns datalen sz k
    (s\<lparr>dOut := out, dRlen := dRlen s + dLen s + 1, dPtr := p, dLen := dns (unat p),
       dOff := (if dJumped s then dOff s else p + 1)\<rparr>)"
  using assms by (subst name_loop.simps) (simp add: Let_def)

text \<open>What reading the labels \<open>ls\<close> does to the variables.\<close>

definition labels_read :: "packet \<Rightarrow> bytes list \<Rightarrow> name_state \<Rightarrow> name_state \<Rightarrow> bool" where
  "labels_read dns ls s s' \<longleftrightarrow>
     dJumped s' = dJumped s \<and> unat (dPtr s') = unat (dPtr s) + length (wire_labels ls) \<and> dLen s' = dns (unat (dPtr s'))
     \<and> unat (dRlen s') = unat (dRlen s) + length (dotted ls) \<and> length (dOut s') = length (dOut s)
     \<and> take (unat (dRlen s')) (dOut s') = take (unat (dRlen s)) (dOut s) @ dotted ls
     \<and> drop (unat (dRlen s')) (dOut s') = drop (unat (dRlen s')) (dOut s)
     \<and> dOff s' = (if dJumped s \<or> ls = [] then dOff s else dPtr s' + 1)"

lemma labels_read_trans:
  assumes "labels_read dns xs s s1" "labels_read dns ys s1 s2"
  shows "labels_read dns (xs @ ys) s s2"
proof -
  have len: "wire_labels (xs @ ys) = wire_labels xs @ wire_labels ys" "dotted (xs @ ys) = dotted xs @ dotted ys"
    by (simp_all add: wire_labels_def dotted_def)
  have "drop (unat (dRlen s2)) (dOut s1) = drop (unat (dRlen s2)) (dOut s)"
  proof -
    have "unat (dRlen s2) = length (dotted ys) + unat (dRlen s1)" using assms(2) by (simp add: labels_read_def)
    moreover have "drop (unat (dRlen s1)) (dOut s1) = drop (unat (dRlen s1)) (dOut s)" using assms(1) unfolding labels_read_def by blast
    ultimately show ?thesis by (metis drop_drop)
  qed
  moreover have "dOff s2 = (if dJumped s \<or> xs @ ys = [] then dOff s else dPtr s2 + 1)"
  proof (cases "ys = []")
    case True
    then have "unat (dPtr s2) = unat (dPtr s1)" using assms(2) by (simp add: labels_read_def wire_labels_def)
    then have "dPtr s2 = dPtr s1" by (simp add: word_unat_eq_iff)
    with True show ?thesis using assms by (simp add: labels_read_def)
  qed (use assms in \<open>simp add: labels_read_def\<close>)
  ultimately show ?thesis using assms unfolding labels_read_def len by (elim conjE) (intro conjI; simp)
qed

text \<open>One label: it is no pointer, it fits, and the loop goes on behind it.\<close>

lemma label_no_pointer:
  assumes "label_ok l"
  shows "(word_of_nat (length l) :: byte) AND 0xC0 = 0" "unat (word_of_nat (length l) :: byte) = length l"
proof -
  have "\<forall>n \<in> set [0..<64]. (word_of_nat n :: byte) AND 0xC0 = 0" by (simp add: upt_rec)
  moreover have "length l \<in> set [0..<64]" using assms by (simp add: label_ok_def)
  ultimately show "(word_of_nat (length l) :: byte) AND 0xC0 = 0" by blast
  show "unat (word_of_nat (length l) :: byte) = length l" using assms by (simp add: label_ok_def unat_of_nat take_bit_eq_mod)
qed

lemma put_label_fits:
  assumes "laid_out dns (unat (dPtr s) + 1) l" "l \<noteq> []" "unat (dLen s) = length l" "unat (dRlen s) + length l + 1 < sz"
    "length (dOut s) = sz"
  shows "put_label dns sz s = Some (blit (dOut s) (unat (dRlen s)) (l @ [46]))"
proof -
  have "map (\<lambda>i. dns (unat (dPtr s) + 1 + i)) [0..<length l] = l" using laid_out_read [OF assms(1)] by simp
  moreover have "\<not> unat (dRlen s) + length l \<ge> sz" "unat (dRlen s) + nat (int (length l)) < length (dOut s)" "int (length l) > 0"
    using assms(2,4,5) by simp_all
  ultimately show ?thesis
    unfolding put_label_def Let_def assms(3) by (simp only: if_True if_False nat_int)
qed

lemma name_loop_one:
  assumes l: "label_ok l" and lay: "laid_out dns (unat (dPtr s)) (wire_labels [l])" "dLen s = dns (unat (dPtr s))"
    and fits: "unat (dPtr s) + length (wire_labels [l]) < datalen" "unat (dPtr s) + length (wire_labels [l]) < 65535"
    and room: "length (dOut s) = 255" "unat (dRlen s) + length (dotted [l]) \<le> 254"
  shows "\<exists>s1. name_loop dns datalen 255 (Suc k) s = name_loop dns datalen 255 k s1 \<and> labels_read dns [l] s s1"
proof -
  let ?n = "length l" and ?r = "unat (dRlen s)"
  have wire: "wire_labels [l] = word_of_nat ?n # l" and dots: "dotted [l] = l @ [46]" by (simp_all add: wire_labels_def dotted_def)
  have len: "dLen s = word_of_nat ?n" "dLen s AND 0xC0 = 0" "unat (dLen s) = ?n" "l \<noteq> []"
    using lay label_no_pointer [OF l] l by (auto simp: wire label_ok_def)
  define out where "out = blit (dOut s) ?r (l @ [46])"
  have put: "put_label dns 255 s = Some out"
    unfolding out_def using lay(1) room len(3,4) by (intro put_label_fits) (simp_all add: wire dots)
  define q where "q = dPtr s + ucast (dLen s) + 1"
  have q: "unat q = unat (dPtr s) + 1 + ?n"
    using fits(2) len(3) by (simp add: q_def wire unat_word_ariths unsigned_ucast_eq take_bit_eq_mod)
  have r: "unat (dRlen s + dLen s + 1) = ?r + ?n + 1"
    using room(2) len(3) by (simp add: dots unat_word_ariths)
  define s1 where "s1 = s\<lparr>dOut := out, dRlen := dRlen s + dLen s + 1, dPtr := q, dLen := dns (unat q),
    dOff := (if dJumped s then dOff s else q + 1)\<rparr>"
  have "dLen s \<noteq> 0" using len(3,4) by auto
  moreover have "unat (dPtr s) + 1 + unat (dLen s) < datalen" using fits(1) len(3) by (simp add: wire)
  ultimately have "name_loop dns datalen 255 (Suc k) s = name_loop dns datalen 255 k s1"
    unfolding s1_def using name_loop_label [OF len(2) _ _ put q_def] by simp
  moreover have "take (?r + ?n + 1) out = take ?r (dOut s) @ l @ [46]" "length out = 255"
      "drop (?r + ?n + 1) out = drop (?r + ?n + 1) (dOut s)"
    using room take_blit [of ?r "dOut s" "l @ [46]"] by (simp_all add: out_def dots blit_def)
  then have "labels_read dns [l] s s1" using q r room(1) by (simp add: labels_read_def s1_def wire dots)
  ultimately show ?thesis by blast
qed

lemma name_loop_prefix:
  assumes "\<forall>l \<in> set ls. label_ok l" "laid_out dns (unat (dPtr s)) (wire_labels ls)" "dLen s = dns (unat (dPtr s))"
    "unat (dPtr s) + length (wire_labels ls) < datalen" "unat (dPtr s) + length (wire_labels ls) < 65535"
    "length (dOut s) = 255" "unat (dRlen s) + length (dotted ls) \<le> 254" "length ls \<le> loop"
  shows "\<exists>s'. name_loop dns datalen 255 loop s = name_loop dns datalen 255 (loop - length ls) s' \<and> labels_read dns ls s s'"
  using assms
proof (induction ls arbitrary: s loop)
  case Nil
  then show ?case by (intro exI [of _ s]) (simp add: labels_read_def wire_labels_def dotted_def)
next
  case (Cons l ls)
  have split: "wire_labels (l # ls) = wire_labels [l] @ wire_labels ls" "dotted (l # ls) = dotted [l] @ dotted ls"
    by (simp_all add: wire_labels_def dotted_def)
  obtain k where loop: "loop = Suc k" using Cons.prems(8) by (cases loop) auto
  obtain s1 where s1: "name_loop dns datalen 255 loop s = name_loop dns datalen 255 k s1" "labels_read dns [l] s s1"
    using name_loop_one [of l dns s datalen k] Cons.prems unfolding loop split by (auto simp: laid_out_append)
  have "\<exists>s'. name_loop dns datalen 255 k s1 = name_loop dns datalen 255 (k - length ls) s' \<and> labels_read dns ls s1 s'"
    using Cons.prems s1(2) unfolding split by (intro Cons.IH) (auto simp: labels_read_def laid_out_append loop)
  then obtain s' where "name_loop dns datalen 255 k s1 = name_loop dns datalen 255 (k - length ls) s'" "labels_read dns ls s1 s'"
    by blast
  then show ?case using s1 labels_read_trans [OF s1(2), of ls s'] loop by auto
qed

lemma dotted_Cons_pos: "ls \<noteq> [] \<Longrightarrow> 0 < length (dotted ls)"
  by (cases ls) (simp_all add: dotted_def)

lemma u16_eqI:
  assumes "unat (x :: u16) = unat y + n"
  shows "x = y + word_of_nat n"
proof -
  have "word_of_nat (unat x) = (word_of_nat (unat y + n) :: u16)" using assms by simp
  then show ?thesis by simp
qed

lemma getNameNotation_labels:
  assumes "ls \<noteq> []" "length ls \<le> 10" "\<forall>l \<in> set ls. label_ok l" "length (dotted ls) \<le> 254"
    "laid_out dns (unat off) (wire_name ls)" "unat off + length (wire_name ls) \<le> datalen"
    "unat off + length (wire_name ls) \<le> 65535" "length out = 255"
  shows "\<exists>s'. name_loop dns datalen 255 10 (name_start dns off out) = Some (word_of_nat (10 - length ls), s')
    \<and> dLen s' = 0 \<and> \<not> dJumped s' \<and> dPtr s' + 1 = off + word_of_nat (length (wire_name ls))
    \<and> unat (dRlen s') = length (dotted ls) \<and> length (dOut s') = 255
    \<and> dOut s' = dotted ls @ drop (length (dotted ls)) out \<and> dOff s' = dPtr s' + 1"
proof -
  note pos = dotted_Cons_pos [OF assms(1)]
  let ?s = "name_start dns off out" and ?n = "length (wire_labels ls)"
  have lay: "laid_out dns (unat off) (wire_labels ls)" "dns (unat off + ?n) = 0"
    using assms(5) by (simp_all add: wire_name_def laid_out_append)
  have start: "dPtr ?s = off" "dLen ?s = dns (unat off)" "dRlen ?s = 0" "dOut ?s = out[0 := 0]" "\<not> dJumped ?s"
    by (simp_all add: name_start_def)
  obtain s' where s': "name_loop dns datalen 255 10 ?s = name_loop dns datalen 255 (10 - length ls) s'"
    "\<not> dJumped s'" "unat (dPtr s') = unat off + ?n" "dLen s' = dns (unat (dPtr s'))"
    "unat (dRlen s') = length (dotted ls)" "length (dOut s') = 255"
    "take (unat (dRlen s')) (dOut s') = dotted ls" "drop (unat (dRlen s')) (dOut s') = drop (unat (dRlen s')) (out[0 := 0])"
    "dOff s' = dPtr s' + 1"
    using name_loop_prefix [of ls dns ?s datalen 10] lay(1) assms by (auto simp: start wire_name_def labels_read_def)
  have len: "dLen s' = 0" using s'(3,4) lay(2) by simp
  have "dPtr s' + 1 = off + word_of_nat (length (wire_name ls))"
    using u16_eqI [OF s'(3)] by (simp add: wire_name_def add.commute add.left_commute)
  moreover have "dOut s' = dotted ls @ drop (length (dotted ls)) out"
  proof -
    have "dOut s' = take (length (dotted ls)) (dOut s') @ drop (length (dotted ls)) (dOut s')" by simp
    also have "\<dots> = dotted ls @ drop (length (dotted ls)) out" using s'(5,7,8) pos by simp
    finally show ?thesis .
  qed
  ultimately show ?thesis using s' len name_loop_end [OF len] by auto
qed

lemma no_zero_dotted: "\<forall>l \<in> set ls. 0 \<notin> set l \<Longrightarrow> 0 \<notin> set (dotted ls)"
  by (auto simp: dotted_def)

text \<open>What \<^verbatim>\<open>getNameNotation\<close> makes of the end of the loop: the last dot becomes the terminator.\<close>

lemma getNameNotation_finish:
  assumes "name_loop dns datalen 255 10 (name_start dns off out) = Some (word_of_nat j, s')" "1 \<le> j" "j \<le> 10" "dLen s' = 0"
    and "ls \<noteq> []" "\<forall>l \<in> set ls. 0 \<notin> set l" "unat (dRlen s') = length (dotted ls)" "length (dotted ls) \<le> 254"
    and "length (dOut s') = 255" "take (length (dotted ls)) (dOut s') = dotted ls" "length out = 255"
  shows "\<exists>out'. getNameNotation dns datalen off out 255 = Some (if dJumped s' then dOff s' else dPtr s' + 1, out')
    \<and> c_string out' = butlast (dotted ls)"
proof -
  let ?n = "length (dotted ls)"
  obtain xs x where xs: "dotted ls = xs @ [x]" using dotted_Cons_pos [OF assms(5)] by (metis length_greater_0_conv rev_exhaust)
  have "\<forall>n \<in> set [1..<11]. (word_of_nat n :: byte) \<noteq> 0" by (simp add: upt_rec)
  moreover have "j \<in> set [1..<11]" using assms(2,3) by auto
  ultimately have loop: "(word_of_nat j :: byte) \<noteq> 0" by blast
  have "dRlen s' \<noteq> 0" using assms(7) xs by auto
  then have res: "getNameNotation dns datalen off out 255
      = Some (if dJumped s' then dOff s' else dPtr s' + 1, (dOut s')[?n - 1 := 0])"
    using assms(1,4,7-9,11) loop by (auto simp: getNameNotation_def)
  have "dOut s' = take ?n (dOut s') @ drop ?n (dOut s')" by simp
  also have "\<dots> = xs @ x # drop ?n (dOut s')" unfolding assms(10) by (simp add: xs)
  finally have "dOut s' = xs @ x # drop ?n (dOut s')" .
  then have "(dOut s')[?n - 1 := 0] = xs @ 0 # drop ?n (dOut s')" using xs by (metis butlast_snoc length_butlast list_update_length)
  moreover have "0 \<notin> set xs" using no_zero_dotted [OF assms(6)] xs by auto
  ultimately show ?thesis using res xs by (simp add: c_string_def takeWhile_append)
qed

text \<open>
  Claim C37. DNS names read back. An uncompressed name of at most nine labels that fits into the message and the buffer is read back with
  dots between its labels, and the offset is moved behind it.
\<close>

theorem dns_name_roundtrip:
  assumes "ls \<noteq> []" "length ls \<le> 9" "\<forall>l \<in> set ls. label_ok l \<and> 0 \<notin> set l" "length (dotted ls) \<le> 254"
    "laid_out dns (unat off) (wire_name ls)" "unat off + length (wire_name ls) \<le> datalen"
    "unat off + length (wire_name ls) \<le> 65535" "length out = 255"
  shows "\<exists>out'. getNameNotation dns datalen off out 255 = Some (off + word_of_nat (length (wire_name ls)), out')
    \<and> c_string out' = butlast (dotted ls)"
proof -
  obtain s' where s': "name_loop dns datalen 255 10 (name_start dns off out) = Some (word_of_nat (10 - length ls), s')"
    "dLen s' = 0" "\<not> dJumped s'" "dPtr s' + 1 = off + word_of_nat (length (wire_name ls))"
    "unat (dRlen s') = length (dotted ls)" "length (dOut s') = 255" "dOut s' = dotted ls @ drop (length (dotted ls)) out"
    using getNameNotation_labels [of ls dns off datalen out] assms by auto
  have "take (length (dotted ls)) (dOut s') = dotted ls" by (simp add: s'(7))
  then show ?thesis
    using getNameNotation_finish [OF s'(1) _ _ s'(2) assms(1) _ s'(5) assms(4) s'(6) _ assms(8)] s'(3,4) assms(2,3) by simp
qed

definition sample_query :: packet where
  "sample_query = mem_of (replicate 12 0 @ [1, 0x61, 2, 0x62, 0x63, 0, 0, 1, 0, 1])"

lemma dns_name_roundtrip_witness:
  "\<exists>out'. getNameNotation sample_query 22 12 (replicate 255 7) 255
        = Some (12 + word_of_nat (length (wire_name [[0x61], [0x62, 0x63]])), out')
    \<and> c_string out' = butlast (dotted [[0x61], [0x62, 0x63]])"
proof -
  have "laid_out sample_query 12 (wire_name [[0x61], [0x62, 0x63]])"
    using laid_out_mem_of [of "replicate 12 0" "[1, 0x61, 2, 0x62, 0x63, 0]" "[0, 1, 0, 1]"]
    by (simp add: sample_query_def wire_name_def wire_labels_def)
  then show ?thesis
    by (intro dns_name_roundtrip) (simp_all add: label_ok_def dotted_def wire_name_def wire_labels_def)
qed

text \<open>
  A name of exactly ten labels is reported as a loop. The offset has been moved behind the name all the same,
  which the caller takes for success, and the name is left without its terminator: what the buffer held before follows it.
\<close>

theorem dns_ten_labels:
  assumes "length ls = 10" "\<forall>l \<in> set ls. label_ok l" "length (dotted ls) \<le> 254"
    "laid_out dns (unat off) (wire_name ls)" "unat off + length (wire_name ls) \<le> datalen"
    "unat off + length (wire_name ls) \<le> 65535" "length out = 255"
  shows "getNameNotation dns datalen off out 255
      = Some (off + word_of_nat (length (wire_name ls)), dotted ls @ drop (length (dotted ls)) out)"
proof -
  have "ls \<noteq> []" using assms(1) by auto
  then obtain s' where "name_loop dns datalen 255 10 (name_start dns off out) = Some (word_of_nat (10 - length ls), s')"
    "dPtr s' + 1 = off + word_of_nat (length (wire_name ls))" "dOff s' = dPtr s' + 1"
    "dOut s' = dotted ls @ drop (length (dotted ls)) out"
    using getNameNotation_labels [of ls dns off datalen out] assms by auto
  then show ?thesis using assms(1,7) by (auto simp: getNameNotation_def)
qed

lemma dns_ten_labels_witness:
  "getNameNotation (mem_of (concat (replicate 10 [1, 0x61]) @ [0])) 21 0 (replicate 255 7) 255
      = Some (0 + word_of_nat (length (wire_name (replicate 10 [0x61]))),
          dotted (replicate 10 [0x61]) @ drop (length (dotted (replicate 10 [0x61]))) (replicate 255 7))"
proof (rule dns_ten_labels)
  show "laid_out (mem_of (concat (replicate 10 [1, 0x61]) @ [0])) (unat (0 :: u16)) (wire_name (replicate 10 [0x61]))"
    using laid_out_self [of "concat (replicate 10 [1, 0x61]) @ [0]"] by (simp add: wire_name_def wire_labels_def)
qed (simp_all add: label_ok_def dotted_def wire_name_def wire_labels_def length_concat sum_list_replicate)

lemma dns_parser_safe_witness: "\<exists>r. dns_message sample_query 22 (replicate 255 7) = Some r"
  by (rule dns_parser_safe) simp

section \<open>Names with a compression pointer\<close>

definition pointer_target :: "byte \<Rightarrow> byte \<Rightarrow> u16" where
  "pointer_target b1 b2 = push_bit 8 (ucast (b1 AND 0x3F)) OR ucast b2"

lemma dotted_append: "dotted (xs @ ys) = dotted xs @ dotted ys"
  by (simp add: dotted_def)

text \<open>The loop over the labels, the pointer and the labels at its target.\<close>

lemma name_loop_pointer:
  assumes "xs \<noteq> []" "length xs + length ys \<le> 8" "\<forall>l \<in> set (xs @ ys). label_ok l" "length (dotted (xs @ ys)) \<le> 254"
    "laid_out dns (unat off) (wire_labels xs @ [b1, b2])" "b1 AND 0xC0 \<noteq> 0"
    "unat off + length (wire_labels xs) + 2 \<le> datalen" "unat off + length (wire_labels xs) + 2 \<le> 65535"
    "laid_out dns (unat (pointer_target b1 b2)) (wire_name ys)"
    "unat (pointer_target b1 b2) + length (wire_name ys) \<le> datalen"
    "unat (pointer_target b1 b2) + length (wire_name ys) \<le> 65535" "length out = 255"
  shows "\<exists>s'. name_loop dns datalen 255 10 (name_start dns off out) = Some (word_of_nat (9 - length xs - length ys), s')
    \<and> dLen s' = 0 \<and> dJumped s' \<and> dOff s' = off + word_of_nat (length (wire_labels xs @ [b1, b2])) + 1
    \<and> unat (dRlen s') = length (dotted (xs @ ys)) \<and> length (dOut s') = 255
    \<and> take (length (dotted (xs @ ys))) (dOut s') = dotted (xs @ ys)"
proof -
  let ?s = "name_start dns off out" and ?n = "length (wire_labels xs)" and ?q = "pointer_target b1 b2"
  have start: "dPtr ?s = off" "dLen ?s = dns (unat off)" "dRlen ?s = 0" "dOut ?s = out[0 := 0]" "\<not> dJumped ?s"
    by (simp_all add: name_start_def)
  have lay: "laid_out dns (unat off) (wire_labels xs)" "dns (unat off + ?n) = b1" "dns (unat off + ?n + 1) = b2"
    using assms(5) by (simp_all add: laid_out_append)
  obtain s1 where s1: "name_loop dns datalen 255 10 ?s = name_loop dns datalen 255 (10 - length xs) s1" "labels_read dns xs ?s s1"
    using name_loop_prefix [of xs dns ?s datalen 10] assms(2-4,7,8,12) lay(1) by (auto simp: start dotted_append)
  have at: "dLen s1 = b1" "\<not> dJumped s1" "unat (dPtr s1) = unat off + ?n" "dOff s1 = dPtr s1 + 1"
    using s1(2) lay(2) assms(1) by (simp_all add: labels_read_def start)
  obtain k where k: "10 - length xs = Suc k" "length ys < k" using assms(2) by (cases "10 - length xs") auto
  have kk: "k - length ys = 9 - length xs - length ys" using k(1) by linarith
  define s2 where "s2 = s1\<lparr>dPtr := ?q, dLen := dns (unat ?q), dJumped := True, dOff := dOff s1 + 2\<rparr>"
  have jump: "name_loop dns datalen 255 (Suc k) s1 = name_loop dns datalen 255 k s2"
    using name_loop_jump [of s1 ?q dns datalen 255 k] assms(6) at lay(3) by (simp add: s2_def pointer_target_def)
  have lay2: "laid_out dns (unat ?q) (wire_labels ys)" "dns (unat ?q + length (wire_labels ys)) = 0"
    using assms(9) by (simp_all add: wire_name_def laid_out_append)
  obtain s3 where s3: "name_loop dns datalen 255 k s2 = name_loop dns datalen 255 (k - length ys) s3" "labels_read dns ys s2 s3"
    using name_loop_prefix [of ys dns s2 datalen k] assms(3,4,10-12) lay2(1) k(2) s1(2)
    by (auto simp: s2_def wire_name_def labels_read_def start dotted_append)
  have "dLen s3 = 0" using s3(2) lay2(2) by (simp add: labels_read_def s2_def)
  then have "name_loop dns datalen 255 10 ?s = Some (word_of_nat (9 - length xs - length ys), s3) \<and> dLen s3 = 0"
    using s1(1) k(1) jump s3(1) name_loop_end [of s3] kk by simp
  moreover have "dJumped s3" "unat (dRlen s3) = length (dotted (xs @ ys))" "length (dOut s3) = 255"
      "take (unat (dRlen s3)) (dOut s3) = dotted (xs @ ys)" "dOff s3 = dOff s1 + 2"
    using s1(2) s3(2) assms(12) unfolding labels_read_def s2_def by (elim conjE; simp add: start dotted_append)+
  moreover have "dOff s1 + 2 = off + word_of_nat (length (wire_labels xs @ [b1, b2])) + 1"
    using u16_eqI [OF at(3)] by (simp add: at(4))
  ultimately show ?thesis by auto
qed

text \<open>
  A pointer behind a label moves the offset too far. A name that begins with labels and goes on at a compression
  pointer is read correctly, but the offset returned is one byte behind the pointer's second byte: after a label it
  already stands behind the byte that is read next, and the pointer adds both of its bytes to it.
\<close>

theorem dns_pointer_offset:
  assumes "xs \<noteq> []" "ys \<noteq> []" "length xs + length ys \<le> 8" "\<forall>l \<in> set (xs @ ys). label_ok l \<and> 0 \<notin> set l"
    "length (dotted (xs @ ys)) \<le> 254"
    "laid_out dns (unat off) (wire_labels xs @ [b1, b2])" "b1 AND 0xC0 \<noteq> 0"
    "unat off + length (wire_labels xs) + 2 \<le> datalen" "unat off + length (wire_labels xs) + 2 \<le> 65535"
    "laid_out dns (unat (pointer_target b1 b2)) (wire_name ys)"
    "unat (pointer_target b1 b2) + length (wire_name ys) \<le> datalen"
    "unat (pointer_target b1 b2) + length (wire_name ys) \<le> 65535" "length out = 255"
  shows "\<exists>out'. getNameNotation dns datalen off out 255 = Some (off + word_of_nat (length (wire_labels xs @ [b1, b2])) + 1, out')
    \<and> c_string out' = butlast (dotted (xs @ ys))"
proof -
  obtain s' where s': "name_loop dns datalen 255 10 (name_start dns off out) = Some (word_of_nat (9 - length xs - length ys), s')"
    "dLen s' = 0" "dJumped s'" "dOff s' = off + word_of_nat (length (wire_labels xs @ [b1, b2])) + 1"
    "unat (dRlen s') = length (dotted (xs @ ys))" "length (dOut s') = 255"
    "take (length (dotted (xs @ ys))) (dOut s') = dotted (xs @ ys)"
    using name_loop_pointer [of xs ys dns off b1 b2 datalen out] assms by auto
  show ?thesis
    using getNameNotation_finish [OF s'(1) _ _ s'(2) _ _ s'(5) assms(5) s'(6,7) assms(13)] s'(3,4) assms(1,3,4) by simp
qed

definition sample_pointer :: packet where
  "sample_pointer = mem_of [1, 0x61, 0, 1, 0x62, 0xC0, 0, 9]"

lemma dns_pointer_offset_witness:
  "\<exists>out'. getNameNotation sample_pointer 8 3 (replicate 255 7) 255
      = Some (3 + word_of_nat (length (wire_labels [[0x62]] @ [0xC0, 0])) + 1, out')
    \<and> c_string out' = butlast (dotted ([[0x62]] @ [[0x61]]))"
proof (rule dns_pointer_offset)
  show "laid_out sample_pointer (unat (3 :: u16)) (wire_labels [[0x62]] @ [0xC0, 0])"
    by (simp add: sample_pointer_def wire_labels_def mem_of_def)
  show "laid_out sample_pointer (unat (pointer_target 0xC0 0)) (wire_name [[0x61]])"
    by (simp add: sample_pointer_def wire_labels_def wire_name_def pointer_target_def mem_of_def)
qed (simp_all add: label_ok_def dotted_def wire_name_def wire_labels_def pointer_target_def)

end
