(* ===== verification/Address.thy ===== *)
theory Address
  imports IPAdpt "HOL-Library.Char_ord"
begin

text \<open>
  Numbers and addresses as text: the decimal notation of C++ streams, \<^verbatim>\<open>IPInt2Str\<close>, \<^verbatim>\<open>IPStr2Int\<close> and \<^verbatim>\<open>sockAddr2Str\<close> of
  \<^verbatim>\<open>core/IPAdpt.cpp\<close>, and what they use of \<^verbatim>\<open>inet_ntop\<close> and \<^verbatim>\<open>inet_addr\<close>. An address is the word that lies in memory in network
  order, so its lowest byte is the first of the four.
\<close>

section \<open>Decimal numbers\<close>

definition is_digit :: "char \<Rightarrow> bool" where
  "is_digit c \<longleftrightarrow> CHR ''0'' \<le> c \<and> c \<le> CHR ''9''"

fun digits_value :: "int \<Rightarrow> string \<Rightarrow> int" where
  "digits_value acc [] = acc"
| "digits_value acc (c # cs) = (if is_digit c then digits_value (acc * 10 + (of_char c - 48)) cs else acc)"

definition digit :: "nat \<Rightarrow> char" where
  "digit n = ''0123456789'' ! n"

fun decimal :: "nat \<Rightarrow> string" where
  "decimal n = (if n < 10 then [digit n] else decimal (n div 10) @ [digit (n mod 10)])"

declare decimal.simps [simp del]

lemma digit_char:
  assumes "n < 10"
  shows "is_digit (digit n)" "of_char (digit n) = (48 + int n :: int)" "digit n \<noteq> CHR ''-''" "digit n \<noteq> CHR ''+''" "digit n \<noteq> CHR ''.''"
proof -
  have "n \<in> set [0..<10]" using assms by simp
  moreover have "\<forall>n \<in> set [0..<10]. is_digit (digit n) \<and> of_char (digit n) = (48 + int n :: int)
      \<and> digit n \<noteq> CHR ''-'' \<and> digit n \<noteq> CHR ''+'' \<and> digit n \<noteq> CHR ''.''"
    by (simp add: upt_rec is_digit_def less_eq_char_def digit_def)
  ultimately show "is_digit (digit n)" "of_char (digit n) = (48 + int n :: int)" "digit n \<noteq> CHR ''-''" "digit n \<noteq> CHR ''+''"
    "digit n \<noteq> CHR ''.''" by blast+
qed

lemma digits_value_append:
  "list_all is_digit xs \<Longrightarrow> digits_value acc (xs @ ys) = digits_value (digits_value acc xs) ys"
  by (induction xs arbitrary: acc) auto

lemma decimal_value: "list_all is_digit (decimal n) \<and> digits_value 0 (decimal n) = int n"
proof (induction n rule: less_induct)
  case (less n)
  show ?case
  proof (cases "n < 10")
    case True
    then show ?thesis by (subst (1 2) decimal.simps) (simp add: digit_char)
  next
    case False
    then have "list_all is_digit (decimal (n div 10))" "digits_value 0 (decimal (n div 10)) = int (n div 10)"
      using less [of "n div 10"] by simp_all
    moreover have "n mod 10 < 10" "int (n div 10) * 10 + int (n mod 10) = int n" by simp_all presburger
    ultimately show ?thesis
      using False by (subst (1 2) decimal.simps) (simp add: digits_value_append digit_char)
  qed
qed

lemma decimal_first:
  "\<exists>d ds. decimal n = digit d # ds \<and> d < (10 :: nat)"
proof (induction n rule: less_induct)
  case (less n)
  show ?case
  proof (cases "n < 10")
    case True
    then show ?thesis by (subst decimal.simps) auto
  next
    case False
    then obtain d ds where "decimal (n div 10) = digit d # ds" "d < 10" using less [of "n div 10"] by auto
    then show ?thesis using False by (subst decimal.simps) auto
  qed
qed

lemma decimal_no_dot: "CHR ''.'' \<notin> set (decimal n)"
proof -
  have "\<not> is_digit (CHR ''.'')" by (simp add: is_digit_def less_eq_char_def)
  then show ?thesis using decimal_value [of n] by (auto simp: list_all_iff)
qed

lemma decimal_length: "n < 10 ^ Suc k \<Longrightarrow> length (decimal n) \<le> Suc k"
proof (induction k arbitrary: n)
  case 0
  then show ?case by (subst decimal.simps) simp
next
  case (Suc k)
  have "n div 10 < 10 ^ Suc k" using Suc.prems by (simp add: less_mult_imp_div_less)
  from Suc.IH [OF this] show ?case by (subst decimal.simps) simp
qed

section \<open>Addresses\<close>

text \<open>The four bytes, in the order they have in memory, and their notation with dots.\<close>

definition addr_bytes :: "u32 \<Rightarrow> nat list" where
  "addr_bytes a = map (\<lambda>k. unat (drop_bit (8 * k) a AND 0xFF)) [0, 1, 2, 3]"

fun join_dots :: "string list \<Rightarrow> string" where
  "join_dots [] = []"
| "join_dots [p] = p"
| "join_dots (p # ps) = p @ ''.'' @ join_dots ps"

definition dotted_quad :: "u32 \<Rightarrow> string" where
  "dotted_quad a = join_dots (map decimal (addr_bytes a))"

text \<open>\<^verbatim>\<open>inet_ntop\<close> returns NULL when the text and its final zero do not fit.\<close>

definition IPInt2Str :: "u32 \<Rightarrow> nat \<Rightarrow> string option" where
  "IPInt2Str addr len = (if length (dotted_quad addr) < len then Some (dotted_quad addr) else None)"

text \<open>
  \<^verbatim>\<open>inet_addr\<close> takes one to four numbers in the notation of C, separated by dots; the last one fills the bytes that are left. Anything
  else is \<^verbatim>\<open>INADDR_NONE\<close>.
\<close>

definition digit_in :: "nat \<Rightarrow> char \<Rightarrow> nat option" where
  "digit_in base c =
     (let n = of_char c;
          v = (if 48 \<le> n \<and> n \<le> 57 then n - 48 else if 97 \<le> n \<and> n \<le> 102 then n - 87 else if 65 \<le> n \<and> n \<le> 70 then n - 55 else base)
      in if v < base then Some v else None)"

fun number_in :: "nat \<Rightarrow> nat \<Rightarrow> string \<Rightarrow> nat option" where
  "number_in base acc [] = Some acc"
| "number_in base acc (c # cs) =
     (case digit_in base c of None \<Rightarrow> None | Some d \<Rightarrow> number_in base (acc * base + d) cs)"

definition c_number :: "string \<Rightarrow> nat option" where
  "c_number s =
     (case s of
        [] \<Rightarrow> None
      | c # r \<Rightarrow>
          if c \<noteq> CHR ''0'' then number_in 10 0 s
          else (case r of
                  [] \<Rightarrow> Some 0
                | x # h \<Rightarrow> if x = CHR ''x'' \<or> x = CHR ''X'' then (if h = [] then None else number_in 16 0 h)
                           else number_in 8 0 r))"

fun split_dots :: "string \<Rightarrow> string list" where
  "split_dots [] = [[]]"
| "split_dots (c # cs) =
     (if c = CHR ''.'' then [] # split_dots cs
      else (case split_dots cs of p # ps \<Rightarrow> (c # p) # ps | [] \<Rightarrow> [[c]]))"

definition inet_value :: "nat list \<Rightarrow> nat option" where
  "inet_value ps =
     (case ps of
        [a] \<Rightarrow> if a < 2 ^ 32 then Some a else None
      | [a, b] \<Rightarrow> if a < 256 \<and> b < 2 ^ 24 then Some (a * 2 ^ 24 + b) else None
      | [a, b, c] \<Rightarrow> if a < 256 \<and> b < 256 \<and> c < 2 ^ 16 then Some (a * 2 ^ 24 + b * 2 ^ 16 + c) else None
      | [a, b, c, d] \<Rightarrow> if a < 256 \<and> b < 256 \<and> c < 256 \<and> d < 256 then Some (a * 2 ^ 24 + b * 2 ^ 16 + c * 2 ^ 8 + d) else None
      | _ \<Rightarrow> None)"

definition INADDR_NONE :: u32 where "INADDR_NONE = 0xFFFFFFFF"

definition IPStr2Int :: "string \<Rightarrow> u32" where
  "IPStr2Int ipv4 =
     (let ns = map c_number (split_dots ipv4)
      in if None \<in> set ns then INADDR_NONE
         else (case inet_value (map the ns) of None \<Rightarrow> INADDR_NONE | Some v \<Rightarrow> swap32 (word_of_nat v)))"

text \<open>
  \<^verbatim>\<open>sockAddr2Str\<close> for a port and an address of version 4; \<open>out0\<close> is the string in the buffer before. A text that does not fit is cut off,
  another version gives the empty text, and writing a NULL string to the stream has no defined outcome.
\<close>

definition sockAddr2Str :: "byte \<Rightarrow> u16 \<Rightarrow> u32 \<Rightarrow> string \<Rightarrow> nat \<Rightarrow> string option" where
  "sockAddr2Str ipVer port addr out0 len =
     (if len = 0 then Some out0
      else if ipVer = 4
      then map_option (\<lambda>t. take (len - 1) (t @ ''/'' @ decimal (unat (swap16 port)))) (IPInt2Str addr len)
      else Some [])"

section \<open>An address read back\<close>

lemma byte_number:
  assumes "n < 256"
  shows "c_number (decimal n) = Some n"
proof -
  have "n \<in> set [0..<256]" using assms by simp
  moreover have "\<forall>n \<in> set [0..<256]. c_number (decimal n) = Some n" by code_simp
  ultimately show ?thesis by blast
qed

lemma split_dots_no_dot: "CHR ''.'' \<notin> set p \<Longrightarrow> split_dots p = [p]"
  by (induction p) auto

lemma split_dots_append: "CHR ''.'' \<notin> set p \<Longrightarrow> split_dots (p @ CHR ''.'' # r) = p # split_dots r"
  by (induction p) auto

lemma split_join:
  "ps \<noteq> [] \<Longrightarrow> \<forall>p \<in> set ps. CHR ''.'' \<notin> set p \<Longrightarrow> split_dots (join_dots ps) = ps"
  by (induction ps rule: join_dots.induct) (auto simp: split_dots_no_dot split_dots_append)

lemma addr_bytes_less: "n \<in> set (addr_bytes a) \<Longrightarrow> n < 256"
proof -
  have "unat (x AND 0xFF) < 256" for x :: u32
  proof -
    have "x AND 0xFF = take_bit 8 x" by (simp add: take_bit_eq_mask mask_eq_exp_minus_1)
    then show ?thesis by (simp add: take_bit_eq_mod unat_mod)
  qed
  then show "n \<in> set (addr_bytes a) \<Longrightarrow> n < 256" by (auto simp: addr_bytes_def)
qed


lemma swap32_bytes:
  assumes "addr_bytes a = [w, x, y, z]"
  shows "word_of_nat (w * 2 ^ 24 + x * 2 ^ 16 + y * 2 ^ 8 + z) = swap32 a"
proof -
  let ?b = "\<lambda>k. drop_bit k a AND mask 8"
  have b: "w = unat (?b 0)" "x = unat (?b 8)" "y = unat (?b 16)" "z = unat (?b 24)"
    using assms by (simp_all add: addr_bytes_def mask_eq_exp_minus_1)
  have "(word_of_nat (w * 2 ^ 24 + x * 2 ^ 16 + y * 2 ^ 8 + z) :: u32)
      = push_bit 24 (?b 0) + (push_bit 16 (?b 8) + (push_bit 8 (?b 16) + ?b 24))"
    by (simp add: b push_bit_eq_mult add.assoc)
  also have "\<dots> = push_bit 24 (?b 0) + (push_bit 16 (?b 8) + (push_bit 8 (?b 16) OR ?b 24))"
    by (subst disjunctive_add) (auto simp: bit_push_bit_iff bit_and_iff bit_mask_iff)
  also have "\<dots> = push_bit 24 (?b 0) + (push_bit 16 (?b 8) OR (push_bit 8 (?b 16) OR ?b 24))"
    by (subst disjunctive_add) (auto simp: bit_push_bit_iff bit_and_iff bit_or_iff bit_mask_iff)
  also have "\<dots> = push_bit 24 (?b 0) OR (push_bit 16 (?b 8) OR (push_bit 8 (?b 16) OR ?b 24))"
    by (subst disjunctive_add) (auto simp: bit_push_bit_iff bit_and_iff bit_or_iff bit_mask_iff)
  also have "\<dots> = swap32 a"
    by (rule word32_bytes)
      (simp add: bit_swap32 bit_push_bit_iff bit_and_iff bit_or_iff bit_mask_iff bit_drop_bit_eq add.commute)
  finally show ?thesis .
qed


lemma dotted_length: "length (dotted_quad a) \<le> 15"
proof -
  obtain w x y z where b: "addr_bytes a = [w, x, y, z]" by (simp add: addr_bytes_def)
  have "length (decimal n) \<le> 3" if "n \<in> {w, x, y, z}" for n
    using decimal_length [of n 2] addr_bytes_less [of n a] b that by auto
  from this [of w] this [of x] this [of y] this [of z] show ?thesis by (simp add: dotted_quad_def b)
qed

lemma IPInt2Str_fits: "16 \<le> len \<Longrightarrow> IPInt2Str a len = Some (dotted_quad a)"
  using dotted_length [of a] by (simp add: IPInt2Str_def)

lemma numbers_dotted: "map c_number (split_dots (dotted_quad a)) = map Some (addr_bytes a)"
proof -
  have "split_dots (dotted_quad a) = map decimal (addr_bytes a)"
    unfolding dotted_quad_def by (rule split_join) (auto simp: addr_bytes_def decimal_no_dot)
  then show ?thesis using byte_number [OF addr_bytes_less] by simp
qed

lemma IPStr2Int_dotted: "IPStr2Int (dotted_quad a) = a"
proof -
  obtain w x y z where b: "addr_bytes a = [w, x, y, z]" by (simp add: addr_bytes_def)
  have "w < 256" "x < 256" "y < 256" "z < 256" using addr_bytes_less [of _ a] b by simp_all
  then have "IPStr2Int (dotted_quad a) = swap32 (word_of_nat (w * 2 ^ 24 + x * 2 ^ 16 + y * 2 ^ 8 + z))"
    unfolding IPStr2Int_def numbers_dotted by (simp add: b inet_value_def Let_def)
  also have "\<dots> = a" unfolding swap32_bytes [OF b] by simp
  finally show ?thesis .
qed

end
