(* ===== verification/PacketText.thy ===== *)
theory PacketText
  imports Dns Utils Address
begin

text \<open>
  The text of a packet for the log: \<^verbatim>\<open>toString\<close> of \<^verbatim>\<open>core/IPAdpt.cpp\<close> and both functions \<^verbatim>\<open>toString\<close> of \<^verbatim>\<open>core/Dns.cpp\<close>, which print what
  the parser of \<open>Dns\<close> reads. \<^verbatim>\<open>UDPSession::accept\<close> makes this text in every build, the other callers only in debug builds.
  \<open>len\<close> is the size of the buffer, \<open>junk\<close> what the array for names holds before.
\<close>

section \<open>DNS messages\<close>

text \<open>Numbers and single bits in a stream.\<close>

definition num_text :: "'a::len word \<Rightarrow> string" where
  "num_text w = decimal (unat w)"

definition bit_text :: "bool \<Rightarrow> string" where
  "bit_text b = (if b then ''1'' else ''0'')"

text \<open>A name that fills its 255 bytes has no end, and the stream reads on behind the array.\<close>

definition name_text :: "bytes \<Rightarrow> string option" where
  "name_text n = (if length n < 255 then Some (map (\<lambda>b. char_of (unat b)) n) else None)"

text \<open>
  The record is copied to the buffer with \<^verbatim>\<open>strncpy\<close>, which leaves out the final zero of a text that does not fit, and then read from
  the buffer again.
\<close>

definition answer_text :: "nat \<Rightarrow> answer \<Rightarrow> string option" where
  "answer_text len a =
     do { name \<leftarrow> name_text (aName a);
          ip \<leftarrow> (case aIp a of None \<Rightarrow> Some [] | Some v \<Rightarrow> map_option (\<lambda>t. ''#ip='' @ t) (IPInt2Str v len));
          let t = ''name='' @ name @ ''#type='' @ num_text (aType a) @ ''#class='' @ num_text (aClass a)
                    @ ''#ttl='' @ num_text (aTtl a) @ ''#rdlen='' @ num_text (aRdlen a) @ ip;
          if length t < len then Some t else None }"

definition question_text :: "question \<Rightarrow> string option" where
  "question_text q =
     do { name \<leftarrow> name_text (qName q);
          Some (''name='' @ name @ ''#type='' @ num_text (qType q) @ ''#class='' @ num_text (qClass q)) }"

text \<open>The numbered entries of a section: its letter, the index, the text and the end mark.\<close>

fun entries_text :: "('a \<Rightarrow> string option) \<Rightarrow> char \<Rightarrow> string \<Rightarrow> nat \<Rightarrow> 'a list \<Rightarrow> string option" where
  "entries_text f c e i [] = Some []"
| "entries_text f c e i (x # xs) =
     do { t \<leftarrow> f x; r \<leftarrow> entries_text f c e (Suc i) xs; Some (c # decimal i @ '':'' @ t @ e @ r) }"

definition dns_head_text :: "dns_header \<Rightarrow> string" where
  "dns_head_text h =
     ''dns[id('' @ num_text (hId h) @ '')qr('' @ bit_text (hQr h) @ '')rd('' @ bit_text (hRd h) @ '')tc('' @ bit_text (hTc h)
       @ '')aa('' @ bit_text (hAa h) @ '')qnum('' @ num_text (hQnum h) @ '')anum('' @ num_text (hAnum h)
       @ '')authNum('' @ num_text (hAuthNum h) @ '')addtNum('' @ num_text (hAddNum h) @ '');''"

definition dns_toString :: "packet \<Rightarrow> int \<Rightarrow> bytes \<Rightarrow> nat \<Rightarrow> string option" where
  "dns_toString dns payloadLen junk len =
     do { (h, qs, as) \<leftarrow> dns_message dns (unat (word_of_int payloadLen :: size_t)) junk;
          q \<leftarrow> entries_text question_text (CHR ''q'') '';'' 0 qs;
          a \<leftarrow> entries_text (answer_text len) (CHR ''a'') ''; '' 0 as;
          Some (take (len - 1) (dns_head_text h @ q @ (if hAnum h \<noteq> 0 then ''  '' else []) @ a @ '']'')) }"

section \<open>Packets\<close>

definition proto_text :: "byte \<Rightarrow> string" where
  "proto_text p = (if p = PROTO_TCP then ''TCP'' else if p = PROTO_UDP then ''UDP'' else [])"

text \<open>Version, protocol, addresses and lengths; the addresses go through a buffer of 16 bytes.\<close>

definition ip_head_text :: "packet \<Rightarrow> string option" where
  "ip_head_text ip =
     do { src \<leftarrow> IPInt2Str (getSrc ip) 16;
          dest \<leftarrow> IPInt2Str (getDest ip) 16;
          Some (''[v'' @ num_text (getIPVer ip) @ '';'' @ proto_text (getProtocol ip) @ ''('' @ num_text (getProtocol ip) @ '');''
                @ src @ ''/'' @ num_text (swap16 (getSrcPort ip)) @ ''>'' @ dest @ ''/'' @ num_text (swap16 (getDestPort ip)) @ '';''
                @ ''hl('' @ decimal (getHeaderLen ip) @ '')tl('' @ num_text (getTTLEN ip) @ '');'') }"

definition udp_text :: "packet \<Rightarrow> bytes \<Rightarrow> nat \<Rightarrow> string option" where
  "udp_text ip junk len =
     (if swap16 (getDestPort ip) = 53 \<or> swap16 (getSrcPort ip) = 53
      then map_option (\<lambda>t. ''dns: '' @ t)
             (dns_toString (\<lambda>i. ip (getHeaderLen ip + 8 + i)) (getPayloadLen ip) junk len)
      else Some [])"

definition flags_text :: "byte \<Rightarrow> string" where
  "flags_text f =
     (if bit f 1 then ''SYN|'' else []) @ (if bit f 0 then ''FIN|'' else []) @ (if bit f 4 then ''ACK|'' else [])
       @ (if bit f 2 then ''RST|'' else []) @ (if bit f 3 then ''PSH|'' else [])"

text \<open>The header is dumped through the buffer, two digits per byte and a final zero.\<close>

definition dump_text :: "packet \<Rightarrow> nat \<Rightarrow> nat \<Rightarrow> nat \<Rightarrow> string option" where
  "dump_text ip t tcpLen len =
     (let n = (if tcpLen > len then len else tcpLen)
      in if 2 * n + 1 \<le> len then Some (bytes2hex (map (\<lambda>i. ip (t + i)) [0..<n])) else None)"

definition options_text :: "packet \<Rightarrow> nat \<Rightarrow> string option" where
  "options_text ip t =
     do { mss \<leftarrow> getOptionAddr ip t OPT_MSS;
          ws \<leftarrow> getOptionAddr ip t OPT_WS;
          sackf \<leftarrow> getOptionAddr ip t OPT_SACKF;
          sack \<leftarrow> getOptionAddr ip t OPT_SACK;
          Some ((case mss of None \<Rightarrow> [] | Some p \<Rightarrow> '' mss('' @ num_text (ld16 ip (p + 2)) @ '')'')
                @ (case ws of None \<Rightarrow> [] | Some p \<Rightarrow> '' ws('' @ num_text (ip (p + 2)) @ '')'')
                @ (case sackf of None \<Rightarrow> [] | Some p \<Rightarrow> '' sack, '')
                @ (case sack of None \<Rightarrow> [] | Some p \<Rightarrow> '' with sacks '')) }"

definition tcp_text :: "packet \<Rightarrow> nat \<Rightarrow> string option" where
  "tcp_text ip len =
     (let t = getHeaderLen ip; tcpLen = getTCPHeaderLen ip t
      in do { dump \<leftarrow> dump_text ip t tcpLen len;
              opts \<leftarrow> options_text ip t;
              Some (flags_text (tcp_flags ip) @ ''; seq('' @ num_text (tcp_seq ip) @ '')ack('' @ num_text (tcp_ack_seq ip)
                    @ '')tcpl('' @ decimal tcpLen @ '')'' @ ''; win('' @ num_text (tcp_window ip) @ '') raw['' @ dump @ ''],'' @ opts) })"

text \<open>\<open>out0\<close> is the string in the buffer before; a buffer without room is left alone.\<close>

definition toString :: "packet \<Rightarrow> string \<Rightarrow> nat \<Rightarrow> bytes \<Rightarrow> string option" where
  "toString ip out0 len junk =
     (if len = 0 then Some out0
      else do { h \<leftarrow> ip_head_text ip;
                b \<leftarrow> (if getProtocol ip = PROTO_UDP then udp_text ip junk len
                      else if getProtocol ip = PROTO_TCP then tcp_text ip len
                      else Some []);
                Some (take (len - 1) (h @ b @ '']'')) })"

section \<open>When the text exists\<close>

lemma ip_head_defined: "\<exists>h. ip_head_text ip = Some h"
  by (simp add: ip_head_text_def IPInt2Str_fits)

lemma toString_length: "0 < len \<Longrightarrow> toString ip out0 len junk = Some t \<Longrightarrow> length t < len"
  by (auto simp: toString_def split: Option.bind_splits)

lemma tcp_header_short: "getTCPHeaderLen ip t \<le> 60"
proof -
  have "unat (drop_bit 4 (ip (t + 12))) = unat (ip (t + 12)) div 16"
    by (simp add: drop_bit_eq_div unat_div_distrib)
  moreover have "unat (ip (t + 12)) div 16 \<le> 15" using unat_byte_div_16 [of "ip (t + 12)"] by linarith
  ultimately show ?thesis by (simp add: getTCPHeaderLen_def tcp_dataoff_def)
qed

lemma dump_defined: "121 \<le> len \<Longrightarrow> \<exists>d. dump_text ip t (getTCPHeaderLen ip t) len = Some d"
  using tcp_header_short [of ip t] by (auto simp: dump_text_def Let_def)

lemma options_text_iff:
  "options_text ip t \<noteq> None \<longleftrightarrow> (\<forall>k \<in> {OPT_MSS, OPT_WS, OPT_SACKF, OPT_SACK}. getOptionAddr ip t k \<noteq> None)"
  by (auto simp: options_text_def split: Option.bind_splits)

text \<open>
  In every buffer of at least 121 bytes, so in the buffers of 128 and 512 bytes of the router and the sessions, the text of a packet that
  is not DNS exists exactly when the packet is not TCP or each of the four searches for an option in it returns. It is
  then shorter than the buffer. One line of the debug log thus hangs on the packets on which the search hangs.
\<close>

theorem packet_text_defined:
  assumes "121 \<le> len"
    and "getProtocol ip = PROTO_UDP \<Longrightarrow> swap16 (getDestPort ip) \<noteq> 53 \<and> swap16 (getSrcPort ip) \<noteq> 53"
  shows "(\<exists>t. toString ip out0 len junk = Some t \<and> length t < len)
    \<longleftrightarrow> (getProtocol ip = PROTO_TCP
         \<longrightarrow> (\<forall>k \<in> {OPT_MSS, OPT_WS, OPT_SACKF, OPT_SACK}. getOptionAddr ip (getHeaderLen ip) k \<noteq> None))"
proof -
  obtain h where h: "ip_head_text ip = Some h" using ip_head_defined by blast
  obtain d where d: "dump_text ip (getHeaderLen ip) (getTCPHeaderLen ip (getHeaderLen ip)) len = Some d"
    using dump_defined [OF assms(1)] by blast
  have "(\<exists>t. toString ip out0 len junk = Some t \<and> length t < len) \<longleftrightarrow> toString ip out0 len junk \<noteq> None"
    using toString_length [of len ip out0 junk] assms(1) by fastforce
  also have "\<dots> \<longleftrightarrow> (getProtocol ip = PROTO_TCP \<longrightarrow> options_text ip (getHeaderLen ip) \<noteq> None)"
    using assms by (cases "options_text ip (getHeaderLen ip)")
      (auto simp: toString_def h udp_text_def tcp_text_def d Let_def PROTO_TCP_def PROTO_UDP_def simp del: take_append)
  finally show ?thesis unfolding options_text_iff .
qed


text \<open>A TCP packet whose only option has length 0, and one without options with its text.\<close>

definition sample_stuck :: packet where
  "sample_stuck = mem_of ([0x45, 0, 0, 44, 0, 0, 0, 0, 64, 6, 0, 0, 10, 0, 0, 1, 10, 0, 0, 2]
     @ [4, 0, 0, 80, 0, 0, 0, 1, 0, 0, 0, 0, 0x60, 0x10, 1, 0, 0, 0, 0, 0] @ [254, 0, 0, 0])"

definition sample_bare :: packet where
  "sample_bare = mem_of ([0x45, 0, 0, 40, 0, 0, 0, 0, 64, 6, 0, 0, 10, 0, 0, 1, 10, 0, 0, 2]
     @ [4, 0, 0, 80, 0, 0, 0, 1, 0, 0, 0, 0, 0x50, 0x12, 1, 0, 0, 0, 0, 0])"

declare option_loop.simps [code]

lemma sample_bare_text:
  "toString sample_bare [] 512 [] = Some (''[v4;TCP(6);10.0.0.1/1024>10.0.0.2/80;hl(20)tl(40);SYN|ACK|; ''
     @ ''seq(1)ack(0)tcpl(20); win(256) raw[0400005000000001000000005012010000000000],]'')"
  by code_simp

lemma packet_text_defined_witness:
  "\<not> (\<exists>t. toString sample_stuck [] 128 [] = Some t \<and> length t < 128)
   \<and> (\<exists>t. toString sample_bare [] 512 [] = Some t \<and> length t < 512)"
proof -
  have p: "getProtocol sample_stuck = PROTO_TCP" "getProtocol sample_bare = PROTO_TCP" "PROTO_TCP \<noteq> PROTO_UDP"
    by (simp_all add: sample_stuck_def sample_bare_def getProtocol_def mem_of_def PROTO_TCP_def PROTO_UDP_def)
  have h: "getHeaderLen sample_stuck = 20" "getHeaderLen sample_bare = 20"
    by (simp_all add: sample_stuck_def sample_bare_def getHeaderLen_def mem_of_def)
  have "getOptionAddr sample_stuck 20 OPT_MSS = None"
    unfolding getOptionAddr_def
    by (rule option_loop_stuck) (simp_all add: sample_stuck_def mem_of_def tcp_dataoff_def OPT_MSS_def OPT_NOP_def)
  moreover have "getOptionAddr sample_bare 20 k = Some None" for k
    unfolding getOptionAddr_def
    by (subst option_loop.simps) (simp add: sample_bare_def mem_of_def tcp_dataoff_def)
  ultimately show ?thesis
    using packet_text_defined [of 128 sample_stuck "[]" "[]"] packet_text_defined [of 512 sample_bare "[]" "[]"] p h by simp
qed

end
