(* ===== verification/UDPSession.thy ===== *)
theory UDPSession
  imports TCPOwn SocksChannel PacketText
begin

text \<open>
  \<^verbatim>\<open>core/UDPSession.h\<close> and \<^verbatim>\<open>core/UDPSession.cpp\<close>: a flow of UDP datagrams of the local application, sent over
  a socket of its own or through a \<^verbatim>\<open>Socks5Proxy\<close>. Like a TCP session the state extends the router's,
  which gets the datagrams that go back. A handler is \<^term>\<open>None\<close> where the C++ code has no defined outcome.
\<close>

section \<open>State\<close>

text \<open>Events for the user interface: a running total and the size of this transfer.\<close>

datatype udp_effect =
    U_BORN | U_DIE
  | U_TRAFFIC_ACCEPT u32 u32
  | U_TRAFFIC_BACK u32 u32
  | U_TRAFFIC_SENT u32 u32
  | U_TRAFFIC_RECV u32 u32

text \<open>
  \<open>uOpen\<close> is \<^verbatim>\<open>mSocket >= 0\<close>, \<open>uReactor\<close> is \<^verbatim>\<open>mReactor != NULL\<close>, \<open>uReadEv\<close> and \<open>uWriteEv\<close> are the events
  registered for the socket, \<open>uWire\<close> what the socket took, one entry a datagram. \<open>uTunnel\<close> is \<^verbatim>\<open>mTunnel\<close>. The
  reply times (\<^verbatim>\<open>mTimeCost\<close>) are only logged.
\<close>

record udp_session = router +
  uIPVer :: byte
  uProtocol :: byte
  uSrcPort :: u16
  uDestPort :: u16
  uSrcAddr :: u32
  uDestAddr :: u32
  uTotalAccept :: u32
  uTotalBack :: u32
  uTotalRecv :: u32
  uTotalSent :: u32
  uLastTime :: int
  uCtrlType :: int
  uTunnel :: "proxy option"
  uAlive :: bool
  uOpen :: bool
  uReactor :: bool
  uReadEv :: bool
  uWriteEv :: bool
  uOutBuffer :: "buffer_segment list"
  uWire :: "bytes list"
  uEffects :: "udp_effect list"

definition MAX_IP_SIZE :: nat where "MAX_IP_SIZE = 61440"

definition udp_emit :: "udp_effect \<Rightarrow> udp_session \<Rightarrow> udp_session" where
  "udp_emit e s = s\<lparr>uEffects := uEffects s @ [e]\<rparr>"

text \<open>\<^verbatim>\<open>SAFE_CLOSE_SOCKET\<close> removes both events and forgets the reactor.\<close>

definition udp_close :: "udp_session \<Rightarrow> udp_session" where
  "udp_close s =
     (let s1 = s\<lparr>uAlive := False\<rparr>;
          s2 = (if uReactor s1 \<and> uOpen s1 then s1\<lparr>uReadEv := False, uWriteEv := False\<rparr> else s1)
      in s2\<lparr>uOpen := False, uReactor := False\<rparr>)"

definition udp_hasClosed :: "udp_session \<Rightarrow> bool" where
  "udp_hasClosed s \<longleftrightarrow> \<not> uAlive s"

definition udp_timeout :: "int \<Rightarrow> udp_session \<Rightarrow> bool" where
  "udp_timeout now s \<longleftrightarrow> now > uLastTime s + 120"

section \<open>Birth and death\<close>

text \<open>
  What the environment decides: the control strategy, the IP version of the proxy in the settings, the
  proxy an established \<^verbatim>\<open>Socks5Proxy\<close> is (\<^term>\<open>None\<close> if \<^verbatim>\<open>establish\<close> fails), whether \<^verbatim>\<open>socket\<close> and
  \<^verbatim>\<open>protectSock\<close> succeed, and the value of the uninitialised \<^verbatim>\<open>mLastTime\<close>.
\<close>

record udp_birth =
  ub_ctrl :: int
  ub_proxy_ipver :: int
  ub_proxy :: "proxy option"
  ub_socket :: bool
  ub_protect :: bool
  ub_stale_time :: int

definition udp_session_new :: "udp_birth \<Rightarrow> router \<Rightarrow> udp_session" where
  "udp_session_new b w = router.extend w
     \<lparr>uIPVer = 0, uProtocol = 0, uSrcPort = 0, uDestPort = 0, uSrcAddr = 0, uDestAddr = 0,
      uTotalAccept = 0, uTotalBack = 0, uTotalRecv = 0, uTotalSent = 0, uLastTime = ub_stale_time b,
      uCtrlType = 0, uTunnel = None, uAlive = False, uOpen = False, uReactor = False,
      uReadEv = False, uWriteEv = False, uOutBuffer = [], uWire = [], uEffects = []\<rparr>"

definition udp_initBaseInfo :: "packet \<Rightarrow> udp_session \<Rightarrow> int \<times> udp_session" where
  "udp_initBaseInfo ip s =
     (let s1 = s\<lparr>uIPVer := getIPVer ip\<rparr>
      in if uIPVer s1 = 4
         then (0, s1\<lparr>uProtocol := getProtocol ip, uSrcAddr := getSrc ip, uDestAddr := getDest ip,
                    uSrcPort := getSrcPort ip, uDestPort := getDestPort ip\<rparr>)
         else (1, s1))"

definition connectRemote :: "udp_birth \<Rightarrow> udp_session \<Rightarrow> int \<times> udp_session" where
  "connectRemote b s =
     (if \<not> ub_socket b then (1, s\<lparr>uOpen := False\<rparr>)
      else if \<not> ub_protect b then (1, s\<lparr>uOpen := False\<rparr>)
      else (0, s\<lparr>uOpen := True, uReadEv := True, uWriteEv := True\<rparr>))"

definition udp_init :: "packet \<Rightarrow> udp_birth \<Rightarrow> udp_session \<Rightarrow> int \<times> udp_session" where
  "udp_init ip b s =
     (let s1 = s\<lparr>uReactor := True, uCtrlType := ub_ctrl b\<rparr>;
          (err, s2) =
            (if uCtrlType s1 AND CTRL_PROXY > 0
             then if ub_proxy_ipver b \<noteq> 4 then (1, s1)
                  else (case ub_proxy b of None \<Rightarrow> (1, s1) | Some p \<Rightarrow> (0, s1\<lparr>uTunnel := Some p\<rparr>))
             else connectRemote b s1)
      in if err \<noteq> 0 then (err, s2) else (0, s2\<lparr>uAlive := True\<rparr>))"

definition udp_buildSession :: "packet \<Rightarrow> udp_birth \<Rightarrow> router \<Rightarrow> udp_session option" where
  "udp_buildSession ip b w =
     (case udp_initBaseInfo ip (udp_session_new b w) of
        (e, s) \<Rightarrow> if e \<noteq> 0 then None
                  else (case udp_init ip b s of
                          (e', s') \<Rightarrow> if e' \<noteq> 0 then None else Some (udp_emit U_BORN s')))"

text \<open>The destructor deletes the tunnel with its queues, the queued datagrams, and closes the socket.\<close>

definition udp_releaseSession :: "udp_session \<Rightarrow> udp_session option" where
  "udp_releaseSession s =
     (let s1 = udp_emit U_DIE s;
          tun = (case uTunnel s1 of None \<Rightarrow> []
                 | Some p \<Rightarrow> map seg_delete_ok (pSocks5 p) @ map seg_delete_ok (pOutQueue p) @ [seg_delete_ok (pDecryptBuffer p)])
      in if list_all id tun \<and> list_all seg_delete_ok (uOutBuffer s1)
         then Some (udp_close (s1\<lparr>uTunnel := None, uOutBuffer := []\<rparr>)) else None)"

section \<open>From the application to the remote\<close>

text \<open>
  A payload length that is negative becomes a huge \<^verbatim>\<open>size_t\<close>. The line for the log is made in every build, in the shared array
  \<^verbatim>\<open>sTemporary\<close>; \<open>junk\<close> is what the parser's array for names holds before. The write event of the socket is requested
  with \<^verbatim>\<open>addEvent(mSocket, ...)\<close>, which does nothing for a negative descriptor.
\<close>

definition MAX_SHARE_BUFFER :: nat where "MAX_SHARE_BUFFER = 512"

definition accept_text :: "packet \<Rightarrow> bytes \<Rightarrow> string option" where
  "accept_text ip junk = toString ip [] MAX_SHARE_BUFFER junk"

definition udp_accept :: "packet \<Rightarrow> int \<Rightarrow> bytes \<Rightarrow> udp_session \<Rightarrow> (int \<times> udp_session) option" where
  "udp_accept ip now junk s =
     (if \<not> uAlive s then Some (1, s)
      else
        (let len = word_of_int (getPayloadLen ip) :: size_t;
             s1 = s\<lparr>uTotalAccept := uTotalAccept s + len\<rparr>
         in do {
           line \<leftarrow> accept_text ip junk;
           let s2 = (if (uCtrlType s1 AND CTRL_CAPTURE) \<noteq> 0
                     then s1\<lparr>captured := captured s1 @ [map ip [0..<unat (getTTLEN ip)]]\<rparr> else s1);
           let s3 = udp_emit (U_TRAFFIC_ACCEPT (uTotalAccept s2) len) s2;
           (w, sg) \<leftarrow> seg_write (payload_bytes ip len) len (buffer_segment_new len);
           s4 \<leftarrow> (if w = len
                 then (let s' = s3\<lparr>uOutBuffer := bq_push sg (uOutBuffer s3)\<rparr>
                       in case uTunnel s' of
                            Some p \<Rightarrow>
                              if uCtrlType s' = CTRL_PROXY
                              then do { p1 \<leftarrow> requestSendData p; Some (s'\<lparr>uTunnel := Some p1\<rparr>) }
                              else if uReactor s' then Some (if uOpen s' then s'\<lparr>uWriteEv := True\<rparr> else s') else None
                          | None \<Rightarrow> if uReactor s' then Some (if uOpen s' then s'\<lparr>uWriteEv := True\<rparr> else s') else None)
                 else if seg_delete_ok sg then Some s3 else None);
           Some (0, s4\<lparr>uLastTime := now\<rparr>) }))"

text \<open>
  \<^verbatim>\<open>onWritable\<close> of the socket: the numbers are the results of \<^verbatim>\<open>sendto\<close>, after the last one it would block.
\<close>

fun udp_write_loop :: "int list \<Rightarrow> u32 \<Rightarrow> udp_session \<Rightarrow> (u32 \<times> udp_session) option" where
  "udp_write_loop ks sent s =
     (case uOutBuffer s of
        [] \<Rightarrow> Some (sent, s)
      | sg # sgs \<Rightarrow>
          (case ks of
             [] \<Rightarrow> Some (sent, s)
           | k # ks1 \<Rightarrow>
               (let n = min k (uint (seg_size sg))
                in if n < 0 then Some (sent, s)
                   else
                     (let sg1 = seg_consume (word_of_int n) sg;
                          s1 = s\<lparr>uWire := uWire s @ [take (nat n) (seg_bytes sg)]\<rparr>
                      in if seg_size sg1 \<le> 0
                         then (if seg_delete_ok sg1
                               then udp_write_loop ks1 (sent + word_of_int n) (s1\<lparr>uOutBuffer := sgs\<rparr>)
                               else None)
                         else udp_write_loop ks1 (sent + word_of_int n) (s1\<lparr>uOutBuffer := sg1 # sgs\<rparr>)))))"

declare udp_write_loop.simps [simp del]

definition udp_sent :: "u32 \<Rightarrow> udp_session \<Rightarrow> udp_session" where
  "udp_sent sent s =
     (if sent > 0
      then (let s1 = s\<lparr>uTotalSent := uTotalSent s + sent\<rparr> in udp_emit (U_TRAFFIC_SENT (uTotalSent s1) sent) s1)
      else s)"

definition udp_onWritable :: "int list \<Rightarrow> udp_session \<Rightarrow> udp_session option" where
  "udp_onWritable ks s =
     (if uOutBuffer s \<noteq> []
      then do { (sent, s1) \<leftarrow> udp_write_loop ks 0 s; Some (udp_sent sent s1) }
      else if uReactor s then Some (s\<lparr>uWriteEv := False\<rparr>) else None)"

text \<open>
  \<^verbatim>\<open>onTunnelWritable\<close>: its loop runs on the tunnel's answers until one is negative, for at most \<open>fuel\<close> iterations;
  \<open>Running\<close> is the state it is still in then.
\<close>

datatype 'a loop_result = Running 'a | Undefined | Returned u32 'a

definition tunnel_sendData :: "bytes \<Rightarrow> udp_session \<Rightarrow> (int \<times> udp_session) option" where
  "tunnel_sendData data s =
     (case uTunnel s of
        None \<Rightarrow> None
      | Some p \<Rightarrow> map_option (\<lambda>(n, p1). (n, s\<lparr>uTunnel := Some p1\<rparr>)) (sendData data p))"

fun udp_tunnel_loop :: "nat \<Rightarrow> u32 \<Rightarrow> udp_session \<Rightarrow> udp_session loop_result" where
  "udp_tunnel_loop fuel sent s =
     (case uOutBuffer s of
        [] \<Rightarrow> Returned sent s
      | sg # sgs \<Rightarrow>
          (case fuel of
             0 \<Rightarrow> Running s
           | Suc fuel1 \<Rightarrow>
               (case tunnel_sendData (seg_bytes sg) s of
                  None \<Rightarrow> Undefined
                | Some (n, s1) \<Rightarrow>
                    if n < 0 then Returned sent s1
                    else
                      (let sg1 = seg_consume (word_of_int n) sg
                       in if seg_size sg1 \<le> 0
                          then (if seg_delete_ok sg1
                                then udp_tunnel_loop fuel1 (sent + word_of_int n) (s1\<lparr>uOutBuffer := sgs\<rparr>)
                                else Undefined)
                          else udp_tunnel_loop fuel1 (sent + word_of_int n) (s1\<lparr>uOutBuffer := sg1 # sgs\<rparr>)))))"

declare udp_tunnel_loop.simps [simp del]

definition udp_onTunnelWritable :: "nat \<Rightarrow> udp_session \<Rightarrow> udp_session loop_result" where
  "udp_onTunnelWritable fuel s =
     (if uOutBuffer s \<noteq> []
      then (case udp_tunnel_loop fuel 0 s of
              Returned sent s1 \<Rightarrow> Returned sent (udp_sent sent s1)
            | r \<Rightarrow> r)
      else (case uTunnel s of
              None \<Rightarrow> Undefined
            | Some p \<Rightarrow> (case pauseSendData p of None \<Rightarrow> Undefined | Some p1 \<Rightarrow> Returned 0 (s\<lparr>uTunnel := Some p1\<rparr>))))"

section \<open>From the remote to the application\<close>

definition udp_ip4_header :: "udp_session \<Rightarrow> nat \<Rightarrow> u16 \<Rightarrow> bytes" where
  "udp_ip4_header s ttlen checksum =
     [0x45, 0] @ st16 (swap16 (word_of_nat ttlen)) @ [0, 0, 0, 0, 64, PROTO_UDP] @ st16 checksum
     @ st32 (uDestAddr s) @ st32 (uSrcAddr s)"

definition udp_pseudo :: "udp_session \<Rightarrow> nat \<Rightarrow> bytes" where
  "udp_pseudo s udplen =
     st32 (uDestAddr s) @ st32 (uSrcAddr s) @ [0, PROTO_UDP] @ st16 (swap16 (word_of_nat udplen))"

definition udp_header :: "udp_session \<Rightarrow> nat \<Rightarrow> u16 \<Rightarrow> bytes" where
  "udp_header s udplen checksum =
     st16 (uDestPort s) @ st16 (uSrcPort s) @ st16 (swap16 (word_of_nat udplen)) @ st16 checksum"

definition udp_sum :: "udp_session \<Rightarrow> bytes \<Rightarrow> u16" where
  "udp_sum s data =
     (let c0 = computeChecksum 0 (udp_pseudo s (8 + length data));
          c1 = computeChecksum c0 (udp_header s (8 + length data) 0)
      in computeChecksum c1 data)"

definition udp_packet_bytes :: "udp_session \<Rightarrow> bytes \<Rightarrow> bytes" where
  "udp_packet_bytes s data =
     (let ttlen = 20 + 8 + length data
      in udp_ip4_header s ttlen (NOT (computeChecksum 0 (udp_ip4_header s ttlen 0)))
         @ udp_header s (8 + length data) (NOT (udp_sum s data)) @ data)"

text \<open>A \<^verbatim>\<open>BufferSegment\<close> the router shares with its owner is kept as a datagram whose TCP part is never read.\<close>

definition buildPacket :: "bytes \<Rightarrow> udp_session \<Rightarrow> datagram option" where
  "buildPacket data s =
     (if uIPVer s = 4
      then (let ttlen = word_of_nat (20 + 8 + length data);
                d = seg_set_limit ttlen (datagram_new ttlen)
            in Some (d\<lparr>mData := Some (udp_packet_bytes s data)\<rparr>))
      else None)"

text \<open>\<^term>\<open>None\<close> is an error of \<^verbatim>\<open>read\<close>; a datagram has 0 to 61440 bytes. The outcome of the synchronous event is ignored.\<close>

definition udp_onReadable :: "bytes option \<Rightarrow> udp_session \<Rightarrow> udp_session option" where
  "udp_onReadable rd s =
     (case rd of
        None \<Rightarrow> Some (udp_close s)
      | Some data \<Rightarrow>
          (let len = word_of_nat (length data);
               s1 = s\<lparr>uTotalRecv := uTotalRecv s + len\<rparr>;
               s2 = udp_emit (U_TRAFFIC_RECV (uTotalRecv s1) len) s1
           in case buildPacket data s2 of
                None \<Rightarrow> Some s2
              | Some d \<Rightarrow>
                  (let d1 = d\<lparr>mNeedCapture := (uCtrlType s2 AND CTRL_CAPTURE) \<noteq> 0\<rparr>;
                       s3 = s2\<lparr>uTotalBack := uTotalBack s2 + len\<rparr>;
                       (r, s4) = alloc d1 s3
                   in do { (code, s5) \<leftarrow> onSyncEvent r s4;
                           Some (udp_emit (U_TRAFFIC_BACK (uTotalBack s5) len) s5) })))"

text \<open>The loop of \<^verbatim>\<open>onTunnelDataBack\<close>: a chunk of at most 61440 bytes becomes a packet the router frees.\<close>

definition udp_relay :: "bytes \<Rightarrow> udp_session \<Rightarrow> udp_session option" where
  "udp_relay chunk s =
     (case buildPacket chunk s of
        None \<Rightarrow> Some s
      | Some d \<Rightarrow> (let (r, s1) = alloc (d\<lparr>mReleaseAfterBuffering := True\<rparr>) s in map_option snd (onSyncEvent r s1)))"

function udp_relay_loop :: "u32 \<Rightarrow> bytes \<Rightarrow> u32 \<Rightarrow> udp_session \<Rightarrow> (u32 \<times> udp_session) option" where
  "udp_relay_loop len data i s =
     (if data = [] then Some (i, s)
      else
        (let chunk = take MAX_IP_SIZE data
         in do { s1 \<leftarrow> udp_relay chunk (udp_emit (U_TRAFFIC_RECV (uTotalRecv s) len) s);
                 udp_relay_loop len (drop MAX_IP_SIZE data) (i + word_of_nat (length chunk)) s1 }))"
  by pat_completeness auto

termination udp_relay_loop
  by (relation "measure (\<lambda>(len, data, i, s). length data)") (auto simp: MAX_IP_SIZE_def)

declare udp_relay_loop.simps [simp del]

definition udp_onTunnelDataBack :: "bytes \<Rightarrow> int \<Rightarrow> udp_session \<Rightarrow> udp_session option" where
  "udp_onTunnelDataBack data now s =
     do { s4 \<leftarrow> (if data = []
                then (case uTunnel s of
                        None \<Rightarrow> None
                      | Some p \<Rightarrow> do { p1 \<leftarrow> pauseReceiveData p; Some (udp_close (s\<lparr>uTunnel := Some p1\<rparr>)) })
                else do {
                  (i, s1) \<leftarrow> udp_relay_loop (word_of_nat (length data)) data 0 s;
                  Some (if i > 0
                        then (let s2 = s1\<lparr>uTotalRecv := uTotalRecv s1 + i, uTotalBack := uTotalBack s1 + i\<rparr>
                              in udp_emit (U_TRAFFIC_BACK (uTotalBack s2) i) (udp_emit (U_TRAFFIC_RECV (uTotalRecv s2) i) s2))
                        else s1) });
          Some (s4\<lparr>uLastTime := now\<rparr>) }"

section \<open>The other callbacks\<close>

definition udp_onException :: "udp_session \<Rightarrow> udp_session" where
  "udp_onException s = udp_close s"

definition udp_onPeriodicallyCheck :: "int \<Rightarrow> udp_session \<Rightarrow> udp_session" where
  "udp_onPeriodicallyCheck now s = (if udp_timeout now s then udp_close s else s)"

definition udp_onTunnelDisconnected :: "udp_session \<Rightarrow> udp_session" where
  "udp_onTunnelDisconnected s = udp_close s"

end
