(* ===== verification/UDPPacket.thy ===== *)
theory UDPPacket
  imports UDPSession
begin

text \<open>
  What \<^verbatim>\<open>UDPSession::buildPacket\<close> puts on the tun device: sizes, checksums, and the fields as the accessors of
  \<^verbatim>\<open>IPAdpt.cpp\<close> read them back.
\<close>

lemma udp_lengths [simp]:
  "length (udp_ip4_header s n c) = 20" "length (udp_pseudo s n) = 12" "length (udp_header s n c) = 8"
  by (simp_all add: udp_ip4_header_def udp_pseudo_def udp_header_def)

lemma length_udp_packet_bytes [simp]: "length (udp_packet_bytes s data) = 28 + length data"
  by (simp add: udp_packet_bytes_def Let_def)

lemma udp_ip4_header_split:
  "udp_ip4_header s n c = ([0x45, 0] @ st16 (swap16 (word_of_nat n)) @ [0, 0, 0, 0, 64, PROTO_UDP]) @ st16 c
     @ st32 (uDestAddr s) @ st32 (uSrcAddr s)"
  by (simp add: udp_ip4_header_def)

definition udp_pre :: "udp_session \<Rightarrow> nat \<Rightarrow> bytes" where
  "udp_pre s n = st16 (uDestPort s) @ st16 (uSrcPort s) @ st16 (swap16 (word_of_nat n))"

lemma udp_header_split: "udp_header s n c = udp_pre s n @ st16 c" "length (udp_pre s n) = 6"
  by (simp_all add: udp_header_def udp_pre_def)

text \<open>The three calls compute one sum over pseudo header, header and data.\<close>

lemma udp_sum_whole:
  assumes "length data \<le> 61440"
  shows "udp_sum s data =
    computeChecksum 0 ((udp_pseudo s (8 + length data) @ udp_pre s (8 + length data)) @ st16 0 @ data)"
proof -
  define P where "P = udp_pseudo s (8 + length data)"
  have lP: "length P = 12" by (simp add: P_def)
  have "udp_sum s data = computeChecksum 0 ((P @ udp_header s (8 + length data) 0) @ data)"
    unfolding udp_sum_def Let_def P_def [symmetric]
    using assms lP by (simp add: computeChecksum_append del: append_assoc)
  then show ?thesis by (simp add: udp_header_split P_def)
qed

lemma udp_checksums:
  assumes "length data \<le> 61440"
  shows "computeChecksum 0 (take 20 (udp_packet_bytes s data)) = 0xFFFF"
    "computeChecksum 0 (udp_pseudo s (8 + length data) @ drop 20 (udp_packet_bytes s data)) = 0xFFFF"
proof -
  define n where "n = 20 + 8 + length data"
  have "take 20 (udp_packet_bytes s data) = udp_ip4_header s n (NOT (computeChecksum 0 (udp_ip4_header s n 0)))"
    by (simp add: udp_packet_bytes_def Let_def n_def)
  then show "computeChecksum 0 (take 20 (udp_packet_bytes s data)) = 0xFFFF"
    using checksum_field_verifies [of "[0x45, 0] @ st16 (swap16 (word_of_nat n)) @ [0, 0, 0, 0, 64, PROTO_UDP]"
        "st32 (uDestAddr s) @ st32 (uSrcAddr s)" 0]
    by (simp add: udp_ip4_header_split)
  define P where "P = udp_pseudo s (8 + length data) @ udp_pre s (8 + length data)"
  have "udp_pseudo s (8 + length data) @ drop 20 (udp_packet_bytes s data) = P @ st16 (NOT (udp_sum s data)) @ data"
    by (simp add: udp_packet_bytes_def Let_def udp_header_split P_def)
  also have "udp_sum s data = computeChecksum 0 (P @ st16 0 @ data)"
    using udp_sum_whole [OF assms] by (simp add: P_def)
  finally show "computeChecksum 0 (udp_pseudo s (8 + length data) @ drop 20 (udp_packet_bytes s data)) = 0xFFFF"
    using checksum_field_verifies [of P data 0] assms by (simp add: P_def udp_header_split)
qed

lemma udp_layout:
  assumes "m = mem_of (udp_packet_bytes s data)"
  shows "m 0 = 0x45" "laid_out m 2 (st16 (swap16 (word_of_nat (28 + length data))))"
    "m 9 = PROTO_UDP" "laid_out m 12 (st32 (uDestAddr s))" "laid_out m 16 (st32 (uSrcAddr s))"
    "laid_out m 20 (st16 (uDestPort s))" "laid_out m 22 (st16 (uSrcPort s))"
    "laid_out m 24 (st16 (swap16 (word_of_nat (8 + length data))))" "laid_out m 28 data"
proof -
  have "laid_out m 0 (udp_packet_bytes s data)"
    using assms laid_out_self by simp
  then show "m 0 = 0x45" "laid_out m 2 (st16 (swap16 (word_of_nat (28 + length data))))"
    "m 9 = PROTO_UDP" "laid_out m 12 (st32 (uDestAddr s))" "laid_out m 16 (st32 (uSrcAddr s))"
    "laid_out m 20 (st16 (uDestPort s))" "laid_out m 22 (st16 (uSrcPort s))"
    "laid_out m 24 (st16 (swap16 (word_of_nat (8 + length data))))" "laid_out m 28 data"
    by (simp_all add: udp_packet_bytes_def Let_def udp_ip4_header_def udp_header_def laid_out_append
        del: One_nat_def)
qed

text \<open>
  Every datagram the session sends back to the application is a valid packet: the sums over the
  IPv4 header, and over pseudo header, UDP header and data, are all ones, and the accessors read back
  version, protocol, lengths, swapped addresses and ports and exactly the data, for every datagram of at most
  61440 bytes, the empty one included.
\<close>

theorem udp_packet_valid:
  assumes "length data \<le> 61440"
  shows "computeChecksum 0 (take 20 (udp_packet_bytes s data)) = 0xFFFF
    \<and> computeChecksum 0 (udp_pseudo s (8 + length data) @ drop 20 (udp_packet_bytes s data)) = 0xFFFF
    \<and> (let m = mem_of (udp_packet_bytes s data) in
        getIPVer m = 4 \<and> getProtocol m = PROTO_UDP \<and> unat (getTTLEN m) = 28 + length data
        \<and> getSrc m = uDestAddr s \<and> getDest m = uSrcAddr s
        \<and> getSrcPort m = uDestPort s \<and> getDestPort m = uSrcPort s
        \<and> getPayloadLen m = int (length data) \<and> ip_payload m (length data) = data)"
proof -
  define m where "m = mem_of (udp_packet_bytes s data)"
  note l = udp_layout [OF m_def]
  have h: "getHeaderLen m = 20" by (simp add: getHeaderLen_def l)
  have o: "getPayloadOffset m = 28" by (simp add: getPayloadOffset_def getProtocol_def l h)
  have ttl: "unat (getTTLEN m) = 28 + length data"
    using l(2) assms by (simp add: getTTLEN_def ld16_st16 unat_of_nat take_bit_eq_mod flip: of_nat_add)
  have "getSrcPort m = uDestPort s" "getDestPort m = uSrcPort s"
    using ld16_st16 [OF l(6)] ld16_st16 [OF l(7)] l(3) h
    by (simp_all add: getSrcPort_def getDestPort_def getProtocol_def)
  moreover have "ip_payload m (length data) = data"
    using laid_out_map [OF l(9)] o by (simp add: ip_payload_def)
  moreover have "getIPVer m = 4" by (simp add: getIPVer_def l)
  ultimately show ?thesis
    unfolding Let_def m_def [symmetric]
    using udp_checksums [OF assms, of s] ttl l(3) o ld32_st32 [OF l(4)] ld32_st32 [OF l(5)]
    by (simp add: getProtocol_def getSrc_def getDest_def getPayloadLen_def)
qed

section \<open>The packet as a segment\<close>

lemma buildPacket_ok:
  assumes d: "buildPacket data s = Some d" and len: "length data \<le> 65535"
  shows "seg_bytes d = udp_packet_bytes s data" "dgram_ok d"
    "\<not> mBuffering d" "\<not> mAbort d" "\<not> mReleaseAfterBuffering d"
proof -
  define n where "n = 28 + length data"
  have n: "n \<le> 65563" "0 < n" using len by (simp_all add: n_def)
  then have un: "unat (word_of_nat n :: size_t) = n" by simp
  then have ok: "\<not> (word_of_nat n :: size_t) < 1" "\<not> seg_max < (word_of_nat n :: size_t)"
    using n by (simp_all add: word_less_nat_alt seg_max_def)
  have nn: "20 + 8 + length data = n" by (simp add: n_def)
  have eq: "d = (seg_set_limit (word_of_nat n) (datagram_new (word_of_nat n)))
        \<lparr>mData := Some (udp_packet_bytes s data)\<rparr>"
    using d unfolding buildPacket_def Let_def nn by (simp split: if_splits)
  have sz: "mSize (segment_new (word_of_nat n)) = word_of_nat n" using ok by (simp add: segment_new_def)
  have fields: "mData d = Some (udp_packet_bytes s data)" "mSize d = word_of_nat n" "mPos d = 0"
      "mLimit d = word_of_nat n" "mMarkPos d = 0" "mMarkLimit d = 0"
    using sz by (simp_all add: eq seg_set_limit_def)
  show fl: "\<not> mBuffering d" "\<not> mAbort d" "\<not> mReleaseAfterBuffering d"
    by (simp_all add: eq seg_set_limit_def)
  have len': "length (udp_packet_bytes s data) = n" by (simp add: n_def)
  show bytes: "seg_bytes d = udp_packet_bytes s data"
    using len' un by (simp add: seg_bytes_def fields)
  have "seg_inv d" unfolding seg_inv_nat using fields un n len' by simp
  moreover have "udp_packet_bytes s data \<noteq> []" using len' n by (metis length_0_conv less_irrefl)
  ultimately show "dgram_ok d"
    using bytes fl by (simp add: dgram_ok_def packet_bytes_def fields)
qed

theorem udp_packet_valid_witness:
  "let m = mem_of (udp_packet_bytes (udp_session_new \<lparr>ub_ctrl = 0, ub_proxy_ipver = 0, ub_proxy = None, ub_socket = True,
       ub_protect = True, ub_stale_time = 0\<rparr> router0) [7, 8, 9])
   in getIPVer m = 4 \<and> getPayloadLen m = 3 \<and> ip_payload m 3 = [7, 8, 9]"
proof -
  define s where "s = udp_session_new \<lparr>ub_ctrl = 0, ub_proxy_ipver = 0, ub_proxy = None, ub_socket = True,
       ub_protect = True, ub_stale_time = 0\<rparr> router0"
  have len: "length [7 :: byte, 8, 9] = 3" by simp
  then have "length [7 :: byte, 8, 9] \<le> 61440" by linarith
  from udp_packet_valid [OF this, of s, unfolded len]
  have "let m = mem_of (udp_packet_bytes s [7, 8, 9])
      in getIPVer m = 4 \<and> getPayloadLen m = int 3 \<and> ip_payload m 3 = [7, 8, 9]"
    unfolding Let_def by blast
  then show ?thesis unfolding s_def of_nat_numeral .
qed

end
