(* ===== verification/UDPRun.thy ===== *)
theory UDPRun
  imports UDPPacket
begin

text \<open>
  All runs of a UDP session: memory safety, who owns the packets it hands to the router, and what its
  socket and its tunnel get.
\<close>

section \<open>A packet the router alone owns\<close>

lemma own_inv_relay:
  assumes inv: "own_inv B w" and d: "dgram_ok d" "\<not> mBuffering d" "mReleaseAfterBuffering d" "\<not> mAbort d"
  shows "\<exists>w'. onSyncEvent (fst (alloc d w)) (snd (alloc d w)) = Some (0, w') \<and> own_inv B w' \<and> same_view B w w'
    \<and> router.more w' = router.more w"
proof -
  define r where "r = next_ref w"
  have none: "heap w r = None" using own_invD(3) [OF inv, of r] by (cases "heap w r") (auto simp: r_def)
  then have "r \<notin> dom (heap w)" by auto
  then have nB: "r \<notin> B" "r \<notin> set (tunData w)" using own_invD(2) [OF inv] by simp_all
  define d' where "d' = seg_mark (d\<lparr>mBuffering := True\<rparr>)"
  define w' where "w' = store r d' (snd (alloc d w))\<lparr>tunData := bq_push r (tunData w), tunWrite := True\<rparr>"
  have size: "seg_size d > 0" using d(1) by (simp add: dgram_ok_def seg_size_pos)
  have heap': "heap w' = (heap w)(r \<mapsto> d')" "tunData w' = tunData w @ [r]" "next_ref w' = Suc r"
      "router.more w' = router.more w"
    by (simp_all add: w'_def alloc_def bq_push_def r_def)
  have "onSyncEvent (fst (alloc d w)) (snd (alloc d w)) = Some (0, w')"
    using d size by (simp add: onSyncEvent_def w'_def d'_def alloc_def r_def)
  moreover have "own_inv B w'"
  proof (rule own_invI)
    show "dom (heap w') = B \<union> set (tunData w')" using own_invD(2) [OF inv] by (auto simp: heap')
    show "s < next_ref w'" if "heap w' s = Some e" for s e
      using that own_invD(3) [OF inv, of s e] by (auto simp: heap' r_def split: if_splits)
    have "cell_ok B (set (tunData w')) r d'"
      using d nB dgram_ok_sync [OF d(1,2)] by (simp add: cell_ok_def d'_def seg_simps heap')
    moreover have "cell_ok B (set (tunData w')) s e" if "cell_ok B (set (tunData w)) s e" "s \<noteq> r" for s e
      using that by (simp add: cell_ok_def heap')
    ultimately show "cell_ok B (set (tunData w')) s e" if "heap w' s = Some e" for s e
      using that own_invD(4) [OF inv, of s e] by (cases "s = r") (auto simp: heap')
  qed (use own_invD(1) [OF inv] nB in \<open>simp add: heap'\<close>)
  moreover have "same_view B w w'" using nB by (auto simp: same_view_def heap')
  ultimately show ?thesis using heap'(4) by blast
qed

section \<open>The invariant\<close>

fun is_back :: "udp_effect \<Rightarrow> bool" where
  "is_back (U_TRAFFIC_BACK n m) = True"
| "is_back _ = False"

definition backs :: "udp_session \<Rightarrow> nat" where
  "backs s = length (filter is_back (uEffects s))"

text \<open>
  \<open>B\<close> are the datagrams other sessions hold, \<open>L\<close> those this session relayed and nobody will free.
\<close>

definition udp_inv :: "nat \<Rightarrow> ref set \<Rightarrow> ref set \<Rightarrow> udp_session \<Rightarrow> bool" where
  "udp_inv k B L s \<longleftrightarrow> own_inv (B \<union> L) s \<and> B \<inter> L = {} \<and> finite L
     \<and> card L + k = (if uTunnel s = None then backs s else 0)
     \<and> uIPVer s = 4 \<and> (\<forall>sg \<in> set (uOutBuffer s). seg_full sg)
     \<and> (uAlive s \<longrightarrow> uReactor s) \<and> (uOpen s \<longrightarrow> uReactor s)
     \<and> (case uTunnel s of None \<Rightarrow> True | Some p \<Rightarrow> sound p \<and> \<not> uOpen s)"

definition udp_ok :: "nat \<Rightarrow> ref set \<Rightarrow> ref set \<Rightarrow> udp_session \<Rightarrow> udp_session \<Rightarrow> bool" where
  "udp_ok k B L s s' \<longleftrightarrow> (\<exists>L'. udp_inv k B L' s' \<and> L \<subseteq> L' \<and> same_view (B \<union> L) s s' \<and> (uTunnel s' = None \<longleftrightarrow> uTunnel s = None))"

lemma udp_ok_trans [trans]:
  assumes "udp_ok k B L s1 s2" "\<And>L'. udp_inv k B L' s2 \<Longrightarrow> udp_ok k B L' s2 s3"
  shows "udp_ok k B L s1 s3"
proof -
  obtain L1 where L1: "udp_inv k B L1 s2" "L \<subseteq> L1" "same_view (B \<union> L) s1 s2" "uTunnel s2 = None \<longleftrightarrow> uTunnel s1 = None"
    using assms(1) by (auto simp: udp_ok_def)
  from assms(2) [OF L1(1)] obtain L2 where L2: "udp_inv k B L2 s3" "L1 \<subseteq> L2" "same_view (B \<union> L1) s2 s3"
      "uTunnel s3 = None \<longleftrightarrow> uTunnel s2 = None" by (auto simp: udp_ok_def)
  have "same_view (B \<union> L) s2 s3" using L2(3) L1(2) by (auto intro: same_view_mono)
  with L1(3) have "same_view (B \<union> L) s1 s3" by (rule same_view_trans)
  then show ?thesis using L1 L2 unfolding udp_ok_def by (intro exI [of _ L2]) auto
qed

text \<open>Changes of the session's own fields that keep what the invariant reads.\<close>

lemma udp_ok_local:
  assumes inv: "udp_inv k B L s"
    and same: "heap s' = heap s" "tunData s' = tunData s" "next_ref s' = next_ref s"
      "uIPVer s' = uIPVer s" "backs s' = (if uTunnel s = None then backs s else backs s')"
      "uTunnel s' = None \<longleftrightarrow> uTunnel s = None"
    and new: "\<forall>sg \<in> set (uOutBuffer s'). seg_full sg" "uAlive s' \<longrightarrow> uReactor s'" "uOpen s' \<longrightarrow> uReactor s'"
      "case uTunnel s' of None \<Rightarrow> True | Some p \<Rightarrow> sound p \<and> \<not> uOpen s'"
  shows "udp_ok k B L s s'"
proof -
  have "own_inv (B \<union> L) s' = own_inv (B \<union> L) s" using same(1-3) by (rule own_inv_frame)
  then have "udp_inv k B L s'" using inv same new by (auto simp: udp_inv_def split: if_splits)
  moreover have "same_view (B \<union> L) s s'" using same(1) by (simp add: same_view_def)
  ultimately show ?thesis using same(6) by (auto simp: udp_ok_def)
qed

lemma udp_ok_refl: "udp_inv k B L s \<Longrightarrow> udp_ok k B L s s"
  by (auto simp: udp_ok_def same_view_refl)

lemma udp_close_ok: "udp_inv k B L s \<Longrightarrow> udp_ok k B L s (udp_close s)"
  by (rule udp_ok_local) (auto simp: udp_close_def udp_inv_def backs_def Let_def split: option.splits)

section \<open>The handlers\<close>

lemma payload_size:
  assumes "0 < getPayloadLen ip"
  shows "unat (word_of_int (getPayloadLen ip) :: size_t) = nat (getPayloadLen ip)" "nat (getPayloadLen ip) \<le> 65535"
    "length (payload_bytes ip (word_of_int (getPayloadLen ip))) = nat (getPayloadLen ip)"
    "payload_bytes ip (word_of_int (getPayloadLen ip)) = ip_payload ip (nat (getPayloadLen ip))"
proof -
  have "unat (getTTLEN ip) < 2 ^ 16" using unsigned_less [of "getTTLEN ip"] by simp
  then have ttl: "unat (getTTLEN ip) \<le> 65535" by simp
  then show le: "nat (getPayloadLen ip) \<le> 65535" unfolding getPayloadLen_def by linarith
  have "word_of_int (getPayloadLen ip) = (word_of_nat (nat (getPayloadLen ip)) :: size_t)" using assms by simp
  then show un: "unat (word_of_int (getPayloadLen ip) :: size_t) = nat (getPayloadLen ip)"
    using le by simp
  have "nat (getPayloadLen ip) \<le> 65535 - getPayloadOffset ip" using ttl assms unfolding getPayloadLen_def by linarith
  then show "payload_bytes ip (word_of_int (getPayloadLen ip)) = ip_payload ip (nat (getPayloadLen ip))"
    using un by (simp add: payload_bytes_def min_absorb1)
  then show "length (payload_bytes ip (word_of_int (getPayloadLen ip))) = nat (getPayloadLen ip)"
    by (simp add: ip_payload_def)
qed

text \<open>The segment of an accepted datagram holds its payload.\<close>

lemma accept_segment_full:
  assumes "0 < getPayloadLen ip"
  shows "\<exists>sg. seg_write (payload_bytes ip (word_of_int (getPayloadLen ip))) (word_of_int (getPayloadLen ip))
       (buffer_segment_new (word_of_int (getPayloadLen ip))) = Some (word_of_int (getPayloadLen ip), sg)
     \<and> seg_full sg \<and> seg_bytes sg = ip_payload ip (nat (getPayloadLen ip))"
proof -
  define len where "len = (word_of_int (getPayloadLen ip) :: size_t)"
  note ps = payload_size [OF assms, folded len_def]
  have b: "mData (buffer_segment_new len) = mData (segment_new len)" "mSize (buffer_segment_new len) = mSize (segment_new len)"
      "mPos (buffer_segment_new len) = 0" "mLimit (buffer_segment_new len) = 0"
      "mMarkPos (buffer_segment_new len) = 0" "mMarkLimit (buffer_segment_new len) = 0"
    by (simp_all add: buffer_segment_new_def buffer_segment.defs segment.defs segment_new_def)
  have ok: "\<not> len < 1" "\<not> seg_max < len" using ps(1,2) assms by (simp_all add: word_less_nat_alt seg_max_def)
  then have sz: "mSize (segment_new len) = len" "mData (segment_new len) = Some (replicate (unat len) 0)"
    by (simp_all add: segment_new_def)
  have inv: "seg_inv (buffer_segment_new len)" using ps(1,2) by (simp add: seg_inv_nat b sz)
  have rem: "seg_remain (buffer_segment_new len) = len" by (simp add: seg_remain_def b sz)
  have empty: "seg_bytes (buffer_segment_new len) = []" by (simp add: seg_bytes_def b sz)
  obtain sg where w: "seg_write (payload_bytes ip len) len (buffer_segment_new len) = Some (len, sg)"
      "seg_inv sg" "seg_bytes sg = payload_bytes ip len"
    using seg_write_cases [OF inv, of len "payload_bytes ip len"] ps rem empty by auto
  have "seg_bytes sg \<noteq> []" using w(3) ps assms by (metis length_0_conv less_le_not_le nat_0_iff zero_less_nat_eq order_refl)
  then show ?thesis using w ps(4) unfolding len_def [symmetric] by (auto simp: seg_full_def)
qed

lemma requestSendData_sound:
  assumes "sound p" shows "\<exists>p'. requestSendData p = Some p' \<and> sound p'"
  using do_act_total [of p A_requestSendData] do_act_sound [of A_requestSendData p] assms by (auto simp: sound_def)

text \<open>The datagram is counted, captured and queued; then the socket or the tunnel is asked for a write event.\<close>

lemma udp_accept_queued:
  assumes alive: "uAlive s" and ip: "0 < getPayloadLen ip" and log: "accept_text ip junk \<noteq> None"
  obtains s' sg where "seg_full sg"
    "heap s' = heap s" "tunData s' = tunData s" "next_ref s' = next_ref s" "uIPVer s' = uIPVer s"
    "backs s' = backs s" "uTunnel s' = uTunnel s" "uOutBuffer s' = uOutBuffer s @ [sg]" "uAlive s' = uAlive s"
    "uReactor s' = uReactor s" "uOpen s' = uOpen s" "uCtrlType s' = uCtrlType s"
    "udp_accept ip now junk s =
      (case uTunnel s' of
         Some p \<Rightarrow> if uCtrlType s' = CTRL_PROXY
                   then do { p1 \<leftarrow> requestSendData p; Some (s'\<lparr>uTunnel := Some p1\<rparr>) }
                   else if uReactor s' then Some (if uOpen s' then s'\<lparr>uWriteEv := True\<rparr> else s') else None
       | None \<Rightarrow> if uReactor s' then Some (if uOpen s' then s'\<lparr>uWriteEv := True\<rparr> else s') else None)
      \<bind> (\<lambda>s4. Some (0, s4\<lparr>uLastTime := now\<rparr>))"
proof -
  define len where "len = (word_of_int (getPayloadLen ip) :: size_t)"
  define s1 where "s1 = s\<lparr>uTotalAccept := uTotalAccept s + len\<rparr>"
  define s2 where "s2 = (if (uCtrlType s1 AND CTRL_CAPTURE) \<noteq> 0
                   then s1\<lparr>captured := captured s1 @ [map ip [0..<unat (getTTLEN ip)]]\<rparr> else s1)"
  define s3 where "s3 = udp_emit (U_TRAFFIC_ACCEPT (uTotalAccept s2) len) s2"
  obtain sg where sg: "seg_write (payload_bytes ip len) len (buffer_segment_new len) = Some (len, sg)" "seg_full sg"
    using accept_segment_full [OF ip] unfolding len_def by blast
  define s' where "s' = s3\<lparr>uOutBuffer := bq_push sg (uOutBuffer s3)\<rparr>"
  obtain line where line: "accept_text ip junk = Some line" using log by blast
  show ?thesis
  proof (rule that [OF sg(2), of s'])
    show "udp_accept ip now junk s =
      (case uTunnel s' of
         Some p \<Rightarrow> if uCtrlType s' = CTRL_PROXY
                   then do { p1 \<leftarrow> requestSendData p; Some (s'\<lparr>uTunnel := Some p1\<rparr>) }
                   else if uReactor s' then Some (if uOpen s' then s'\<lparr>uWriteEv := True\<rparr> else s') else None
       | None \<Rightarrow> if uReactor s' then Some (if uOpen s' then s'\<lparr>uWriteEv := True\<rparr> else s') else None)
      \<bind> (\<lambda>s4. Some (0, s4\<lparr>uLastTime := now\<rparr>))"
      by (simp only: udp_accept_def line alive not_True_eq_False if_False Let_def len_def [symmetric] s1_def [symmetric]
          s2_def [symmetric] s3_def [symmetric] sg(1) Option.bind.simps prod.case refl if_True s'_def [symmetric])
  qed (auto simp: s'_def s3_def s2_def s1_def udp_emit_def backs_def bq_push_def)
qed

lemma udp_accept_ok:
  assumes inv: "udp_inv k B L s" and ip: "0 < getPayloadLen ip" and log: "accept_text ip junk \<noteq> None"
  shows "\<exists>n s'. udp_accept ip now junk s = Some (n, s') \<and> udp_ok k B L s s'"
proof (cases "uAlive s")
  case False
  then show ?thesis using inv udp_ok_refl by (simp add: udp_accept_def)
next
  case True
  obtain s' sg where sg: "seg_full sg"
    and f: "heap s' = heap s" "tunData s' = tunData s" "next_ref s' = next_ref s" "uIPVer s' = uIPVer s"
      "backs s' = backs s" "uTunnel s' = uTunnel s" "uOutBuffer s' = uOutBuffer s @ [sg]" "uAlive s' = uAlive s"
      "uReactor s' = uReactor s" "uOpen s' = uOpen s" "uCtrlType s' = uCtrlType s"
    and run: "udp_accept ip now junk s =
      (case uTunnel s' of
         Some p \<Rightarrow> if uCtrlType s' = CTRL_PROXY
                   then do { p1 \<leftarrow> requestSendData p; Some (s'\<lparr>uTunnel := Some p1\<rparr>) }
                   else if uReactor s' then Some (if uOpen s' then s'\<lparr>uWriteEv := True\<rparr> else s') else None
       | None \<Rightarrow> if uReactor s' then Some (if uOpen s' then s'\<lparr>uWriteEv := True\<rparr> else s') else None)
      \<bind> (\<lambda>s4. Some (0, s4\<lparr>uLastTime := now\<rparr>))"
    by (rule udp_accept_queued [OF True ip log])
  have re: "uReactor s'" using inv True f by (simp add: udp_inv_def)
  have full: "\<forall>sg \<in> set (uOutBuffer s'). seg_full sg" using inv sg f by (simp add: udp_inv_def)
  define s4 where "s4 = (if uOpen s' then s'\<lparr>uWriteEv := True\<rparr> else s')"
  have direct: "udp_ok k B L s (s4\<lparr>uLastTime := now\<rparr>)"
    using inv full re f by (intro udp_ok_local [OF inv]) (auto simp: s4_def backs_def udp_inv_def split: option.splits)
  show ?thesis
  proof (cases "uTunnel s")
    case None
    then show ?thesis using direct re f by (simp add: run s4_def)
  next
    case (Some p)
    then have sp: "sound p" "\<not> uOpen s" using inv by (simp_all add: udp_inv_def)
    obtain p1 where p1: "requestSendData p = Some p1" "sound p1" using requestSendData_sound [OF sp(1)] by blast
    have "udp_ok k B L s ((s'\<lparr>uTunnel := Some p1\<rparr>)\<lparr>uLastTime := now\<rparr>)"
      using inv full re f p1(2) sp Some by (intro udp_ok_local [OF inv]) (auto simp: backs_def)
    then show ?thesis using direct f re p1(1) Some by (simp add: run s4_def)
  qed
qed

text \<open>A live session whose log line does not return, or whose datagram's length field does not cover its headers, has no outcome.\<close>

lemma udp_accept_undefined:
  assumes "uAlive s" "accept_text ip junk = None \<or> getPayloadLen ip < 0"
  shows "udp_accept ip now junk s = None"
proof (cases "accept_text ip junk")
  case None
  then show ?thesis using assms(1) by (simp add: udp_accept_def Let_def)
next
  case (Some line)
  define l where "l = (word_of_int (getPayloadLen ip) :: size_t)"
  have l: "seg_max < l" "l \<noteq> 0" using assms(2) Some short_size [OF _ l_def] by auto
  define sg where "sg = buffer_segment_new l"
  have sg: "mData sg = None" "mSize sg = 0" "mLimit sg = 0"
    using l(1) by (simp_all add: sg_def buffer_segment_new_def buffer_segment.defs segment.defs segment_new_def)
  then have "seg_write (payload_bytes ip l) l sg = Some (0, sg)"
    using l(2) by (simp add: seg_write_def word_neq_0_conv)
  then show ?thesis
    using assms(1) Some l(2) sg(1)
    by (simp add: udp_accept_def l_def [symmetric] sg_def [symmetric] seg_delete_ok_def Let_def)
qed

lemma udp_accept_cases:
  assumes "udp_inv k B L s" "getPayloadLen ip \<noteq> 0"
  shows "if uAlive s \<and> (accept_text ip junk = None \<or> getPayloadLen ip < 0) then udp_accept ip now junk s = None
    else (\<exists>n s'. udp_accept ip now junk s = Some (n, s') \<and> udp_ok k B L s s')"
proof (cases "uAlive s")
  case False
  then show ?thesis using assms(1) udp_ok_refl by (simp add: udp_accept_def)
next
  case True
  then show ?thesis
    using udp_accept_undefined [of s ip junk now] udp_accept_ok [OF assms(1), of ip junk now] assms(2)
    by (auto simp: not_less)
qed

lemma udp_relay_ok:
  assumes inv: "udp_inv k B L s" and len: "length chunk \<le> 61440"
  shows "\<exists>s'. udp_relay chunk s = Some s' \<and> udp_ok k B L s s' \<and> router.more s' = router.more s"
proof -
  have "uIPVer s = 4" using inv by (simp add: udp_inv_def)
  then obtain d where d: "buildPacket chunk s = Some d" by (auto simp: buildPacket_def Let_def)
  note ok = buildPacket_ok [OF d]
  have ok': "dgram_ok (d\<lparr>mReleaseAfterBuffering := True\<rparr>)"
    using ok len by (simp add: dgram_ok_def packet_bytes_def)
  have own: "own_inv (B \<union> L) s" using inv by (simp add: udp_inv_def)
  obtain s' where s': "onSyncEvent (fst (alloc (d\<lparr>mReleaseAfterBuffering := True\<rparr>) s)) (snd (alloc (d\<lparr>mReleaseAfterBuffering := True\<rparr>) s)) = Some (0, s')"
      "own_inv (B \<union> L) s'" "same_view (B \<union> L) s s'" "router.more s' = router.more s"
    using own_inv_relay [OF own ok'] ok len by auto
  have "udp_relay chunk s = Some s'"
    using s'(1) d by (simp add: udp_relay_def split_beta)
  moreover have more: "uIPVer s' = uIPVer s" "backs s' = backs s" "uTunnel s' = uTunnel s" "uOutBuffer s' = uOutBuffer s"
      "uAlive s' = uAlive s" "uReactor s' = uReactor s" "uOpen s' = uOpen s"
    using s'(4) by (cases s; cases s'; simp add: backs_def)+
  then have "udp_inv k B L s'" using inv s'(2) by (cases "uTunnel s") (simp_all add: udp_inv_def)
  ultimately show ?thesis using s'(3,4) more by (auto simp: udp_ok_def)
qed

lemma udp_onReadable_ok:
  assumes inv: "udp_inv k B L s" and len: "\<forall>data. rd = Some data \<longrightarrow> length data \<le> 61440" and op: "uOpen s"
  shows "\<exists>s'. udp_onReadable rd s = Some s' \<and> udp_ok k B L s s' \<and> (rd \<noteq> None \<longrightarrow> backs s' = Suc (backs s))"
proof (cases rd)
  case None
  then show ?thesis using udp_close_ok [OF inv] by (simp add: udp_onReadable_def)
next
  case (Some data)
  have tun: "uTunnel s = None" using inv op by (auto simp: udp_inv_def split: option.splits)
  define ln where "ln = (word_of_nat (length data) :: u32)"
  define s1 where "s1 = s\<lparr>uTotalRecv := uTotalRecv s + ln\<rparr>"
  define s2 where "s2 = udp_emit (U_TRAFFIC_RECV (uTotalRecv s1) ln) s1"
  have "uIPVer s2 = 4" using inv by (simp add: udp_inv_def s2_def s1_def udp_emit_def)
  then obtain d where d: "buildPacket data s2 = Some d" by (auto simp: buildPacket_def Let_def)
  have ln: "length data \<le> 65535" using len Some by fastforce
  note ok = buildPacket_ok [OF d ln]
  define d1 where "d1 = d\<lparr>mNeedCapture := (uCtrlType s2 AND CTRL_CAPTURE) \<noteq> 0\<rparr>"
  have d1: "dgram_ok d1" "\<not> mBuffering d1" "\<not> mReleaseAfterBuffering d1" "\<not> mAbort d1"
    using ok by (simp_all add: d1_def dgram_ok_def packet_bytes_def)
  define s3 where "s3 = s2\<lparr>uTotalBack := uTotalBack s2 + ln\<rparr>"
  have eq: "heap s3 = heap s" "tunData s3 = tunData s" "next_ref s3 = next_ref s"
    by (simp_all add: s3_def s2_def s1_def udp_emit_def)
  have own: "own_inv (B \<union> L) s3" using inv own_inv_frame [OF eq] by (simp add: udp_inv_def)
  obtain r s4 where al: "alloc d1 s3 = (r, s4)" by fastforce
  note a = own_inv_alloc [OF own d1 al]
  obtain c s5 where sy: "onSyncEvent r s4 = Some (c, s5)" "own_inv (insert r (B \<union> L)) s5" "router.more s5 = router.more s4"
    using onSyncEvent_owned [OF a(1), of r] by auto
  define s6 where "s6 = udp_emit (U_TRAFFIC_BACK (uTotalBack s5) ln) s5"
  have m4: "router.more s4 = router.more s3" using al by (auto simp: alloc_def)
  have more: "router.more s5 = router.more s3" using sy(3) m4 by simp
  have f: "uIPVer s5 = uIPVer s" "uEffects s5 = uEffects s @ [U_TRAFFIC_RECV (uTotalRecv s1) ln]" "uTunnel s5 = uTunnel s"
      "uOutBuffer s5 = uOutBuffer s" "uAlive s5 = uAlive s" "uReactor s5 = uReactor s" "uOpen s5 = uOpen s"
    using more by (cases s; cases s5; simp add: s3_def s2_def s1_def udp_emit_def)+
  have run: "udp_onReadable rd s = Some s6"
    by (simp only: udp_onReadable_def Some option.case Let_def ln_def [symmetric] s1_def [symmetric] s2_def [symmetric]
        d d1_def [symmetric] s3_def [symmetric] al prod.case sy(1) s6_def Option.bind.simps)
  have own6: "own_inv (B \<union> insert r L) s6"
  proof -
    have "own_inv (insert r (B \<union> L)) s6 = own_inv (insert r (B \<union> L)) s5"
      by (rule own_inv_frame) (simp_all add: s6_def udp_emit_def)
    then show ?thesis using sy(2) by simp
  qed
  have inv6: "udp_inv k B (insert r L) s6"
    using inv own6 a(3) f tun by (auto simp: udp_inv_def s6_def udp_emit_def backs_def)
  have "same_view (B \<union> L) s4 s5" by (rule onSyncEvent_view [OF sy(1)])
  moreover have "same_view (B \<union> L) s s4" using al a(3) eq by (auto simp: same_view_def alloc_def)
  ultimately have "same_view (B \<union> L) s s6"
    by (auto simp: same_view_def s6_def udp_emit_def)
  moreover have "backs s6 = Suc (backs s)" using f by (simp add: s6_def udp_emit_def backs_def)
  ultimately show ?thesis using run inv6 f tun by (auto simp: udp_ok_def s6_def udp_emit_def)
qed

text \<open>What a loop over the queue does with the front segment.\<close>

lemma seg_full_take:
  assumes "seg_full sg" "n \<le> length (seg_bytes sg)"
  shows "seg_bytes (seg_consume (word_of_nat n) sg) = drop n (seg_bytes sg)"
    "seg_size (seg_consume (word_of_nat n) sg) \<le> 0 \<longleftrightarrow> n = length (seg_bytes sg)"
    "seg_delete_ok (seg_consume (word_of_nat n) sg)"
    "n < length (seg_bytes sg) \<Longrightarrow> seg_full (seg_consume (word_of_nat n) sg)"
proof -
  have inv: "seg_inv sg" and ne: "seg_bytes sg \<noteq> []" using assms(1) by (simp_all add: seg_full_def)
  show b: "seg_bytes (seg_consume (word_of_nat n) sg) = drop n (seg_bytes sg)"
    "seg_size (seg_consume (word_of_nat n) sg) \<le> 0 \<longleftrightarrow> n = length (seg_bytes sg)"
    using seg_consume_full [OF inv assms(2)] by simp_all
  show "n < length (seg_bytes sg) \<Longrightarrow> seg_full (seg_consume (word_of_nat n) sg)"
    using b(1) seg_consume_inv [OF inv] by (simp add: seg_full_def)
  have "mData sg \<noteq> None" using ne by (auto simp: seg_bytes_def split: option.splits)
  then show "seg_delete_ok (seg_consume (word_of_nat n) sg)"
    by (simp add: seg_delete_ok_def seg_consume_def)
qed

lemma seg_full_size: "seg_full sg \<Longrightarrow> uint (seg_size sg) = int (length (seg_bytes sg))"
  using seg_size_bytes [of sg] unfolding seg_full_def uint_nat by simp

definition udp_pending :: "udp_session \<Rightarrow> bytes list" where
  "udp_pending s = map seg_bytes (uOutBuffer s)"

text \<open>Everything but the queue and the wire.\<close>

definition udp_rest :: "udp_session \<Rightarrow> udp_session" where
  "udp_rest s = s\<lparr>uOutBuffer := [], uWire := []\<rparr>"

lemma udp_rest_update [simp]: "udp_rest (s\<lparr>uOutBuffer := q, uWire := w\<rparr>) = udp_rest s"
  by (simp add: udp_rest_def)

lemma udp_rest_fields:
  assumes "udp_rest s' = udp_rest s"
  shows "heap s' = heap s" "tunData s' = tunData s" "next_ref s' = next_ref s" "uIPVer s' = uIPVer s"
    "uTunnel s' = uTunnel s" "uAlive s' = uAlive s" "uReactor s' = uReactor s" "uOpen s' = uOpen s" "uEffects s' = uEffects s"
    "uTotalSent s' = uTotalSent s"
  using assms by (cases s; cases s'; simp add: udp_rest_def)+

text \<open>The loop of the socket. A datagram socket takes a datagram as a whole or not at all.\<close>

lemma udp_write_loop_one:
  assumes q: "uOutBuffer s = sg # sgs" and full: "\<forall>sg \<in> set (uOutBuffer s). seg_full sg"
  shows "udp_write_loop (k # ks) sent s = Some (sent, s)
    \<or> (\<exists>m s1. udp_write_loop (k # ks) sent s = udp_write_loop ks m s1 \<and> (\<forall>sg \<in> set (uOutBuffer s1). seg_full sg)
          \<and> udp_rest s1 = udp_rest s \<and> (k < 0 \<or> 524288 \<le> k \<longrightarrow> uWire s1 @ udp_pending s1 = uWire s @ udp_pending s))"
proof -
  have sg: "seg_full sg" "\<forall>sg \<in> set sgs. seg_full sg" using full q by simp_all
  define n where "n = min k (uint (seg_size sg))"
  show ?thesis
  proof (cases "n < 0")
    case True
    then show ?thesis using q by (simp add: udp_write_loop.simps n_def [symmetric])
  next
    case False
    define m where "m = nat n"
    have m: "n = int m" "m \<le> length (seg_bytes sg)" "word_of_int n = (word_of_nat m :: u32)"
      using False seg_full_size [OF sg(1)] by (auto simp: m_def n_def)
    note tk = seg_full_take [OF sg(1) m(2)]
    define sg1 where "sg1 = seg_consume (word_of_nat m) sg"
    define q1 where "q1 = (if seg_size sg1 \<le> 0 then sgs else sg1 # sgs)"
    define s1 where "s1 = s\<lparr>uWire := uWire s @ [take m (seg_bytes sg)], uOutBuffer := q1\<rparr>"
    have "udp_write_loop (k # ks) sent s = udp_write_loop ks (sent + word_of_nat m) s1"
      using q False tk(3) m by (subst udp_write_loop.simps) (simp add: n_def [symmetric] sg1_def [symmetric] s1_def q1_def)
    moreover have "\<forall>sg \<in> set (uOutBuffer s1). seg_full sg"
      using sg tk m(2) by (auto simp: s1_def q1_def sg1_def [symmetric])
    moreover have "udp_rest s1 = udp_rest s" by (simp add: s1_def udp_rest_def)
    moreover have "uWire s1 @ udp_pending s1 = uWire s @ udp_pending s" if "k < 0 \<or> 524288 \<le> k"
    proof -
      have "length (seg_bytes sg) \<le> 524288" using sg(1) seg_bytes_le [of sg] by (simp add: seg_full_def)
      then have all: "m = length (seg_bytes sg)" using that False seg_full_size [OF sg(1)] by (auto simp: m_def n_def)
      then have "seg_size sg1 \<le> 0" using tk(2) by (simp only: sg1_def)
      then have "q1 = sgs" by (simp only: q1_def if_True)
      then show ?thesis using q all by (simp add: s1_def udp_pending_def)
    qed
    ultimately show ?thesis by blast
  qed
qed

lemma udp_write_loop_effect:
  "\<forall>sg \<in> set (uOutBuffer s). seg_full sg \<Longrightarrow>
   \<exists>sent' s'. udp_write_loop ks sent s = Some (sent', s')
     \<and> (\<forall>sg \<in> set (uOutBuffer s'). seg_full sg) \<and> udp_rest s' = udp_rest s
     \<and> ((\<forall>k \<in> set ks. k < 0 \<or> 524288 \<le> k) \<longrightarrow> uWire s' @ udp_pending s' = uWire s @ udp_pending s)"
proof (induction ks arbitrary: sent s)
  case Nil
  then show ?case by (cases "uOutBuffer s") (auto simp: udp_write_loop.simps)
next
  case (Cons k ks)
  show ?case
  proof (cases "uOutBuffer s")
    case Nil
    then show ?thesis using Cons.prems by (auto simp: udp_write_loop.simps)
  next
    case q: (Cons sg sgs)
    show ?thesis
      using udp_write_loop_one [OF q Cons.prems, of k ks sent]
    proof (elim disjE exE conjE)
      fix m s1
      assume s1: "udp_write_loop (k # ks) sent s = udp_write_loop ks m s1" "\<forall>sg \<in> set (uOutBuffer s1). seg_full sg"
        "udp_rest s1 = udp_rest s" "k < 0 \<or> 524288 \<le> k \<longrightarrow> uWire s1 @ udp_pending s1 = uWire s @ udp_pending s"
      from Cons.IH [OF s1(2), of m] show ?thesis using s1 by auto
    qed (use Cons.prems in auto)
  qed
qed

lemma udp_sent_frame [simp]:
  "heap (udp_sent n s) = heap s" "tunData (udp_sent n s) = tunData s" "next_ref (udp_sent n s) = next_ref s"
  "uIPVer (udp_sent n s) = uIPVer s" "backs (udp_sent n s) = backs s" "uTunnel (udp_sent n s) = uTunnel s"
  "uOutBuffer (udp_sent n s) = uOutBuffer s" "uAlive (udp_sent n s) = uAlive s" "uWire (udp_sent n s) = uWire s"
  "uReactor (udp_sent n s) = uReactor s" "uOpen (udp_sent n s) = uOpen s" "udp_pending (udp_sent n s) = udp_pending s"
  by (simp_all add: udp_sent_def udp_emit_def backs_def Let_def udp_pending_def)

lemma udp_onWritable_ok:
  assumes inv: "udp_inv k B L s" and re: "uReactor s"
  shows "\<exists>s'. udp_onWritable ks s = Some s' \<and> udp_ok k B L s s'
    \<and> ((\<forall>k \<in> set ks. k < 0 \<or> 524288 \<le> k) \<longrightarrow> uWire s' @ udp_pending s' = uWire s @ udp_pending s) \<and> uAlive s' = uAlive s
    \<and> uTunnel s' = uTunnel s"
proof (cases "uOutBuffer s = []")
  case True
  have "udp_ok k B L s (s\<lparr>uWriteEv := False\<rparr>)"
    using inv by (intro udp_ok_local [OF inv]) (auto simp: backs_def udp_inv_def split: option.splits)
  then show ?thesis using True re by (simp add: udp_onWritable_def udp_pending_def)
next
  case False
  have "\<forall>sg \<in> set (uOutBuffer s). seg_full sg" using inv by (simp add: udp_inv_def)
  from udp_write_loop_effect [OF this, of ks 0] obtain n s1 where r: "udp_write_loop ks 0 s = Some (n, s1)"
      "\<forall>sg \<in> set (uOutBuffer s1). seg_full sg" "udp_rest s1 = udp_rest s"
      "(\<forall>k \<in> set ks. k < 0 \<or> 524288 \<le> k) \<longrightarrow> uWire s1 @ udp_pending s1 = uWire s @ udp_pending s" by blast
  note f = udp_rest_fields [OF r(3)]
  have "backs s1 = backs s" by (simp add: backs_def f)
  then have "udp_ok k B L s (udp_sent n s1)"
    using inv r(2) f by (intro udp_ok_local [OF inv]) (auto simp: udp_inv_def split: option.splits)
  then show ?thesis using False r(1,4) f by (simp add: udp_onWritable_def)
qed

text \<open>The callbacks of the tunnel.\<close>

lemma udp_relay_loop_ok:
  "udp_inv k B L s \<Longrightarrow> uTunnel s \<noteq> None \<Longrightarrow>
   \<exists>i' s'. udp_relay_loop len data i s = Some (i', s') \<and> udp_ok k B L s s'"
proof (induction len data i s arbitrary: L rule: udp_relay_loop.induct)
  case (1 len data i s)
  show ?case
  proof (cases "data = []")
    case True
    then show ?thesis using 1(2) udp_ok_refl by (simp add: udp_relay_loop.simps)
  next
    case False
    define s1 where "s1 = udp_emit (U_TRAFFIC_RECV (uTotalRecv s) len) s"
    have st1: "udp_ok k B L s s1"
      using 1(2) by (intro udp_ok_local [OF 1(2)]) (auto simp: s1_def udp_emit_def backs_def udp_inv_def split: option.splits)
    then obtain L1 where L1: "udp_inv k B L1 s1" unfolding udp_ok_def by blast
    have chunk: "length (take MAX_IP_SIZE data) \<le> 61440" by (simp add: MAX_IP_SIZE_def)
    obtain s2 where s2: "udp_relay (take MAX_IP_SIZE data) s1 = Some s2" "router.more s2 = router.more s1"
      using udp_relay_ok [OF L1 chunk] by blast
    have st2: "udp_ok k B L s s2"
    proof (rule udp_ok_trans [OF st1])
      fix L' assume "udp_inv k B L' s1"
      from udp_relay_ok [OF this chunk] s2(1) show "udp_ok k B L' s1 s2" by auto
    qed
    then obtain L2 where L2: "udp_inv k B L2 s2" "uTunnel s2 \<noteq> None" using 1(3) unfolding udp_ok_def by blast
    obtain i' s' where s': "udp_relay_loop len (drop MAX_IP_SIZE data) (i + word_of_nat (length (take MAX_IP_SIZE data))) s2 = Some (i', s')"
      using 1(1) [OF False refl s2(1) [unfolded s1_def] L2] by blast
    have "udp_ok k B L s s'"
    proof (rule udp_ok_trans [OF st2])
      fix L' assume "udp_inv k B L' s2"
      from 1(1) [OF False refl s2(1) [unfolded s1_def] this L2(2)] s' show "udp_ok k B L' s2 s'" by auto
    qed
    then show ?thesis using False s2(1) s' by (subst udp_relay_loop.simps) (simp add: s1_def Let_def)
  qed
qed

lemma udp_onTunnelDataBack_ok:
  assumes inv: "udp_inv k B L s" and tun: "uTunnel s \<noteq> None"
  shows "\<exists>s'. udp_onTunnelDataBack data now s = Some s' \<and> udp_ok k B L s s'"
proof (cases "data = []")
  case True
  obtain p where p: "uTunnel s = Some p" "sound p" using inv tun by (auto simp: udp_inv_def)
  obtain p1 where p1: "pauseReceiveData p = Some p1" "sound p1"
    using do_act_total [of p A_pauseReceiveData] do_act_sound [of A_pauseReceiveData p] p(2) by (auto simp: sound_def)
  have "udp_ok k B L s ((udp_close (s\<lparr>uTunnel := Some p1\<rparr>))\<lparr>uLastTime := now\<rparr>)"
    using inv p p1(2) by (intro udp_ok_local [OF inv]) (auto simp: udp_close_def backs_def Let_def udp_inv_def)
  then show ?thesis using True p(1) p1(1) by (simp add: udp_onTunnelDataBack_def)
next
  case False
  obtain i s1 where r: "udp_relay_loop (word_of_nat (length data)) data 0 s = Some (i, s1)" "udp_ok k B L s s1"
    using udp_relay_loop_ok [OF inv tun] by blast
  define s4 where "s4 = (if i > 0
      then (let s2 = s1\<lparr>uTotalRecv := uTotalRecv s1 + i, uTotalBack := uTotalBack s1 + i\<rparr>
            in udp_emit (U_TRAFFIC_BACK (uTotalBack s2) i) (udp_emit (U_TRAFFIC_RECV (uTotalRecv s2) i) s2))
      else s1)"
  have "udp_ok k B L s (s4\<lparr>uLastTime := now\<rparr>)"
  proof (rule udp_ok_trans [OF r(2)])
    fix L' assume i1: "udp_inv k B L' s1"
    have "uTunnel s1 \<noteq> None" using r(2) tun by (auto simp: udp_ok_def)
    then show "udp_ok k B L' s1 (s4\<lparr>uLastTime := now\<rparr>)"
      using i1 by (intro udp_ok_local [OF i1]) (auto simp: s4_def udp_emit_def Let_def backs_def udp_inv_def)
  qed
  then show ?thesis using False r(1) by (simp add: udp_onTunnelDataBack_def s4_def)
qed

section \<open>The loop of onTunnelWritable\<close>

text \<open>The front datagram is longer than the free part of the send buffer, or the tunnel is dead: it answers 0.\<close>

definition udp_stuck :: "udp_session \<Rightarrow> bool" where
  "udp_stuck s \<longleftrightarrow> (\<exists>sg sgs p. uOutBuffer s = sg # sgs \<and> seg_full sg \<and> uTunnel s = Some p
     \<and> unat (getAvailableBufferSize p) < length (seg_bytes sg))"

lemma seg_consume_nothing: "seg_inv sg \<Longrightarrow> seg_consume 0 sg = sg"
  by (simp add: seg_consume_def seg_inv_def)

text \<open>Then nothing changes, and the loop goes on for ever.\<close>

lemma udp_stuck_runs: "udp_stuck s \<Longrightarrow> udp_tunnel_loop fuel sent s = Running s"
proof (induction fuel arbitrary: sent)
  case 0
  then show ?case by (auto simp: udp_tunnel_loop.simps udp_stuck_def)
next
  case (Suc fuel)
  then obtain sg sgs p where s: "uOutBuffer s = sg # sgs" "seg_full sg" "uTunnel s = Some p"
      "unat (getAvailableBufferSize p) < length (seg_bytes sg)" by (auto simp: udp_stuck_def)
  have "length (seg_bytes sg) \<le> 524288" using s(2) seg_bytes_le [of sg] by (simp add: seg_full_def)
  then have "unat (word_of_nat (length (seg_bytes sg)) :: u32) = length (seg_bytes sg)" by simp
  then have "sendData (seg_bytes sg) p = Some (0, p)" using s(4) by (simp add: sendData_def word_less_nat_alt)
  then have send: "tunnel_sendData (seg_bytes sg) s = Some (0, s)" using s(3) by (simp add: tunnel_sendData_def)
  have keep: "seg_consume 0 sg = sg" using s(2) by (simp add: seg_consume_nothing seg_full_def)
  have "\<not> seg_size sg \<le> 0" using seg_full_take(2) [OF s(2), of 0] s(2) keep by (simp add: seg_full_def)
  then have "udp_tunnel_loop (Suc fuel) sent s = udp_tunnel_loop fuel sent (s\<lparr>uOutBuffer := sg # sgs\<rparr>)"
    using s(1) send keep by (subst udp_tunnel_loop.simps) simp
  also have "s\<lparr>uOutBuffer := sg # sgs\<rparr> = s" using s(1) by simp
  finally have "udp_tunnel_loop (Suc fuel) sent s = udp_tunnel_loop fuel sent s" .
  then show ?case using Suc by simp
qed

text \<open>Otherwise up to 4096 bytes move from the front into a frame of the tunnel.\<close>

definition udp_chan :: "udp_session \<Rightarrow> bytes" where
  "udp_chan s = (case uTunnel s of None \<Rightarrow> [] | Some p \<Rightarrow> chan p)"

definition udp_buffered :: "udp_session \<Rightarrow> nat" where
  "udp_buffered s = (case uTunnel s of None \<Rightarrow> 0 | Some p \<Rightarrow> unat (pBufferedSize p))"

definition udp_ready :: "udp_session \<Rightarrow> bool" where
  "udp_ready s \<longleftrightarrow> (\<forall>sg \<in> set (uOutBuffer s). seg_full sg) \<and> (\<exists>p. uTunnel s = Some p \<and> sound p)"

lemma udp_tunnel_step:
  assumes ok: "udp_ready s" and q: "uOutBuffer s = sg # sgs" and ns: "\<not> udp_stuck s"
  shows "\<exists>m r s1. udp_tunnel_loop (Suc fuel) sent s = udp_tunnel_loop fuel (sent + word_of_nat (length m)) s1
     \<and> udp_ready s1 \<and> 0 < length m \<and> length m \<le> MAX_ENCRYPT_SIZE \<and> concat (udp_pending s) = m @ concat (udp_pending s1)
     \<and> udp_chan s1 = udp_chan s @ frame r m \<and> udp_buffered s1 < 266258 \<and> udp_buffered s + length m \<le> udp_buffered s1
     \<and> s1 = s\<lparr>uTunnel := uTunnel s1, uOutBuffer := uOutBuffer s1\<rparr>"
proof -
  obtain p where p: "uTunnel s = Some p" "sound p" using ok by (auto simp: udp_ready_def)
  have full: "seg_full sg" "\<forall>sg \<in> set sgs. seg_full sg" using ok q by (simp_all add: udp_ready_def)
  have len: "length (seg_bytes sg) \<le> 524288" using full(1) seg_bytes_le [of sg] by (simp add: seg_full_def)
  have ne: "seg_bytes sg \<noteq> []" using full(1) by (simp add: seg_full_def)
  have un: "unat (word_of_nat (length (seg_bytes sg)) :: u32) = length (seg_bytes sg)" using len by simp
  have room: "length (seg_bytes sg) \<le> unat (getAvailableBufferSize p)" using ns q full(1) p(1) by (auto simp: udp_stuck_def)
  then have alive: "pAlive p" using ne by (auto simp: getAvailableBufferSize_def split: if_splits)
  then have r: "pReactor p" using p(2) by (simp add: sound_def wired_def)
  have nav: "\<not> getAvailableBufferSize p < word_of_nat (length (seg_bytes sg))" using room un by (simp add: word_less_nat_alt)
  define k where "k = min (length (seg_bytes sg)) MAX_ENCRYPT_SIZE"
  have ne': "0 < length (seg_bytes sg)" using ne by simp
  obtain p1 sg' where e: "encryptAndQueue Q_OUT (seg_bytes sg) p = Some (int k, p1)"
      "p1 = (set_queue Q_OUT (queue_of Q_OUT p @ [sg']) (p\<lparr>pDrawn := pDrawn p + 1\<rparr>))
          \<lparr>pWriteEv := True, pBufferedSize := pBufferedSize p + word_of_nat (length (seg_bytes sg'))\<rparr>"
      "seg_bytes sg' = frame (pDraws p (pDrawn p)) (take MAX_ENCRYPT_SIZE (seg_bytes sg))"
    using encryptAndQueue_effect [OF r ne', of Q_OUT] unfolding k_def by blast
  define m where "m = take k (seg_bytes sg)"
  have m: "m = take MAX_ENCRYPT_SIZE (seg_bytes sg)" "length m = k" "0 < k" "k \<le> MAX_ENCRYPT_SIZE"
    using ne by (auto simp: m_def k_def MAX_ENCRYPT_SIZE_def min_def)
  have send: "sendData (seg_bytes sg) p = Some (int k, p1)" using alive nav e(1) by (simp add: sendData_def)
  have s1': "sound p1" using encryptAndQueue_sound [OF e(1) p(2)] .
  have fl: "length (seg_bytes sg') \<le> 4114" "length m \<le> length (seg_bytes sg')"
    using length_frame [of m "pDraws p (pDrawn p)"] m unfolding e(3) by auto
  have fits: "unat (pBufferedSize p) + length (seg_bytes sg) \<le> 262144" using room alive ne
    by (auto simp: getAvailableBufferSize_def unat_sub_le not_less MAX_SOCKS5_PROXY_SEND_BUFFER_def
        word_le_nat_alt split: if_splits)
  have bs: "unat (pBufferedSize p1) = unat (pBufferedSize p) + length (seg_bytes sg')"
    using fl fits unfolding e(2) by simp (subst unat_add_small, simp_all)
  define s1 where "s1 = (s\<lparr>uTunnel := Some p1\<rparr>)\<lparr>uOutBuffer :=
      (if seg_size (seg_consume (word_of_nat k) sg) \<le> 0 then sgs else seg_consume (word_of_nat k) sg # sgs)\<rparr>"
  have kle: "k \<le> length (seg_bytes sg)" by (simp add: k_def)
  note tk = seg_full_take [OF full(1) kle]
  have step: "udp_tunnel_loop (Suc fuel) sent s = udp_tunnel_loop fuel (sent + word_of_nat (length m)) s1"
    using q send p(1) tk(3) m(2) by (subst udp_tunnel_loop.simps) (simp add: tunnel_sendData_def s1_def)
  have ready: "udp_ready s1" using full tk s1' kle by (auto simp: udp_ready_def s1_def)
  have pend: "concat (udp_pending s) = m @ concat (udp_pending s1)"
    using q tk(1,2) by (cases "k = length (seg_bytes sg)") (simp_all add: udp_pending_def s1_def m_def)
  have ch: "udp_chan s1 = udp_chan s @ frame (pDraws p (pDrawn p)) m"
    using p(1) e(2,3) m(1) by (simp add: udp_chan_def s1_def chan_def set_queue_def queue_of_def queue_bytes_def)
  have "unat (pBufferedSize p1) < 266258" unfolding bs using fl(1) fits ne' by linarith
  then have "udp_buffered s1 < 266258" by (simp add: udp_buffered_def s1_def)
  moreover have "udp_buffered s + length m \<le> udp_buffered s1" using bs fl p(1) by (simp add: udp_buffered_def s1_def)
  moreover have "s1 = s\<lparr>uTunnel := uTunnel s1, uOutBuffer := uOutBuffer s1\<rparr>" by (simp add: s1_def)
  ultimately show ?thesis using step ready pend ch m by blast
qed

text \<open>What the loop carries over to the tunnel: the first bytes of the queue, as frames.\<close>

definition carried :: "((nat \<Rightarrow> nat \<Rightarrow> nat) \<times> bytes) list \<Rightarrow> udp_session \<Rightarrow> udp_session \<Rightarrow> bool" where
  "carried fs s s' \<longleftrightarrow>
     messages_ok fs \<and> udp_chan s' = udp_chan s @ frames fs \<and> udp_ready s'
     \<and> concat (udp_pending s) = concat (map snd fs) @ concat (udp_pending s')
     \<and> udp_buffered s + length (concat (map snd fs)) \<le> udp_buffered s' \<and> (if fs = [] then s' = s else udp_buffered s' < 266258)
     \<and> s' = s\<lparr>uTunnel := uTunnel s', uOutBuffer := uOutBuffer s'\<rparr>"

lemma carried_Nil: "udp_ready s \<Longrightarrow> carried [] s s"
  by (simp add: carried_def)

lemma carried_Cons:
  assumes m: "0 < length m" "length m \<le> MAX_ENCRYPT_SIZE" "concat (udp_pending s) = m @ concat (udp_pending s1)"
      "udp_chan s1 = udp_chan s @ frame r m" "udp_buffered s1 < 266258" "udp_buffered s + length m \<le> udp_buffered s1"
      "s1 = s\<lparr>uTunnel := uTunnel s1, uOutBuffer := uOutBuffer s1\<rparr>"
    and fs: "carried fs s1 s'"
  shows "carried ((r, m) # fs) s s'"
proof -
  have "s' = (s\<lparr>uTunnel := uTunnel s1, uOutBuffer := uOutBuffer s1\<rparr>)\<lparr>uTunnel := uTunnel s', uOutBuffer := uOutBuffer s'\<rparr>"
    using fs unfolding m(7) [symmetric] carried_def by blast
  then have "s' = s\<lparr>uTunnel := uTunnel s', uOutBuffer := uOutBuffer s'\<rparr>" by simp
  moreover have "udp_buffered s' < 266258" using fs m(5) by (auto simp: carried_def split: if_splits)
  ultimately show ?thesis using fs m(1-4,6) unfolding carried_def by simp
qed

text \<open>The loop ends with an empty queue or comes to a stuck state, and the bytes it moved are the first of the queue.\<close>

lemma udp_tunnel_loop_carries:
  "udp_ready s \<Longrightarrow> length (concat (udp_pending s)) < fuel \<Longrightarrow>
   \<exists>fs s'. carried fs s s'
     \<and> (udp_tunnel_loop fuel sent s = Returned (sent + word_of_nat (length (concat (map snd fs)))) s' \<and> uOutBuffer s' = []
        \<or> udp_tunnel_loop fuel sent s = Running s' \<and> udp_stuck s')"
proof (induction fuel arbitrary: sent s)
  case 0
  then show ?case by simp
next
  case (Suc fuel)
  consider "uOutBuffer s = []" | "udp_stuck s" | sg sgs where "uOutBuffer s = sg # sgs" "\<not> udp_stuck s"
    by (cases "uOutBuffer s") blast+
  then show ?case
  proof cases
    case 1
    then show ?thesis using carried_Nil [OF Suc.prems(1)]
      by (intro exI [of _ "[]"] exI [of _ s]) (simp add: udp_tunnel_loop.simps)
  next
    case 2
    then show ?thesis using carried_Nil [OF Suc.prems(1)] udp_stuck_runs [OF 2]
      by (intro exI [of _ "[]"] exI [of _ s]) simp
  next
    case 3
    obtain m r s1 where st: "udp_tunnel_loop (Suc fuel) sent s = udp_tunnel_loop fuel (sent + word_of_nat (length m)) s1"
       "udp_ready s1" "0 < length m" "length m \<le> MAX_ENCRYPT_SIZE" "concat (udp_pending s) = m @ concat (udp_pending s1)"
       "udp_chan s1 = udp_chan s @ frame r m" "udp_buffered s1 < 266258" "udp_buffered s + length m \<le> udp_buffered s1"
       "s1 = s\<lparr>uTunnel := uTunnel s1, uOutBuffer := uOutBuffer s1\<rparr>"
      using udp_tunnel_step [OF Suc.prems(1) 3] by blast
    have "length (concat (udp_pending s1)) < fuel" using Suc.prems(2) st(3) unfolding st(5) length_append by linarith
    from Suc.IH [OF st(2) this, of "sent + word_of_nat (length m)"] obtain fs s' where
      r: "carried fs s1 s'" "udp_tunnel_loop fuel (sent + word_of_nat (length m)) s1
           = Returned (sent + word_of_nat (length m) + word_of_nat (length (concat (map snd fs)))) s' \<and> uOutBuffer s' = []
         \<or> udp_tunnel_loop fuel (sent + word_of_nat (length m)) s1 = Running s' \<and> udp_stuck s'" by blast
    have "carried ((r, m) # fs) s s'" by (rule carried_Cons [OF st(3-9) r(1)])
    then show ?thesis using r(2) unfolding st(1)
      by (intro exI [of _ "(r, m) # fs"] exI [of _ s']) (simp add: add.assoc)
  qed
qed

lemmas udp_tunnel_loop_outcome = udp_tunnel_loop_carries [unfolded carried_def]

text \<open>Whatever the fuel, the loop does nothing undefined and touches only the tunnel and the queue.\<close>

definition udp_moved :: "udp_session \<Rightarrow> udp_session \<Rightarrow> bool" where
  "udp_moved s s' \<longleftrightarrow> udp_ready s' \<and> s' = s\<lparr>uTunnel := uTunnel s', uOutBuffer := uOutBuffer s'\<rparr>"

lemma udp_moved_trans: "udp_moved s1 s2 \<Longrightarrow> udp_moved s2 s3 \<Longrightarrow> udp_moved s1 s3"
proof -
  assume a: "udp_moved s1 s2" "udp_moved s2 s3"
  then have "s3 = (s1\<lparr>uTunnel := uTunnel s2, uOutBuffer := uOutBuffer s2\<rparr>)\<lparr>uTunnel := uTunnel s3, uOutBuffer := uOutBuffer s3\<rparr>"
    unfolding udp_moved_def by metis
  then have "s3 = s1\<lparr>uTunnel := uTunnel s3, uOutBuffer := uOutBuffer s3\<rparr>" by simp
  then show ?thesis using a(2) by (simp add: udp_moved_def)
qed

lemma udp_tunnel_loop_moved:
  "udp_ready s \<Longrightarrow> (\<exists>n s'. udp_tunnel_loop fuel sent s = Returned n s' \<and> udp_moved s s')
     \<or> (\<exists>s'. udp_tunnel_loop fuel sent s = Running s' \<and> udp_moved s s')"
proof (induction fuel arbitrary: sent s)
  case 0
  then show ?case by (cases "uOutBuffer s") (simp_all add: udp_tunnel_loop.simps udp_moved_def)
next
  case (Suc fuel)
  have refl: "udp_moved s s" using Suc.prems by (simp add: udp_moved_def)
  consider "uOutBuffer s = []" | "udp_stuck s" | sg sgs where "uOutBuffer s = sg # sgs" "\<not> udp_stuck s"
    by (cases "uOutBuffer s") blast+
  then show ?case
  proof cases
    case 1
    then show ?thesis using refl by (simp add: udp_tunnel_loop.simps)
  next
    case 2
    then show ?thesis using refl udp_stuck_runs by blast
  next
    case 3
    obtain m r s1 where st: "udp_tunnel_loop (Suc fuel) sent s = udp_tunnel_loop fuel (sent + word_of_nat (length m)) s1"
       "udp_ready s1" "0 < length m" "length m \<le> MAX_ENCRYPT_SIZE" "concat (udp_pending s) = m @ concat (udp_pending s1)"
       "udp_chan s1 = udp_chan s @ frame r m" "udp_buffered s1 < 266258" "udp_buffered s + length m \<le> udp_buffered s1"
       "s1 = s\<lparr>uTunnel := uTunnel s1, uOutBuffer := uOutBuffer s1\<rparr>"
      using udp_tunnel_step [OF Suc.prems 3, of fuel sent] by blast
    then have "udp_moved s s1" by (simp add: udp_moved_def)
    then show ?thesis using Suc.IH [OF st(2), of "sent + word_of_nat (length m)"] udp_moved_trans
      unfolding st(1) by blast
  qed
qed

lemma udp_moved_ok:
  assumes inv: "udp_inv k B L s" and tun: "uTunnel s \<noteq> None" and m: "udp_moved s s'"
  shows "udp_ok k B L s (udp_sent n s')"
proof -
  have eq: "s' = s\<lparr>uTunnel := uTunnel s', uOutBuffer := uOutBuffer s'\<rparr>" using m by (simp add: udp_moved_def)
  have f: "heap s' = heap s" "tunData s' = tunData s" "next_ref s' = next_ref s" "uIPVer s' = uIPVer s"
      "uAlive s' = uAlive s" "uReactor s' = uReactor s" "uOpen s' = uOpen s"
    by (subst eq; simp)+
  have op: "\<not> uOpen s" using inv tun by (auto simp: udp_inv_def)
  have t: "uTunnel s' \<noteq> None" using m by (auto simp: udp_moved_def udp_ready_def)
  show ?thesis
    using inv f m op tun t by (intro udp_ok_local [OF inv]) (auto simp: udp_inv_def udp_moved_def udp_ready_def)
qed

lemma udp_inv_ready: "udp_inv k B L s \<Longrightarrow> uTunnel s \<noteq> None \<Longrightarrow> udp_ready s"
  by (auto simp: udp_inv_def udp_ready_def)

lemma udp_onTunnelWritable_ok:
  assumes inv: "udp_inv k B L s" and tun: "uTunnel s \<noteq> None"
  shows "udp_onTunnelWritable fuel s \<noteq> Undefined
    \<and> (\<forall>n s'. udp_onTunnelWritable fuel s = Returned n s' \<longrightarrow> udp_ok k B L s s')"
proof (cases "uOutBuffer s = []")
  case True
  obtain p where p: "uTunnel s = Some p" "sound p" "\<not> uOpen s" using inv tun by (auto simp: udp_inv_def)
  obtain p1 where p1: "pauseSendData p = Some p1" "sound p1"
    using do_act_total [of p A_pauseSendData] do_act_sound [of A_pauseSendData p] p(2) by (auto simp: sound_def)
  have "udp_ok k B L s (s\<lparr>uTunnel := Some p1\<rparr>)"
    using inv p p1(2) by (intro udp_ok_local [OF inv]) (auto simp: backs_def udp_inv_def)
  then show ?thesis using True p(1) p1(1) by (simp add: udp_onTunnelWritable_def)
next
  case False
  from udp_tunnel_loop_moved [OF udp_inv_ready [OF inv tun], of fuel 0] False show ?thesis
    using udp_moved_ok [OF inv tun] by (auto simp: udp_onTunnelWritable_def)
qed

lemma udp_releaseSession_ok:
  assumes inv: "udp_inv k B L s"
  shows "\<exists>s'. udp_releaseSession s = Some s' \<and> heap s' = heap s \<and> tunData s' = tunData s \<and> next_ref s' = next_ref s"
proof -
  have full: "seg_full sg \<Longrightarrow> seg_delete_ok sg" for sg :: "'a segment_scheme"
    by (auto simp: seg_full_def seg_delete_ok_def seg_bytes_def split: option.splits)
  have out: "list_all seg_delete_ok (uOutBuffer s)" using inv full by (auto simp: udp_inv_def list_all_iff)
  have tun: "list_all id (map seg_delete_ok (pSocks5 p) @ map seg_delete_ok (pOutQueue p) @ [seg_delete_ok (pDecryptBuffer p)])"
    if "uTunnel s = Some p" for p
  proof -
    have "buffers_ok p" using inv that by (simp add: udp_inv_def sound_def)
    moreover from this have "mData (pDecryptBuffer p) \<noteq> None"
      by (auto simp: buffers_ok_def seg_inv_def split: option.splits)
    ultimately show ?thesis using full by (auto simp: list_all_iff buffers_ok_def seg_delete_ok_def)
  qed
  show ?thesis
    using out tun by (cases "uTunnel s") (simp_all add: udp_releaseSession_def udp_emit_def udp_close_def Let_def)
qed

section \<open>All runs\<close>

text \<open>
  The session, the router's device and the reactor's events in any order. Between its callbacks the tunnel
  moves by itself; all that is used of it is that it stays sound, as the proxy does.
\<close>

inductive udp_step :: "udp_session \<Rightarrow> udp_session \<Rightarrow> bool" where
  packet: "getPayloadLen ip \<noteq> 0 \<Longrightarrow> udp_accept ip now junk s = Some (n, s') \<Longrightarrow> udp_step s s'"
| readable: "uOpen s \<Longrightarrow> \<forall>data. rd = Some data \<longrightarrow> length data \<le> 61440 \<Longrightarrow> udp_onReadable rd s = Some s' \<Longrightarrow> udp_step s s'"
| writable: "uOpen s \<Longrightarrow> udp_onWritable ks s = Some s' \<Longrightarrow> udp_step s s'"
| failing: "uOpen s \<Longrightarrow> udp_step s (udp_onException s)"
| check: "uOpen s \<Longrightarrow> udp_step s (udp_onPeriodicallyCheck now s)"
| data_back: "uTunnel s \<noteq> None \<Longrightarrow> udp_onTunnelDataBack data now s = Some s' \<Longrightarrow> udp_step s s'"
| tunnel_writable: "uTunnel s \<noteq> None \<Longrightarrow> udp_onTunnelWritable fuel s = Returned n s' \<Longrightarrow> udp_step s s'"
| disconnected: "uTunnel s \<noteq> None \<Longrightarrow> udp_step s (udp_onTunnelDisconnected s)"
| tunnel_moves: "uTunnel s \<noteq> None \<Longrightarrow> sound p' \<Longrightarrow> udp_step s (s\<lparr>uTunnel := Some p'\<rparr>)"
| tun_writable: "onWritable ws s = Some s' \<Longrightarrow> udp_step s s'"

lemma udp_router_ok:
  assumes inv: "udp_inv k B L s"
  shows "\<exists>s'. onWritable ws s = Some s' \<and> udp_ok k B L s s'"
proof -
  have own: "own_inv (B \<union> L) s" using inv by (simp add: udp_inv_def)
  obtain s1 where s1: "write_loop ws s = Some s1" "drained (B \<union> L) s s1" using write_loop_drained [OF own] by blast
  then have d: "own_inv (B \<union> L) s1" "same_view (B \<union> L) s s1" "router.more s1 = router.more s" by (simp_all add: drained_def)
  have more: "uIPVer s1 = uIPVer s" "backs s1 = backs s" "uTunnel s1 = uTunnel s" "uOutBuffer s1 = uOutBuffer s"
      "uAlive s1 = uAlive s" "uReactor s1 = uReactor s" "uOpen s1 = uOpen s"
    using d(3) by (cases s; cases s1; simp add: backs_def)+
  have "udp_inv k B L (s1\<lparr>tunWrite := False\<rparr>)"
    using inv d(1) more by (cases "uTunnel s") (simp_all add: udp_inv_def backs_def)
  moreover have "same_view (B \<union> L) s (s1\<lparr>tunWrite := False\<rparr>)" using d(2) by (simp add: same_view_def)
  ultimately show ?thesis using s1(1) more by (auto simp: onWritable_def udp_ok_def)
qed

lemma udp_step_ok: "udp_step s s' \<Longrightarrow> udp_inv k B L s \<Longrightarrow> udp_ok k B L s s'"
proof (induction rule: udp_step.induct)
  case (packet ip now junk s n s')
  then show ?case using udp_accept_cases [OF packet(3,1), of junk now] by (auto split: if_splits)
next
  case (readable s rd s')
  then show ?case using udp_onReadable_ok [OF readable(4,2,1)] by auto
next
  case (writable s ks s')
  have "uReactor s" using writable(1,3) by (simp add: udp_inv_def)
  then show ?case using udp_onWritable_ok [OF writable(3), of ks] writable(2) by auto
next
  case (failing s)
  then show ?case using udp_close_ok by (simp add: udp_onException_def)
next
  case (check s now)
  then show ?case using udp_close_ok udp_ok_refl by (simp add: udp_onPeriodicallyCheck_def)
next
  case (data_back s data now s')
  then show ?case using udp_onTunnelDataBack_ok [OF data_back(3,1), of data now] by auto
next
  case (tunnel_writable s fuel n s')
  then show ?case using udp_onTunnelWritable_ok [OF tunnel_writable(3,1), of fuel] by auto
next
  case (disconnected s)
  then show ?case using udp_close_ok by (simp add: udp_onTunnelDisconnected_def)
next
  case (tunnel_moves s p')
  then show ?case by (intro udp_ok_local [OF tunnel_moves(3)]) (auto simp: udp_inv_def backs_def)
next
  case (tun_writable ws s s')
  then show ?case using udp_router_ok [OF tun_writable(2), of ws] by auto
qed

lemma udp_steps_ok: "udp_step\<^sup>*\<^sup>* s s' \<Longrightarrow> udp_inv k B L s \<Longrightarrow> udp_ok k B L s s'"
proof (induction rule: rtranclp_induct)
  case base
  then show ?case by (rule udp_ok_refl)
next
  case (step s1 s2)
  then show ?case using udp_ok_trans udp_step_ok by blast
qed

lemma udp_buildSession_fields:
  assumes "udp_buildSession ip b w = Some s"
  shows "heap s = heap w" "tunData s = tunData w" "next_ref s = next_ref w" "uIPVer s = 4" "uOutBuffer s = []"
    "uWire s = []" "backs s = 0" "uAlive s" "uReactor s" "uSrcAddr s = getSrc ip" "uDestAddr s = getDest ip"
    "uSrcPort s = getSrcPort ip" "uDestPort s = getDestPort ip"
    "if ub_ctrl b AND CTRL_PROXY > 0 then uTunnel s = ub_proxy b \<and> uTunnel s \<noteq> None \<and> \<not> uOpen s
     else uTunnel s = None \<and> uOpen s"
  using assms unfolding udp_buildSession_def udp_initBaseInfo_def udp_init_def connectRemote_def udp_session_new_def
  by (auto simp: Let_def udp_emit_def backs_def router.defs split: if_splits option.splits)

lemma udp_buildSession_inv:
  assumes "own_inv B w" "udp_buildSession ip b w = Some s" "\<forall>p. ub_proxy b = Some p \<longrightarrow> sound p"
  shows "udp_inv 0 B {} s"
proof -
  note f = udp_buildSession_fields [OF assms(2)]
  have "own_inv B s = own_inv B w" using f(1-3) by (rule own_inv_frame)
  then show ?thesis using assms(1,3) f
    by (cases "ub_ctrl b AND CTRL_PROXY > 0") (auto simp: udp_inv_def split: option.splits)
qed

lemma udp_run_inv:
  assumes "own_inv B w" "udp_buildSession ip b w = Some s0" "\<forall>p. ub_proxy b = Some p \<longrightarrow> sound p" "udp_step\<^sup>*\<^sup>* s0 s"
  obtains L where "udp_inv 0 B L s"
  using udp_steps_ok [OF assms(4) udp_buildSession_inv [OF assms(1-3)]] by (auto simp: udp_ok_def)

section \<open>Properties\<close>

text \<open>A datagram of one byte from 1.0.0.0 port 2 to 3.0.0.0 port 4, sent over a socket of the session.\<close>

definition sample_udp_packet :: packet where
  "sample_udp_packet = mem_of ([0x45, 0, 0, 29] @ replicate 5 0 @ [17, 0, 0, 1, 0, 0, 0, 3, 0, 0, 0, 2, 0, 4, 0]
      @ replicate 4 0 @ [9])"

definition sample_udp_birth :: udp_birth where
  "sample_udp_birth = \<lparr>ub_ctrl = 0, ub_proxy_ipver = 0, ub_proxy = None, ub_socket = True, ub_protect = True,
     ub_stale_time = 0\<rparr>"

definition sample_udp :: udp_session where
  "sample_udp = the (udp_buildSession sample_udp_packet sample_udp_birth router0)"

lemma sample_udp_built: "udp_buildSession sample_udp_packet sample_udp_birth router0 = Some sample_udp"
proof -
  have "getIPVer sample_udp_packet = 4" by (simp add: sample_udp_packet_def getIPVer_def mem_of_def)
  then have "udp_buildSession sample_udp_packet sample_udp_birth router0 \<noteq> None"
    by (simp add: udp_buildSession_def udp_initBaseInfo_def udp_init_def connectRemote_def udp_session_new_def
        sample_udp_birth_def router.defs Let_def)
  then show ?thesis by (auto simp: sample_udp_def)
qed

lemma sample_udp_payload: "getPayloadLen sample_udp_packet = 1" "ip_payload sample_udp_packet 1 = [9]"
proof -
  have f: "getHeaderLen sample_udp_packet = 20" "getProtocol sample_udp_packet = 17" "getTTLEN sample_udp_packet = 29"
      "sample_udp_packet 28 = 9"
    by (simp_all add: sample_udp_packet_def getHeaderLen_def getProtocol_def getTTLEN_def mem_of_def nth_append
        ld16_def le16_def swap16_def)
  then have "getPayloadOffset sample_udp_packet = 28" by (simp add: getPayloadOffset_def PROTO_UDP_def)
  then show "getPayloadLen sample_udp_packet = 1" "ip_payload sample_udp_packet 1 = [9]"
    using f by (simp_all add: getPayloadLen_def ip_payload_def)
qed

text \<open>It is not DNS, so its line for the log exists.\<close>

lemma accept_text_plain:
  assumes "getProtocol ip = PROTO_UDP" "swap16 (getDestPort ip) \<noteq> 53" "swap16 (getSrcPort ip) \<noteq> 53"
  shows "accept_text ip junk \<noteq> None"
  using packet_text_defined [of MAX_SHARE_BUFFER ip "[]" junk] assms
  by (auto simp: accept_text_def MAX_SHARE_BUFFER_def PROTO_UDP_def PROTO_TCP_def)

lemma sample_udp_text: "accept_text sample_udp_packet junk \<noteq> None"
  by (rule accept_text_plain)
    (simp_all add: sample_udp_packet_def getDestPort_def getSrcPort_def getHeaderLen_def getProtocol_def mem_of_def
      nth_append ld16_def le16_def swap16_def PROTO_UDP_def)



text \<open>
  Replies over a direct socket leak. In every run of a session without tunnel, as many datagrams as it
  sent back to the application are still allocated, in the possession of nobody and not marked for release, so
  neither the router nor the release of the session ever frees them; everything else in the heap is a
  datagram of another session or queued.
\<close>

theorem udp_replies_leak:
  assumes "own_inv B w" "udp_buildSession ip0 b w = Some s0" "ub_ctrl b AND CTRL_PROXY = 0" "ub_proxy b = None"
    "udp_step\<^sup>*\<^sup>* s0 s"
  shows "\<exists>L. card L = backs s \<and> finite L \<and> L \<inter> B = {} \<and> dom (heap s) = B \<union> L \<union> set (tunData s)
    \<and> (\<forall>r \<in> L. \<exists>d. heap s r = Some d \<and> \<not> mReleaseAfterBuffering d)
    \<and> (\<forall>s'. udp_releaseSession s = Some s' \<longrightarrow> heap s' = heap s)"
proof -
  have pr: "\<forall>p. ub_proxy b = Some p \<longrightarrow> sound p" using assms(4) by simp
  have "uTunnel s0 = None" using udp_buildSession_fields(14) [OF assms(2)] assms(3) by simp
  then obtain L where inv: "udp_inv 0 B L s" and tun: "uTunnel s = None"
    using udp_steps_ok [OF assms(5) udp_buildSession_inv [OF assms(1,2) pr]] by (auto simp: udp_ok_def)
  have own: "own_inv (B \<union> L) s" using inv by (simp add: udp_inv_def)
  have "\<forall>r \<in> L. \<exists>d. heap s r = Some d \<and> \<not> mReleaseAfterBuffering d"
  proof
    fix r assume "r \<in> L"
    with own_inv_deref [OF own, of r] show "\<exists>d. heap s r = Some d \<and> \<not> mReleaseAfterBuffering d"
      by (auto simp: cell_ok_def)
  qed
  then show ?thesis
    using inv tun own_invD(2) [OF own] udp_releaseSession_ok [OF inv] by (auto simp: udp_inv_def)
qed

theorem udp_replies_leak_witness:
  "\<exists>s L. udp_onReadable (Some [1, 2]) sample_udp = Some s \<and> card L = 1 \<and> (\<forall>r \<in> L. heap s r \<noteq> None)"
proof -
  have op: "uOpen sample_udp" using udp_buildSession_fields(14) [OF sample_udp_built] by (simp add: sample_udp_birth_def)
  have pr: "ub_ctrl sample_udp_birth AND CTRL_PROXY = 0" "ub_proxy sample_udp_birth = None"
    by (simp_all add: sample_udp_birth_def)
  have "udp_inv 0 {} {} sample_udp" using udp_buildSession_inv [OF router0_inv sample_udp_built] pr by simp
  from udp_onReadable_ok [OF this _ op, of "Some [1, 2]"] obtain s where
    s: "udp_onReadable (Some [1, 2]) sample_udp = Some s" "backs s = Suc (backs sample_udp)" by auto
  from udp_step.readable [OF op _ s(1)] have "udp_step\<^sup>*\<^sup>* sample_udp s" by (auto intro: r_into_rtranclp)
  from udp_replies_leak [OF router0_inv sample_udp_built pr this] obtain L where
    L: "card L = backs s" "\<forall>r \<in> L. \<exists>d. heap s r = Some d \<and> \<not> mReleaseAfterBuffering d" by auto
  have "backs s = 1" using s(2) udp_buildSession_fields(7) [OF sample_udp_built] by simp
  then show ?thesis using s(1) L by force
qed

text \<open>
  The abstract sender of a direct session: a list of datagrams. \<open>Datagram ip\<close> is a packet the application
  sends, \<open>Socket ks\<close> a writable event in which the socket answers \<open>ks\<close>, each a whole datagram or nothing.
\<close>

datatype udp_op = Datagram packet int bytes | Socket "int list"

fun udp_op_ok :: "udp_op \<Rightarrow> bool" where
  "udp_op_ok (Datagram ip now junk) = (0 < getPayloadLen ip \<and> accept_text ip junk \<noteq> None)"
| "udp_op_ok (Socket ks) = (\<forall>k \<in> set ks. k < 0 \<or> 524288 \<le> k)"

fun udp_run :: "udp_op list \<Rightarrow> udp_session \<Rightarrow> udp_session option" where
  "udp_run [] s = Some s"
| "udp_run (Datagram ip now junk # ops) s = do { (n, s1) \<leftarrow> udp_accept ip now junk s; udp_run ops s1 }"
| "udp_run (Socket ks # ops) s = do { s1 \<leftarrow> udp_onWritable ks s; udp_run ops s1 }"

fun udp_payloads :: "udp_op list \<Rightarrow> bytes list" where
  "udp_payloads [] = []"
| "udp_payloads (Datagram ip now junk # ops) = ip_payload ip (nat (getPayloadLen ip)) # udp_payloads ops"
| "udp_payloads (Socket ks # ops) = udp_payloads ops"

lemma udp_accept_queues:
  assumes inv: "udp_inv k B L s" and ip: "0 < getPayloadLen ip" and log: "accept_text ip junk \<noteq> None"
    and al: "uAlive s" "uTunnel s = None"
    and acc: "udp_accept ip now junk s = Some (n, s')"
  shows "uWire s' = uWire s \<and> udp_pending s' = udp_pending s @ [ip_payload ip (nat (getPayloadLen ip))]
    \<and> uAlive s' \<and> uTunnel s' = None"
proof -
  define len where "len = (word_of_int (getPayloadLen ip) :: size_t)"
  obtain sg where sg: "seg_write (payload_bytes ip len) len (buffer_segment_new len) = Some (len, sg)"
      "seg_bytes sg = ip_payload ip (nat (getPayloadLen ip))"
    using accept_segment_full [OF ip] unfolding len_def by blast
  obtain line where line: "accept_text ip junk = Some line" using log by blast
  show ?thesis
    using acc al unfolding udp_accept_def line Let_def len_def [symmetric] sg(1)
    by (auto simp: bq_push_def udp_pending_def sg(2) udp_emit_def split: if_splits)
qed



lemma udp_running_stuck:
  "udp_tunnel_loop n sent s = Running s' \<Longrightarrow> udp_stuck s' \<Longrightarrow> udp_tunnel_loop (n + k) sent s = Running s'"
proof (induction n arbitrary: sent s)
  case 0
  then have "s = s'" by (cases "uOutBuffer s") (simp_all add: udp_tunnel_loop.simps [of 0])
  then show ?case using 0 udp_stuck_runs by simp
next
  case (Suc n)
  from Suc.prems(1) obtain sg sgs where q: "uOutBuffer s = sg # sgs"
    by (cases "uOutBuffer s") (simp_all add: udp_tunnel_loop.simps [of "Suc n"])
  then obtain m s1 where send: "tunnel_sendData (seg_bytes sg) s = Some (m, s1)"
    using Suc.prems(1) by (cases "tunnel_sendData (seg_bytes sg) s") (auto simp: udp_tunnel_loop.simps [of "Suc n"])
  have unf: "udp_tunnel_loop (Suc j) sent s =
      (if m < 0 then Returned sent s1
       else (let sg1 = seg_consume (word_of_int m) sg
             in if seg_size sg1 \<le> 0
                then (if seg_delete_ok sg1 then udp_tunnel_loop j (sent + word_of_int m) (s1\<lparr>uOutBuffer := sgs\<rparr>) else Undefined)
                else udp_tunnel_loop j (sent + word_of_int m) (s1\<lparr>uOutBuffer := sg1 # sgs\<rparr>)))" for j
    using q send by (simp add: udp_tunnel_loop.simps [of "Suc j"])
  show ?case
    using Suc.prems(1) unfolding add_Suc unf Let_def
    by (auto split: if_splits dest: Suc.IH [OF _ Suc.prems(2)])
qed

text \<open>
  Claim C28. Through a SOCKS5 tunnel a burst of datagrams hangs the session. When at least 266258 bytes wait in the
  queue, \<^verbatim>\<open>onTunnelWritable\<close> never returns: it moves the front of the queue into the tunnel, byte by byte in order,
  until the tunnel's free buffer is smaller than the next datagram; from then on the answer 0 of \<^verbatim>\<open>sendData\<close> neither ends the loop nor
  changes the state, so for every larger number of iterations the loop is still in the same state.
\<close>

theorem udp_burst_hangs:
  assumes "udp_ready s" "266258 \<le> length (concat (udp_pending s))"
  shows "\<exists>s' fs. (\<forall>fuel > length (concat (udp_pending s)). udp_onTunnelWritable fuel s = Running s') \<and> udp_stuck s'
    \<and> messages_ok fs \<and> udp_chan s' = udp_chan s @ frames fs
    \<and> concat (udp_pending s) = concat (map snd fs) @ concat (udp_pending s')"
proof -
  define n where "n = Suc (length (concat (udp_pending s)))"
  obtain fs s' where r: "messages_ok fs" "udp_chan s' = udp_chan s @ frames fs"
      "concat (udp_pending s) = concat (map snd fs) @ concat (udp_pending s')"
      "udp_buffered s + length (concat (map snd fs)) \<le> udp_buffered s'" "if fs = [] then s' = s else udp_buffered s' < 266258"
      "udp_tunnel_loop n 0 s = Returned (0 + word_of_nat (length (concat (map snd fs)))) s' \<and> uOutBuffer s' = []
        \<or> udp_tunnel_loop n 0 s = Running s' \<and> udp_stuck s'"
    using udp_tunnel_loop_outcome [OF assms(1), of n 0] unfolding n_def by blast
  have ne: "uOutBuffer s \<noteq> []" using assms(2) by (auto simp: udp_pending_def)
  have "uOutBuffer s' \<noteq> []"
  proof
    assume e: "uOutBuffer s' = []"
    then have "length (concat (map snd fs)) \<ge> 266258" using assms(2) unfolding r(3) by (simp add: udp_pending_def)
    moreover from this have "fs \<noteq> []" by auto
    ultimately show False using r(4,5) by simp
  qed
  then have run: "udp_tunnel_loop n 0 s = Running s'" "udp_stuck s'" using r(6) by blast+
  have "udp_onTunnelWritable fuel s = Running s'" if "length (concat (udp_pending s)) < fuel" for fuel
    using udp_running_stuck [OF run, of "fuel - n"] that ne by (simp add: udp_onTunnelWritable_def n_def)
  then show ?thesis using run(2) r(1-3) by blast
qed

text \<open>Five datagrams of 61440 bytes queued for a new tunnel.\<close>

definition sample_big :: buffer_segment where
  "sample_big = (buffer_segment_new 61440)\<lparr>mLimit := 61440\<rparr>"

definition sample_burst :: udp_session where
  "sample_burst = sample_udp\<lparr>uOutBuffer := replicate 5 sample_big, uTunnel := Some sample_proxy\<rparr>"

lemma sample_big_full: "seg_full sample_big" "length (seg_bytes sample_big) = 61440"
proof -
  have f: "mData sample_big = Some (replicate 61440 0)" "mSize sample_big = 61440" "mPos sample_big = 0"
      "mLimit sample_big = 61440" "mMarkPos sample_big = 0" "mMarkLimit sample_big = 0"
    by (simp_all add: sample_big_def buffer_segment_new_def buffer_segment.defs segment.defs segment_new_def seg_max_def)
  have b: "seg_bytes sample_big = replicate 61440 0" by (simp add: seg_bytes_def f)
  then show l: "length (seg_bytes sample_big) = 61440" by simp
  then have "seg_bytes sample_big \<noteq> []" by auto
  moreover have "seg_inv sample_big" by (simp add: seg_inv_nat f)
  ultimately show "seg_full sample_big" by (simp add: seg_full_def)
qed

theorem udp_burst_hangs_witness:
  "\<exists>s'. (\<forall>fuel > 307200. udp_onTunnelWritable fuel sample_burst = Running s') \<and> udp_stuck s'"
proof -
  have "sound sample_proxy" using proxy_born_sound [OF sample_proxy_born] by simp
  then have r: "udp_ready sample_burst" using sample_big_full(1) by (simp add: udp_ready_def sample_burst_def)
  have "length (concat (udp_pending sample_burst)) = 307200"
    by (simp add: sample_burst_def udp_pending_def length_concat sum_list_replicate sample_big_full(2))
  with udp_burst_hangs [OF r] show ?thesis by auto
qed

text \<open>
  An empty datagram corrupts the heap. A session without tunnel accepts a packet without payload and queues
  a segment of size 0, whose array was never allocated; when the socket becomes writable and takes the
  empty datagram, the segment is deleted and its uninitialised array pointer with it.
\<close>

theorem udp_empty_datagram:
  assumes "uAlive s" "uReactor s" "uTunnel s = None" "uOutBuffer s = []" "getPayloadLen ip = 0" "accept_text ip junk \<noteq> None" "0 \<le> k"
  shows "\<exists>s'. udp_accept ip now junk s = Some (0, s') \<and> udp_onWritable (k # ks) s' = None"
proof -
  obtain line where line: "accept_text ip junk = Some line" using assms(6) by blast
  define sg where "sg = buffer_segment_new 0"
  have f: "mData sg = None" "mSize sg = 0" "mPos sg = 0" "mLimit sg = 0"
    by (simp_all add: sg_def buffer_segment_new_def buffer_segment.defs segment.defs segment_new_def)
  have w: "seg_write (payload_bytes ip 0) 0 sg = Some (0, sg)" by (simp add: seg_write_def f)
  define s1 where "s1 = s\<lparr>uTotalAccept := uTotalAccept s + 0\<rparr>"
  define s2 where "s2 = (if (uCtrlType s1 AND CTRL_CAPTURE) \<noteq> 0
                   then s1\<lparr>captured := captured s1 @ [map ip [0..<unat (getTTLEN ip)]]\<rparr> else s1)"
  define s3 where "s3 = udp_emit (U_TRAFFIC_ACCEPT (uTotalAccept s2) 0) s2"
  define s4 where "s4 = s3\<lparr>uOutBuffer := bq_push sg (uOutBuffer s3)\<rparr>"
  have f4: "uTunnel s4 = None" "uReactor s4" "uOutBuffer s4 = [sg]"
    using assms(2-4) by (auto simp: s4_def s3_def s2_def s1_def udp_emit_def bq_push_def)
  have acc: "udp_accept ip now junk s =
      (case uTunnel s4 of
         Some p \<Rightarrow> if uCtrlType s4 = CTRL_PROXY
                   then do { p1 \<leftarrow> requestSendData p; Some (s4\<lparr>uTunnel := Some p1\<rparr>) }
                   else if uReactor s4 then Some (if uOpen s4 then s4\<lparr>uWriteEv := True\<rparr> else s4) else None
       | None \<Rightarrow> if uReactor s4 then Some (if uOpen s4 then s4\<lparr>uWriteEv := True\<rparr> else s4) else None)
      \<bind> (\<lambda>s4. Some (0, s4\<lparr>uLastTime := now\<rparr>))"
    by (simp only: udp_accept_def line assms(1,5) of_int_0 not_True_eq_False if_False Let_def s1_def [symmetric]
        s2_def [symmetric] s3_def [symmetric] sg_def [symmetric] w Option.bind.simps prod.case refl if_True s4_def [symmetric])
  obtain s' where s': "udp_accept ip now junk s = Some (0, s')" "uOutBuffer s' = [sg]"
    using f4 by (cases "uOpen s4") (simp_all add: acc)
  have "seg_consume 0 sg = sg" by (simp add: seg_consume_def f)
  then have "udp_write_loop (k # ks) 0 s' = None"
    using s'(2) assms(7) by (subst udp_write_loop.simps) (simp add: seg_size_def f seg_delete_ok_def)
  then show ?thesis using s' by (simp add: udp_onWritable_def)
qed

definition sample_empty_packet :: packet where
  "sample_empty_packet = mem_of ([0x45, 0, 0, 28] @ replicate 5 0 @ [17])"

theorem udp_empty_datagram_witness:
  "\<exists>s'. udp_accept sample_empty_packet 3 [] sample_udp = Some (0, s') \<and> udp_onWritable [0] s' = None"
proof (rule udp_empty_datagram)
  show "accept_text sample_empty_packet [] \<noteq> None" by code_simp
  have g: "getHeaderLen sample_empty_packet = 20" "getProtocol sample_empty_packet = 17" "getTTLEN sample_empty_packet = 28"
    by (simp_all add: sample_empty_packet_def getHeaderLen_def getProtocol_def getTTLEN_def mem_of_def nth_append
        ld16_def le16_def swap16_def)
  then have "getPayloadOffset sample_empty_packet = 28" by (simp add: getPayloadOffset_def PROTO_UDP_def)
  then show "getPayloadLen sample_empty_packet = 0" using g by (simp add: getPayloadLen_def)
qed (use udp_buildSession_fields [OF sample_udp_built] in \<open>simp_all add: sample_udp_birth_def\<close>)

end
