(* ===== verification/Sessions.thy ===== *)
theory Sessions
  imports UDPRun
begin

text \<open>
  \<^verbatim>\<open>Session::findSession\<close> of \<^verbatim>\<open>core/Session.cpp\<close> and the operations of \<^verbatim>\<open>core/Router.cpp\<close> on its lists of
  sessions. The code calls the virtual functions of \<^verbatim>\<open>Session\<close>, so the operations here take them as arguments, and
  what the router needs of them is an interface that TCP and UDP sessions both meet. A list holds
  the private parts of the sessions (\<^term>\<open>router.more\<close>); with the state of the router they are the sessions.
\<close>

section \<open>The operations\<close>

type_synonym flow = "byte \<times> u32 \<times> u32 \<times> u16 \<times> u16"

definition packet_flow :: "packet \<Rightarrow> flow" where
  "packet_flow ip = (getIPVer ip, getSrc ip, getDest ip, getSrcPort ip, getDestPort ip)"

fun find_loop :: "('a \<Rightarrow> bool) \<Rightarrow> ('a \<Rightarrow> flow) \<Rightarrow> packet \<Rightarrow> 'a list \<Rightarrow> nat option" where
  "find_loop closed flow ip [] = None"
| "find_loop closed flow ip (x # xs) =
     (if \<not> closed x \<and> flow x = packet_flow ip then Some 0
      else map_option Suc (find_loop closed flow ip xs))"

definition findSession :: "('a \<Rightarrow> bool) \<Rightarrow> ('a \<Rightarrow> flow) \<Rightarrow> packet \<Rightarrow> 'a list \<Rightarrow> nat option" where
  "findSession closed flow ip sessions =
     (if sessions = [] then None
      else if getIPVer ip \<noteq> 4 then None
      else find_loop closed flow ip sessions)"

text \<open>\<^verbatim>\<open>Router::route\<close>; \<open>build\<close> is \<^verbatim>\<open>Session::buildSession\<close>, \<open>acc\<close> the session's \<^verbatim>\<open>accept\<close>.\<close>

definition route ::
  "('a \<Rightarrow> bool) \<Rightarrow> ('a \<Rightarrow> flow) \<Rightarrow> (router \<Rightarrow> 'a router_scheme option)
    \<Rightarrow> ('a router_scheme \<Rightarrow> 'a router_scheme option) \<Rightarrow> packet \<Rightarrow> router \<Rightarrow> 'a list \<Rightarrow> (router \<times> 'a list) option" where
  "route closed flow build acc ip w xs =
     (case findSession closed flow ip xs of
        Some i \<Rightarrow> do { s \<leftarrow> acc (router.extend w (xs ! i));
                      Some (router.truncate s, xs[i := router.more s]) }
      | None \<Rightarrow>
          (case build w of
             None \<Rightarrow> Some (w, xs)
           | Some s0 \<Rightarrow> do { s \<leftarrow> acc s0; Some (router.truncate s, xs @ [router.more s]) }))"

text \<open>\<^verbatim>\<open>Router::cleanDeadSessions(std::list<Session*>&)\<close>: the number of the sessions released, and what is left.\<close>

fun clean_list ::
  "('a \<Rightarrow> bool) \<Rightarrow> ('a router_scheme \<Rightarrow> 'a router_scheme option) \<Rightarrow> router \<Rightarrow> 'a list \<Rightarrow> (nat \<times> router \<times> 'a list) option" where
  "clean_list closed release w [] = Some (0, w, [])"
| "clean_list closed release w (x # xs) =
     (if closed x
      then do { s \<leftarrow> release (router.extend w x);
                (r, w1, ys) \<leftarrow> clean_list closed release (router.truncate s) xs;
                Some (Suc r, w1, ys) }
      else do { (r, w1, ys) \<leftarrow> clean_list closed release w xs; Some (r, w1, x # ys) })"

text \<open>\<^verbatim>\<open>Router::releaseSessions\<close> empties the list.\<close>

fun releaseSessions :: "('a router_scheme \<Rightarrow> 'a router_scheme option) \<Rightarrow> router \<Rightarrow> 'a list \<Rightarrow> router option" where
  "releaseSessions release w [] = Some w"
| "releaseSessions release w (x # xs) =
     do { s \<leftarrow> release (router.extend w x); releaseSessions release (router.truncate s) xs }"

section \<open>The first live session of a flow\<close>

lemma find_loop_Some:
  "find_loop closed flow ip xs = Some i \<longleftrightarrow>
     i < length xs \<and> \<not> closed (xs ! i) \<and> flow (xs ! i) = packet_flow ip
     \<and> (\<forall>j < i. closed (xs ! j) \<or> flow (xs ! j) \<noteq> packet_flow ip)"
proof (induction xs arbitrary: i)
  case (Cons x xs)
  show ?case
  proof (cases "\<not> closed x \<and> flow x = packet_flow ip")
    case True
    then show ?thesis by (auto simp: nth_Cons split: nat.splits)
  next
    case False
    then show ?thesis
      by (cases i) (auto simp: Cons.IH nth_Cons less_Suc_eq_0_disj split: nat.splits)
  qed
qed simp

lemma find_loop_None:
  "find_loop closed flow ip xs = None \<longleftrightarrow> (\<forall>x \<in> set xs. closed x \<or> flow x \<noteq> packet_flow ip)"
  by (induction xs) auto

section \<open>The interface of a session\<close>

lemma extend_truncate [simp]: "router.extend (router.truncate s) (router.more s) = s"
  by (cases s) (simp add: router.defs)

lemma router_parts [simp]:
  "heap (router.extend w x) = heap w" "tunData (router.extend w x) = tunData w"
  "next_ref (router.extend w x) = next_ref w" "router.more (router.extend w x) = x"
  "heap (router.truncate s) = heap s" "tunData (router.truncate s) = tunData s" "next_ref (router.truncate s) = next_ref s"
  "router.truncate (router.extend w x) = w"
  by (simp_all add: router.defs)

lemma own_inv_parts [simp]:
  "own_inv B (router.extend w x) = own_inv B w" "own_inv B (router.truncate s) = own_inv B s"
  by (simp_all add: own_inv_def)

definition views :: "ref set \<Rightarrow> (ref \<Rightarrow> datagram option) \<Rightarrow> (ref \<Rightarrow> datagram option) \<Rightarrow> bool" where
  "views B h h' \<longleftrightarrow> (\<forall>r \<in> B. map_option dgram_view (h' r) = map_option dgram_view (h r))"

lemma same_view_views: "same_view B s s' \<longleftrightarrow> views B (heap s) (heap s')"
  by (simp add: same_view_def views_def)

lemma views_basic:
  "views B h h" "views B h1 h2 \<Longrightarrow> views B h2 h3 \<Longrightarrow> views B h1 h3" "views B h h' \<Longrightarrow> C \<subseteq> B \<Longrightarrow> views C h h'"
  by (auto simp: views_def)

definition held :: "('a \<Rightarrow> ref set) \<Rightarrow> 'a list \<Rightarrow> ref set" where
  "held refs xs = \<Union> (refs ` set xs)"

lemma held_simps [simp]:
  "held refs [] = {}" "held refs (x # xs) = refs x \<union> held refs xs" "held refs (xs @ ys) = held refs xs \<union> held refs ys"
  by (auto simp: held_def)

text \<open>
  The invariant of a list: each session, with the datagrams of all others counted as owned by somebody else.
\<close>

definition all_inv :: "(ref set \<Rightarrow> 'a router_scheme \<Rightarrow> bool) \<Rightarrow> ('a \<Rightarrow> ref set) \<Rightarrow> ref set \<Rightarrow> router \<Rightarrow> 'a list \<Rightarrow> bool" where
  "all_inv good refs B w xs \<longleftrightarrow> own_inv (B \<union> held refs xs) w
     \<and> (\<forall>ys x zs. xs = ys @ x # zs \<longrightarrow> good (B \<union> held refs ys \<union> held refs zs) (router.extend w x))"

text \<open>
  \<open>good B s\<close> is the session's invariant when \<open>B\<close> are the datagrams others hold, \<open>refs\<close> those it holds itself. A session may
  lose datagrams: they count as held by nobody in particular from then on. Accepting a packet keeps the invariant
  where it has an outcome (\<open>acc_law\<close>), and it has one for the packets that are \<open>acc_fine\<close> (\<open>acc_total\<close>).
\<close>

locale session_kind =
  fixes good :: "ref set \<Rightarrow> 'a router_scheme \<Rightarrow> bool"
    and refs :: "'a \<Rightarrow> ref set"
    and acc :: "'p \<Rightarrow> 'a router_scheme \<Rightarrow> 'a router_scheme option"
    and acc_ok :: "'p \<Rightarrow> bool"
    and acc_fine :: "'p \<Rightarrow> bool"
    and build :: "'b \<Rightarrow> router \<Rightarrow> 'a router_scheme option"
    and build_ok :: "'b \<Rightarrow> bool"
    and release :: "'a router_scheme \<Rightarrow> 'a router_scheme option"
    and leaky :: bool
  assumes inv_own: "good B s \<Longrightarrow> own_inv (B \<union> refs (router.more s)) s \<and> B \<inter> refs (router.more s) = {}"
    and inv_transfer: "good B s \<Longrightarrow> own_inv (C \<union> refs (router.more s)) w \<Longrightarrow> C \<inter> refs (router.more s) = {}
      \<Longrightarrow> views (refs (router.more s)) (heap s) (heap w) \<Longrightarrow> good C (router.extend w (router.more s))"
    and acc_law: "good B s \<Longrightarrow> acc_ok p \<Longrightarrow> acc p s = Some s' \<Longrightarrow>
      \<exists>L. good (B \<union> L) s' \<and> L \<inter> B = {} \<and> (\<not> leaky \<longrightarrow> L = {}) \<and> views B (heap s) (heap s')"
    and acc_total: "good B s \<Longrightarrow> acc_fine p \<Longrightarrow> acc p s \<noteq> None"
    and build_law: "own_inv B w \<Longrightarrow> build_ok b \<Longrightarrow> build b w = Some s \<Longrightarrow> good B s \<and> heap s = heap w"
    and release_law: "good B s \<Longrightarrow> \<exists>s'. release s = Some s' \<and> own_inv B s' \<and> views B (heap s) (heap s')"
begin

lemma all_invD:
  assumes "all_inv good refs B w (ys @ x # zs)"
  shows "good (B \<union> held refs ys \<union> held refs zs) (router.extend w x)"
    "own_inv (B \<union> held refs (ys @ x # zs)) w" "refs x \<inter> (B \<union> held refs ys \<union> held refs zs) = {}"
proof -
  show i: "good (B \<union> held refs ys \<union> held refs zs) (router.extend w x)"
    "own_inv (B \<union> held refs (ys @ x # zs)) w" using assms by (simp_all add: all_inv_def)
  show "refs x \<inter> (B \<union> held refs ys \<union> held refs zs) = {}" using inv_own [OF i(1)] by auto
qed

lemma all_inv_disjoint: "all_inv good refs B w xs \<Longrightarrow> B \<inter> held refs xs = {}"
proof -
  assume a: "all_inv good refs B w xs"
  have "B \<inter> refs x = {}" if x: "x \<in> set xs" for x
  proof -
    obtain ys zs where "xs = ys @ x # zs" using split_list [OF x] by blast
    then show ?thesis using all_invD(3) [of B w ys x zs] a by auto
  qed
  then show ?thesis by (auto simp: held_def)
qed

text \<open>The list keeps its invariant when the router changes behind its back but for its own datagrams.\<close>

lemma all_inv_transfer:
  assumes a: "all_inv good refs B w xs" and own: "own_inv (C \<union> held refs xs) w'" and dis: "C \<inter> held refs xs = {}"
    and v: "views (held refs xs) (heap w) (heap w')"
  shows "all_inv good refs C w' xs"
  unfolding all_inv_def
proof (intro conjI allI impI)
  fix ys x zs assume xs: "xs = ys @ x # zs"
  note d = all_invD [OF a [unfolded xs]]
  have e: "C \<union> held refs ys \<union> held refs zs \<union> refs x = C \<union> held refs xs" by (auto simp: xs)
  have "(C \<union> held refs ys \<union> held refs zs) \<inter> refs x = {}" using d(3) dis xs by auto
  moreover have "views (refs x) (heap w) (heap w')" using v by (rule views_basic(3)) (auto simp: xs)
  ultimately show "good (C \<union> held refs ys \<union> held refs zs) (router.extend w' x)"
    using inv_transfer [OF d(1), of "C \<union> held refs ys \<union> held refs zs" w'] own e by simp
qed (rule own)

text \<open>One session of the list makes a step.\<close>

lemma all_inv_step:
  assumes a: "all_inv good refs B w (ys @ x # zs)"
    and s: "good (B \<union> held refs ys \<union> held refs zs \<union> L) s" "L \<inter> (B \<union> held refs ys \<union> held refs zs) = {}"
    and v: "views (B \<union> held refs ys \<union> held refs zs) (heap w) (heap s)"
  shows "all_inv good refs (B \<union> L) (router.truncate s) (ys @ router.more s # zs)"
  unfolding all_inv_def
proof (intro conjI allI impI)
  note io = inv_own [OF s(1)] and d = all_invD [OF a]
  have e0: "B \<union> held refs ys \<union> held refs zs \<union> L \<union> refs (router.more s)
      = B \<union> L \<union> held refs (ys @ router.more s # zs)" by auto
  show own: "own_inv (B \<union> L \<union> held refs (ys @ router.more s # zs)) (router.truncate s)"
    using io unfolding e0 by simp
  have other: "good (B \<union> L \<union> held refs as \<union> held refs bs) (router.extend (router.truncate s) z)"
    if o: "good (B \<union> held refs as0 \<union> held refs bs0) (router.extend w z)"
      and h: "refs z \<subseteq> held refs ys \<union> held refs zs"
      and e: "held refs as \<union> held refs bs \<union> refs z = held refs (ys @ router.more s # zs)"
      and sub: "held refs as \<union> held refs bs \<subseteq> held refs as0 \<union> held refs bs0 \<union> refs (router.more s)" for as bs as0 bs0 z
  proof -
    have dz: "(B \<union> held refs as0 \<union> held refs bs0) \<inter> refs z = {}" using inv_own [OF o] by simp
    have "(B \<union> L \<union> held refs as \<union> held refs bs) \<inter> refs z = {}"
      using dz sub h s(2) conjunct2 [OF io] by blast
    moreover have "B \<union> L \<union> held refs as \<union> held refs bs \<union> refs z = B \<union> L \<union> held refs (ys @ router.more s # zs)"
      using e by auto
    moreover have "views (refs z) (heap w) (heap (router.truncate s))"
      using v h by (auto simp: views_def)
    ultimately show ?thesis using inv_transfer [OF o, of "B \<union> L \<union> held refs as \<union> held refs bs" "router.truncate s"] own by simp
  qed
  fix as z bs assume xs: "ys @ router.more s # zs = as @ z # bs"
  then obtain us where "ys = as @ us \<and> us @ router.more s # zs = z # bs \<or> ys @ us = as \<and> router.more s # zs = us @ z # bs"
    by (auto simp: append_eq_append_conv2)
  then consider "us = []" "ys = as" "router.more s = z" "zs = bs"
    | us1 where "us = z # us1" "ys = as @ z # us1" "bs = us1 @ router.more s # zs"
    | us1 where "us = router.more s # us1" "as = ys @ router.more s # us1" "zs = us1 @ z # bs"
    by (cases us) auto
  then show "good (B \<union> L \<union> held refs as \<union> held refs bs) (router.extend (router.truncate s) z)"
  proof cases
    case 1
    have "B \<union> held refs ys \<union> held refs zs \<union> L = B \<union> L \<union> held refs as \<union> held refs bs" using 1 by auto
    with s(1) have "good (B \<union> L \<union> held refs as \<union> held refs bs) s" by simp
    then show ?thesis unfolding 1(3) [symmetric] by simp
  next
    case 2
    have "good (B \<union> held refs as \<union> held refs (us1 @ x # zs)) (router.extend w z)"
      using all_invD(1) [of B w as z "us1 @ x # zs"] a 2(2) by simp
    then show ?thesis by (rule other) (auto simp: 2)
  next
    case 3
    have "good (B \<union> held refs (ys @ x # us1) \<union> held refs bs) (router.extend w z)"
      using all_invD(1) [of B w "ys @ x # us1" z bs] a 3(3) by simp
    then show ?thesis by (rule other) (auto simp: 3)
  qed
qed

text \<open>One session leaves the list, or a new one joins it at its end.\<close>

lemma all_inv_release:
  assumes a: "all_inv good refs B w (ys @ x # zs)"
    and own: "own_inv (B \<union> held refs ys \<union> held refs zs) w'"
    and v: "views (B \<union> held refs ys \<union> held refs zs) (heap w) (heap w')"
  shows "all_inv good refs B w' (ys @ zs)"
  unfolding all_inv_def
proof (intro conjI allI impI)
  show own': "own_inv (B \<union> held refs (ys @ zs)) w'" using own by (simp add: Un_assoc)
  have other: "good (B \<union> held refs as \<union> held refs bs) (router.extend w' z)"
    if o: "good (B \<union> held refs as0 \<union> held refs bs0) (router.extend w z)"
      and e: "held refs as \<union> held refs bs \<union> refs z = held refs ys \<union> held refs zs"
      and sub: "held refs as \<union> held refs bs \<subseteq> held refs as0 \<union> held refs bs0" for as bs as0 bs0 z
  proof -
    have "(B \<union> held refs as0 \<union> held refs bs0) \<inter> refs z = {}" using inv_own [OF o] by simp
    then have "(B \<union> held refs as \<union> held refs bs) \<inter> refs z = {}" using sub by blast
    moreover have "B \<union> held refs as \<union> held refs bs \<union> refs z = B \<union> held refs (ys @ zs)" using e by auto
    moreover have "views (refs z) (heap w) (heap w')" using v e by (auto simp: views_def)
    ultimately show ?thesis using inv_transfer [OF o, of "B \<union> held refs as \<union> held refs bs" w'] own' by simp
  qed
  fix as z bs assume xs: "ys @ zs = as @ z # bs"
  then obtain us where "ys = as @ us \<and> us @ zs = z # bs \<or> ys @ us = as \<and> zs = us @ z # bs"
    by (auto simp: append_eq_append_conv2)
  then consider us1 where "us = z # us1" "ys = as @ z # us1" "bs = us1 @ zs"
    | us1 where "as = ys @ us1" "zs = us1 @ z # bs"
    by (cases us) auto
  then show "good (B \<union> held refs as \<union> held refs bs) (router.extend w' z)"
  proof cases
    case 1
    have "good (B \<union> held refs as \<union> held refs (us1 @ x # zs)) (router.extend w z)"
      using all_invD(1) [of B w as z "us1 @ x # zs"] a 1(2) by simp
    then show ?thesis by (rule other) (auto simp: 1)
  next
    case 2
    have "good (B \<union> held refs (ys @ x # us1) \<union> held refs bs) (router.extend w z)"
      using all_invD(1) [of B w "ys @ x # us1" z bs] a 2(2) by simp
    then show ?thesis by (rule other) (auto simp: 2)
  qed
qed

lemma all_inv_add:
  assumes a: "all_inv good refs B w xs" and s: "good (B \<union> held refs xs \<union> L) s" "L \<inter> (B \<union> held refs xs) = {}"
    and v: "views (B \<union> held refs xs) (heap w) (heap s)"
  shows "all_inv good refs (B \<union> L) (router.truncate s) (xs @ [router.more s])"
  unfolding all_inv_def
proof (intro conjI allI impI)
  note io = inv_own [OF s(1)]
  have "B \<union> held refs xs \<union> L \<union> refs (router.more s) = B \<union> L \<union> held refs (xs @ [router.more s])" by auto
  then show own: "own_inv (B \<union> L \<union> held refs (xs @ [router.more s])) (router.truncate s)" using io by simp
  have dis: "(B \<union> L \<union> refs (router.more s)) \<inter> held refs xs = {}"
    using all_inv_disjoint [OF a] s(2) io by blast
  have "B \<union> L \<union> refs (router.more s) \<union> held refs xs = B \<union> L \<union> held refs (xs @ [router.more s])" by auto
  with own have own': "own_inv (B \<union> L \<union> refs (router.more s) \<union> held refs xs) (router.truncate s)" by simp
  have v': "views (held refs xs) (heap w) (heap (router.truncate s))"
    using v by (auto simp: views_def)
  have old: "all_inv good refs (B \<union> L \<union> refs (router.more s)) (router.truncate s) xs"
    by (rule all_inv_transfer [OF a own' dis v'])
  fix ys x zs assume xs: "xs @ [router.more s] = ys @ x # zs"
  show "good (B \<union> L \<union> held refs ys \<union> held refs zs) (router.extend (router.truncate s) x)"
  proof (cases zs rule: rev_cases)
    case Nil
    then have "ys = xs" "x = router.more s" using xs by simp_all
    moreover have "B \<union> held refs xs \<union> L = B \<union> L \<union> held refs xs" by auto
    ultimately show ?thesis using s(1) Nil by simp
  next
    case (snoc zs' z)
    then have e: "xs = ys @ x # zs'" "z = router.more s" using xs by auto
    have "B \<union> L \<union> refs (router.more s) \<union> held refs ys \<union> held refs zs' = B \<union> L \<union> held refs ys \<union> held refs zs"
      using snoc e(2) by auto
    then show ?thesis using all_invD(1) [OF old [unfolded e(1)]] by simp
  qed
qed

text \<open>A step of the session at a position, whatever event it was.\<close>

lemma all_inv_at:
  assumes a: "all_inv good refs B w xs" and i: "i < length xs"
    and law: "\<And>C. good C (router.extend w (xs ! i)) \<Longrightarrow> \<exists>L. good (C \<union> L) s \<and> L \<inter> C = {}
      \<and> (\<not> leaky \<longrightarrow> L = {}) \<and> views C (heap w) (heap s)"
  shows "\<exists>L. all_inv good refs (B \<union> L) (router.truncate s) (xs[i := router.more s]) \<and> L \<inter> B = {}
    \<and> (\<not> leaky \<longrightarrow> L = {}) \<and> views B (heap w) (heap s)"
proof -
  define ys where "ys = take i xs"
  define zs where "zs = drop (Suc i) xs"
  have xs: "xs = ys @ xs ! i # zs" using id_take_nth_drop [OF i] by (simp add: ys_def zs_def)
  have a': "all_inv good refs B w (ys @ xs ! i # zs)" using a by (simp add: xs [symmetric])
  have up: "xs[i := x] = ys @ x # zs" for x using upd_conv_take_nth_drop [OF i] by (simp add: ys_def zs_def)
  obtain L where L: "good (B \<union> held refs ys \<union> held refs zs \<union> L) s"
      "L \<inter> (B \<union> held refs ys \<union> held refs zs) = {}" "\<not> leaky \<longrightarrow> L = {}"
      "views (B \<union> held refs ys \<union> held refs zs) (heap w) (heap s)"
    using law [OF all_invD(1) [OF a']] by blast
  have "all_inv good refs (B \<union> L) (router.truncate s) (xs[i := router.more s])"
    unfolding up by (rule all_inv_step [OF a' L(1,2,4)])
  moreover have "views B (heap w) (heap s)" using L(4) by (auto simp: views_def)
  ultimately show ?thesis using L(2,3) by blast
qed

section \<open>What the router does to a list\<close>

lemma route_inv:
  assumes a: "all_inv good refs B w xs" and p: "acc_ok p" and b: "build_ok b"
    and r: "route closed flow (build b) (acc p) ip w xs = Some (w', xs')"
  shows "\<exists>L. all_inv good refs (B \<union> L) w' xs' \<and> L \<inter> B = {} \<and> (\<not> leaky \<longrightarrow> L = {}) \<and> views B (heap w) (heap w')"
proof (cases "findSession closed flow ip xs")
  case (Some i)
  then have i: "i < length xs" by (auto simp: findSession_def find_loop_Some split: if_splits)
  obtain s where s: "acc p (router.extend w (xs ! i)) = Some s" "w' = router.truncate s" "xs' = xs[i := router.more s]"
    using r Some by (auto simp: route_def split: bind_splits)
  have "\<exists>L. good (C \<union> L) s \<and> L \<inter> C = {} \<and> (\<not> leaky \<longrightarrow> L = {}) \<and> views C (heap w) (heap s)" if "good C (router.extend w (xs ! i))" for C
    using acc_law [OF that p s(1)] by simp
  from all_inv_at [OF a i this] show ?thesis using s(2,3) by simp
next
  case None
  show ?thesis
  proof (cases "build b w")
    case nb: None
    then show ?thesis using None r a by (intro exI [of _ "{}"]) (simp add: route_def views_basic(1))
  next
    case (Some s0)
    have "own_inv (B \<union> held refs xs) w" using a by (simp add: all_inv_def)
    from build_law [OF this b Some] have s0: "good (B \<union> held refs xs) s0" "heap s0 = heap w" by simp_all
    obtain s where s: "acc p s0 = Some s" "w' = router.truncate s" "xs' = xs @ [router.more s]"
      using r None Some by (auto simp: route_def split: bind_splits)
    obtain L where L: "good (B \<union> held refs xs \<union> L) s" "L \<inter> (B \<union> held refs xs) = {}"
        "\<not> leaky \<longrightarrow> L = {}" "views (B \<union> held refs xs) (heap w) (heap s)"
      using acc_law [OF s0(1) p s(1)] s0(2) by auto
    have "all_inv good refs (B \<union> L) (router.truncate s) (xs @ [router.more s])"
      by (rule all_inv_add [OF a L(1,2,4)])
    moreover have "views B (heap w) (heap (router.truncate s))"
      using L(4) by (auto simp: views_def)
    moreover have "L \<inter> B = {}" using L(2) by blast
    ultimately show ?thesis using s(2,3) L(3) by auto
  qed
qed

lemma route_total:
  assumes a: "all_inv good refs B w xs" and p: "acc_fine p" and b: "build_ok b"
  shows "route closed flow (build b) (acc p) ip w xs \<noteq> None"
proof (cases "findSession closed flow ip xs")
  case (Some i)
  then have i: "i < length xs" by (auto simp: findSession_def find_loop_Some split: if_splits)
  obtain C where "good C (router.extend w (xs ! i))"
    using all_invD(1) [of B w "take i xs" "xs ! i" "drop (Suc i) xs"] a id_take_nth_drop [OF i] by auto
  from acc_total [OF this p] show ?thesis using Some by (auto simp: route_def)
next
  case None
  have "own_inv (B \<union> held refs xs) w" using a by (simp add: all_inv_def)
  then have "acc p s0 \<noteq> None" if "build b w = Some s0" for s0
    using build_law [OF _ b that] acc_total p by blast
  then show ?thesis using None by (auto simp: route_def split: option.splits)
qed

lemma release_one:
  assumes a: "all_inv good refs B w (ys @ x # zs)"
  shows "\<exists>s. release (router.extend w x) = Some s \<and> all_inv good refs B (router.truncate s) (ys @ zs)
    \<and> views (B \<union> held refs ys \<union> held refs zs) (heap w) (heap (router.truncate s))"
proof -
  obtain s where s: "release (router.extend w x) = Some s" "own_inv (B \<union> held refs ys \<union> held refs zs) s"
      "views (B \<union> held refs ys \<union> held refs zs) (heap w) (heap s)"
    using release_law [OF all_invD(1) [OF a]] unfolding router_parts by (elim exE conjE) (rule that)
  have "all_inv good refs B (router.truncate s) (ys @ zs)"
    by (rule all_inv_release [OF a]) (use s(2,3) in \<open>simp_all only: own_inv_parts router_parts\<close>)
  then show ?thesis using s(1,3) by (intro exI [of _ s]) (simp only: router_parts simp_thms)
qed

lemma clean_list_inv:
  "all_inv good refs B w (ys @ xs) \<Longrightarrow>
   \<exists>w'. clean_list closed release w xs = Some (length (filter closed xs), w', filter (\<lambda>x. \<not> closed x) xs)
     \<and> all_inv good refs B w' (ys @ filter (\<lambda>x. \<not> closed x) xs)
     \<and> views (B \<union> held refs ys \<union> held refs (filter (\<lambda>x. \<not> closed x) xs)) (heap w) (heap w')"
proof (induction xs arbitrary: w ys)
  case Nil
  then show ?case by (simp add: views_basic(1))
next
  case (Cons x xs)
  show ?case
  proof (cases "closed x")
    case True
    obtain s where s: "release (router.extend w x) = Some s" "all_inv good refs B (router.truncate s) (ys @ xs)"
        "views (B \<union> held refs ys \<union> held refs xs) (heap w) (heap (router.truncate s))"
      using release_one [OF Cons.prems] by blast
    from Cons.IH [OF s(2)] obtain w' where
      w': "clean_list closed release (router.truncate s) xs = Some (length (filter closed xs), w', filter (\<lambda>x. \<not> closed x) xs)"
        "all_inv good refs B w' (ys @ filter (\<lambda>x. \<not> closed x) xs)"
        "views (B \<union> held refs ys \<union> held refs (filter (\<lambda>x. \<not> closed x) xs)) (heap (router.truncate s)) (heap w')" by blast
    have "held refs (filter (\<lambda>x. \<not> closed x) xs) \<subseteq> held refs xs" by (auto simp: held_def)
    then have "views (B \<union> held refs ys \<union> held refs (filter (\<lambda>x. \<not> closed x) xs)) (heap w) (heap (router.truncate s))"
      by (intro views_basic(3) [OF s(3)]) blast
    from views_basic(2) [OF this w'(3)] show ?thesis using True s(1) w'(1,2) by simp
  next
    case False
    have a: "all_inv good refs B w ((ys @ [x]) @ xs)" using Cons.prems by simp
    from Cons.IH [OF a] False show ?thesis by (auto simp: Un_assoc)
  qed
qed

lemma releaseSessions_inv:
  "all_inv good refs B w xs \<Longrightarrow> \<exists>w'. releaseSessions release w xs = Some w' \<and> own_inv B w' \<and> views B (heap w) (heap w')"
proof (induction xs arbitrary: w)
  case Nil
  then show ?case by (simp add: all_inv_def views_basic(1))
next
  case (Cons x xs)
  obtain s where s: "release (router.extend w x) = Some s" "all_inv good refs B (router.truncate s) xs"
      "views (B \<union> held refs [] \<union> held refs xs) (heap w) (heap (router.truncate s))"
    using release_one [of B w "[]" x xs, unfolded append_Nil, OF Cons.prems] by (elim exE conjE) (rule that)
  from Cons.IH [OF s(2)] obtain w' where "releaseSessions release (router.truncate s) xs = Some w'" "own_inv B w'"
      "views B (heap (router.truncate s)) (heap w')" by blast
  moreover have "views B (heap w) (heap (router.truncate s))" by (rule views_basic(3) [OF s(3)]) simp
  ultimately show ?case using s(1) views_basic(2) [of B "heap w" "heap (router.truncate s)" "heap w'"] by simp
qed

end

end
