(* ===== verification/Routing.thy ===== *)
theory Routing
  imports Sessions
begin

text \<open>
  \<^verbatim>\<open>core/Router.h\<close> and \<^verbatim>\<open>core/Router.cpp\<close> with both lists of sessions: where a packet of the application goes, the
  periodical clean-up, and the end of the router. Together with the sessions' own events this is
  the whole program between the tun device and the sockets.
\<close>

section \<open>The router with its sessions\<close>

type_synonym tcp_part = "unit session_ext"
type_synonym udp_part = "unit udp_session_ext"

record vpn =
  net :: router
  mUDPSessions :: "udp_part list"
  mTCPSessions :: "tcp_part list"

text \<open>What \<^verbatim>\<open>findSession\<close> reads of a session.\<close>

definition as_tcp :: "tcp_part \<Rightarrow> session" where "as_tcp x = router.extend router0 x"
definition as_udp :: "udp_part \<Rightarrow> udp_session" where "as_udp x = router.extend router0 x"

definition tcp_flow :: "tcp_part \<Rightarrow> flow" where
  "tcp_flow x = (let s = as_tcp x in (mIPVer s, mSrcAddr s, mDestAddr s, mSrcPort s, mDestPort s))"

definition udp_flow :: "udp_part \<Rightarrow> flow" where
  "udp_flow x = (let s = as_udp x in (uIPVer s, uSrcAddr s, uDestAddr s, uSrcPort s, uDestPort s))"

definition tcp_closed :: "int \<Rightarrow> tcp_part \<Rightarrow> bool" where "tcp_closed now x = hasClosed now (as_tcp x)"
definition udp_closed :: "udp_part \<Rightarrow> bool" where "udp_closed x = udp_hasClosed (as_udp x)"

text \<open>
  \<^verbatim>\<open>onReadable\<close>: \<^term>\<open>None\<close> is an error of \<^verbatim>\<open>read\<close>. The time, the random number and the environment of a new
  session are arguments, and so is the old content of an array a UDP session's log line is made in.
\<close>

definition router_onReadable :: "packet option \<Rightarrow> int \<Rightarrow> u32 \<Rightarrow> birth \<Rightarrow> udp_birth \<Rightarrow> bytes \<Rightarrow> vpn \<Rightarrow> vpn option" where
  "router_onReadable rd now rnd b ub junk v =
     (case rd of
        None \<Rightarrow> Some v
      | Some h \<Rightarrow>
          if getProtocol h = PROTO_UDP
          then do { (w, xs) \<leftarrow> route udp_closed udp_flow (udp_buildSession h ub) (\<lambda>s. map_option snd (udp_accept h now junk s))
                                 h (net v) (mUDPSessions v);
                    Some (v\<lparr>net := w, mUDPSessions := xs\<rparr>) }
          else if getProtocol h = PROTO_TCP
          then do { (w, xs) \<leftarrow> route (tcp_closed now) tcp_flow (buildSession h b) (accept h now rnd)
                                 h (net v) (mTCPSessions v);
                    Some (v\<lparr>net := w, mTCPSessions := xs\<rparr>) }
          else Some v)"

definition router_onWritable :: "int list \<Rightarrow> vpn \<Rightarrow> vpn option" where
  "router_onWritable ws v = map_option (\<lambda>w. v\<lparr>net := w\<rparr>) (onWritable ws (net v))"

text \<open>\<^verbatim>\<open>cleanDeadSessions\<close>, and \<^verbatim>\<open>onPeriodicallyCheck\<close>, which ignores its result.\<close>

definition cleanDeadSessions :: "int \<Rightarrow> vpn \<Rightarrow> (nat \<times> vpn) option" where
  "cleanDeadSessions now v =
     do { (r1, w1, us) \<leftarrow> clean_list udp_closed udp_releaseSession (net v) (mUDPSessions v);
          (r2, w2, ts) \<leftarrow> clean_list (tcp_closed now) releaseSession w1 (mTCPSessions v);
          Some (r1 + r2, v\<lparr>net := w2, mUDPSessions := us, mTCPSessions := ts\<rparr>) }"

definition router_onPeriodicallyCheck :: "int \<Rightarrow> vpn \<Rightarrow> vpn option" where
  "router_onPeriodicallyCheck now v = map_option snd (cleanDeadSessions now v)"

text \<open>\<^verbatim>\<open>releaseData\<close> is \<^verbatim>\<open>BufferQueue::clear\<close>: every queued datagram is deleted.\<close>

definition releaseData :: "router \<Rightarrow> router option" where
  "releaseData w = do { w1 \<leftarrow> each delete (tunData w) w; Some (w1\<lparr>tunData := []\<rparr>) }"

definition router_delete :: "vpn \<Rightarrow> router option" where
  "router_delete v =
     do { w1 \<leftarrow> releaseSessions udp_releaseSession (net v) (mUDPSessions v);
          w2 \<leftarrow> releaseSessions releaseSession w1 (mTCPSessions v);
          releaseData w2 }"

definition vpn0 :: vpn where
  "vpn0 = \<lparr>net = router0, mUDPSessions = [], mTCPSessions = []\<rparr>"

section \<open>TCP and UDP sessions meet the interface\<close>

definition tcp_refs :: "tcp_part \<Rightarrow> ref set" where "tcp_refs x = set (mBackQueue (as_tcp x))"

lemma tcp_more:
  fixes s s' :: session
  assumes "router.more s = router.more s'"
  shows "mBackQueue s = mBackQueue s'" "mBackQueueDataSize s = mBackQueueDataSize s'" "mIPVer s = mIPVer s'"
    "mForwardQueue s = mForwardQueue s'" "hasClosed now s = hasClosed now s'" "mSrcAddr s = mSrcAddr s'"
    "mDestAddr s = mDestAddr s'" "mSrcPort s = mSrcPort s'" "mDestPort s = mDestPort s'"
    "mWindowScale s = mWindowScale s'"
  using assms by (cases s; cases s'; simp add: hasClosed_def timeout_def)+

lemma udp_more:
  fixes s s' :: udp_session
  assumes "router.more s = router.more s'"
  shows "uIPVer s = uIPVer s'" "backs s = backs s'" "uOutBuffer s = uOutBuffer s'" "uTunnel s = uTunnel s'"
    "uAlive s = uAlive s'" "uReactor s = uReactor s'" "uOpen s = uOpen s'"
  using assms by (cases s; cases s'; simp add: backs_def)+

lemma tcp_refs_more [simp]: "tcp_refs (router.more s) = set (mBackQueue (s :: session))"
  unfolding tcp_refs_def as_tcp_def by (subst tcp_more(1) [of _ s]) simp_all

lemma sess_inv_transfer:
  assumes inv: "sess_inv B s" and own: "own_inv (C \<union> set (mBackQueue s)) w" and dis: "C \<inter> set (mBackQueue s) = {}"
    and v: "views (set (mBackQueue s)) (heap s) (heap w)"
  shows "sess_inv C (router.extend w (router.more s))"
proof -
  define s' where "s' = (router.extend w (router.more s) :: session)"
  have more: "router.more s' = router.more s" by (simp add: s'_def)
  note f = tcp_more [OF more]
  have "cap_of s' r = cap_of s r" if "r \<in> set (mBackQueue s)" for r
  proof -
    have "map_option dgram_view (heap w r) = map_option dgram_view (heap s r)" using v that by (simp add: views_def)
    then show ?thesis
      by (cases "heap w r"; cases "heap s r") (auto simp: cap_of_def s'_def dgram_view_def)
  qed
  then have "map (cap_of s') (mBackQueue s) = map (cap_of s) (mBackQueue s)" by (intro map_cong refl) simp
  then have "sum_list (map (cap_of s') (mBackQueue s)) = sum_list (map (cap_of s) (mBackQueue s))" by (rule arg_cong)
  moreover have "own_inv (C \<union> set (mBackQueue s)) s'" using own by (simp add: s'_def)
  ultimately show ?thesis using inv dis unfolding s'_def [symmetric] sess_inv_def f by (simp del: map_eq_conv)
qed

interpretation tcp: session_kind sess_inv tcp_refs "\<lambda>(ip, now, rnd). accept ip now rnd"
  "\<lambda>(ip, now, rnd). 0 \<le> getPayloadLen ip" "\<lambda>(ip, now, rnd). packet_ok ip \<and> scale_ok ip" "\<lambda>(ip, b). buildSession ip b" "\<lambda>_. True" releaseSession False
proof unfold_locales
  fix B s assume "sess_inv B s"
  then show "own_inv (B \<union> tcp_refs (router.more s)) s \<and> B \<inter> tcp_refs (router.more s) = {}"
    by (simp add: sess_inv_def)
next
  fix B and s :: session and C :: "ref set" and w :: router
  assume "sess_inv B s" "own_inv (C \<union> tcp_refs (router.more s)) w" "C \<inter> tcp_refs (router.more s) = {}"
    "views (tcp_refs (router.more s)) (heap s) (heap w)"
  then show "sess_inv C (router.extend w (router.more s))" using sess_inv_transfer by simp
next
  fix B s s' and p :: "packet \<times> int \<times> u32"
  assume i: "sess_inv B s" and p: "(\<lambda>(ip, now, rnd). 0 \<le> getPayloadLen ip) p"
    and a: "(\<lambda>(ip, now, rnd). accept ip now rnd) p s = Some s'"
  have "safe_step B s s'" using accept_safe [OF i] p a by (auto split: prod.splits)
  then show "\<exists>L. sess_inv (B \<union> L) s' \<and> L \<inter> B = {} \<and> (\<not> False \<longrightarrow> L = {}) \<and> views B (heap s) (heap s')"
    by (intro exI [of _ "{}"]) (simp add: safe_step_def same_view_views)
next
  fix B s and p :: "packet \<times> int \<times> u32"
  assume "sess_inv B s" "(\<lambda>(ip, now, rnd). packet_ok ip \<and> scale_ok ip) p"
  then show "(\<lambda>(ip, now, rnd). accept ip now rnd) p s \<noteq> None"
    by (cases p) (auto dest: accept_fine)
next
  fix B w and b :: "packet \<times> birth" and s
  assume "own_inv B w" "(\<lambda>(ip, b). buildSession ip b) b w = Some s"
  then show "sess_inv B s \<and> heap s = heap w"
    using buildSession_inv buildSession_born by (cases b) fastforce
next
  fix B s assume "sess_inv B s"
  then show "\<exists>s'. releaseSession s = Some s' \<and> own_inv B s' \<and> views B (heap s) (heap s')"
    using releaseSession_safe [of B s] by (simp add: same_view_views)
qed

definition udp_good :: "ref set \<Rightarrow> udp_session \<Rightarrow> bool" where
  "udp_good B s \<longleftrightarrow> (\<exists>k. udp_inv k B {} s)"

lemma udp_goodI: "udp_inv k B L s \<Longrightarrow> udp_good (B \<union> L) s"
  by (auto simp: udp_good_def udp_inv_def)

lemma udp_ok_good:
  assumes "udp_ok k B {} s s'"
  shows "\<exists>L. udp_good (B \<union> L) s' \<and> L \<inter> B = {} \<and> views B (heap s) (heap s')"
proof -
  obtain L where L: "udp_inv k B L s'" "same_view (B \<union> {}) s s'" using assms by (auto simp: udp_ok_def)
  moreover have "L \<inter> B = {}" using L(1) by (auto simp: udp_inv_def)
  ultimately show ?thesis using udp_goodI [OF L(1)] by (auto simp: same_view_views)
qed

interpretation udp: session_kind udp_good "\<lambda>_. {}" "\<lambda>(ip, now, junk) s. map_option snd (udp_accept ip now junk s)"
  "\<lambda>(ip, now, junk). getPayloadLen ip \<noteq> 0" "\<lambda>(ip, now, junk). 0 < getPayloadLen ip \<and> accept_text ip junk \<noteq> None" "\<lambda>(ip, b). udp_buildSession ip b"
  "\<lambda>(ip, b). \<forall>p. ub_proxy b = Some p \<longrightarrow> sound p" udp_releaseSession True
proof unfold_locales
  fix B s assume "udp_good B s"
  then show "own_inv (B \<union> {}) s \<and> B \<inter> {} = {}" by (auto simp: udp_good_def udp_inv_def)
next
  fix B and s :: udp_session and C :: "ref set" and w :: router
  assume g: "udp_good B s" and own: "own_inv (C \<union> {}) w"
  define s' where "s' = (router.extend w (router.more s) :: udp_session)"
  have more: "router.more s' = router.more s" by (simp add: s'_def)
  have "own_inv C s'" using own by (simp add: s'_def)
  then have "udp_good C s'" using g unfolding udp_good_def udp_inv_def udp_more [OF more] by auto
  then show "udp_good C (router.extend w (router.more s))" by (simp add: s'_def)
next
  fix B s s' and p :: "packet \<times> int \<times> bytes"
  assume g: "udp_good B s" and p: "(\<lambda>(ip, now, junk). getPayloadLen ip \<noteq> 0) p"
    and a: "(\<lambda>(ip, now, junk) s. map_option snd (udp_accept ip now junk s)) p s = Some s'"
  obtain ip now junk where e: "p = (ip, now, junk)" by (cases p) auto
  obtain k where k: "udp_inv k B {} s" using g by (auto simp: udp_good_def)
  have "udp_ok k B {} s s'"
    using udp_accept_cases [OF k, of ip junk now] p a e by (auto split: if_splits)
  then show "\<exists>L. udp_good (B \<union> L) s' \<and> L \<inter> B = {} \<and> (\<not> True \<longrightarrow> L = {}) \<and> views B (heap s) (heap s')"
    using udp_ok_good by auto
next
  fix B s and p :: "packet \<times> int \<times> bytes"
  assume g: "udp_good B s" and p: "(\<lambda>(ip, now, junk). 0 < getPayloadLen ip \<and> accept_text ip junk \<noteq> None) p"
  obtain ip now junk where e: "p = (ip, now, junk)" by (cases p) auto
  obtain k where "udp_inv k B {} s" using g by (auto simp: udp_good_def)
  from udp_accept_ok [OF this, of ip junk now]
  show "(\<lambda>(ip, now, junk) s. map_option snd (udp_accept ip now junk s)) p s \<noteq> None" using p e by auto
next
  fix B w and b :: "packet \<times> udp_birth" and s
  assume own: "own_inv B w" and ok: "(\<lambda>(ip, b). \<forall>p. ub_proxy b = Some p \<longrightarrow> sound p) b"
    and s: "(\<lambda>(ip, b). udp_buildSession ip b) b w = Some s"
  obtain ip ub where e: "b = (ip, ub)" by fastforce
  have s': "udp_buildSession ip ub w = Some s" using s e by simp
  have "udp_inv 0 B {} s" using own s' ok e by (intro udp_buildSession_inv) simp_all
  moreover have "heap s = heap w" using s' by (rule udp_buildSession_fields(1))
  ultimately show "udp_good B s \<and> heap s = heap w" unfolding udp_good_def by blast
next
  fix B s assume "udp_good B s"
  then obtain k where k: "udp_inv k B {} s" by (auto simp: udp_good_def)
  obtain s' where s': "udp_releaseSession s = Some s'" "heap s' = heap s" "tunData s' = tunData s" "next_ref s' = next_ref s"
    using udp_releaseSession_ok [OF k] by blast
  have "own_inv B s' = own_inv B s" using s'(2-4) by (rule own_inv_frame)
  then show "\<exists>s'. udp_releaseSession s = Some s' \<and> own_inv B s' \<and> views B (heap s) (heap s')"
    using s' k by (auto simp: udp_inv_def views_basic(1))
qed

end
