(* ===== verification/VpnRun.thy ===== *)
theory VpnRun
  imports Routing
begin

text \<open>
  All runs of the router with its sessions: packets of the application, events of the sockets and tunnels, device
  writes and the periodical clean-up, in any order, from the empty router to its destructor.
\<close>

section \<open>Runs\<close>

text \<open>
  A run takes every packet but those that leave a session broken: TCP packets whose length field does not cover their headers
  (\<open>short_packet_breaks\<close>) and UDP datagrams without payload (\<open>udp_empty_datagram\<close>). \<open>u\<close> says whether the run has UDP packets.
\<close>

definition read_ok :: "bool \<Rightarrow> packet \<Rightarrow> udp_birth \<Rightarrow> bool" where
  "read_ok u h ub \<longleftrightarrow>
     (getProtocol h = PROTO_UDP \<longrightarrow> u \<and> getPayloadLen h \<noteq> 0 \<and> (\<forall>p. ub_proxy ub = Some p \<longrightarrow> sound p))
     \<and> (getProtocol h = PROTO_TCP \<longrightarrow> 0 \<le> getPayloadLen h)"

text \<open>
  Packets on which no handler gets stuck: the searches for TCP options return and the window scale can be shifted by, the UDP
  datagram has a payload and its line for the log returns.
\<close>

definition read_fine :: "packet \<Rightarrow> bytes \<Rightarrow> bool" where
  "read_fine h junk \<longleftrightarrow>
     (getProtocol h = PROTO_UDP \<longrightarrow> 0 < getPayloadLen h \<and> accept_text h junk \<noteq> None)
     \<and> (getProtocol h = PROTO_TCP \<longrightarrow> packet_ok h \<and> scale_ok h)"

inductive vpn_step :: "bool \<Rightarrow> vpn \<Rightarrow> vpn \<Rightarrow> bool" for u where
  packet: "read_ok u h ub \<Longrightarrow> router_onReadable (Some h) now rnd b ub junk v = Some v' \<Longrightarrow> vpn_step u v v'"
| device: "router_onWritable ws v = Some v' \<Longrightarrow> vpn_step u v v'"
| check: "router_onPeriodicallyCheck now v = Some v' \<Longrightarrow> vpn_step u v v'"
| tcp: "i < length (mTCPSessions v) \<Longrightarrow> tcp_step (router.extend (net v) (mTCPSessions v ! i)) s
    \<Longrightarrow> vpn_step u v (v\<lparr>net := router.truncate s, mTCPSessions := (mTCPSessions v)[i := router.more s]\<rparr>)"
| udp: "i < length (mUDPSessions v) \<Longrightarrow> udp_step (router.extend (net v) (mUDPSessions v ! i)) s
    \<Longrightarrow> vpn_step u v (v\<lparr>net := router.truncate s, mUDPSessions := (mUDPSessions v)[i := router.more s]\<rparr>)"

text \<open>\<open>L\<close> are the datagrams no session holds and nobody will free.\<close>

definition vpn_inv :: "bool \<Rightarrow> ref set \<Rightarrow> vpn \<Rightarrow> bool" where
  "vpn_inv u L v \<longleftrightarrow> all_inv sess_inv tcp_refs L (net v) (mTCPSessions v)
     \<and> all_inv udp_good (\<lambda>_. {}) (L \<union> held tcp_refs (mTCPSessions v)) (net v) (mUDPSessions v)
     \<and> (\<not> u \<longrightarrow> L = {} \<and> mUDPSessions v = [])"

lemma held_empty [simp]: "held (\<lambda>_. {}) xs = {}"
  by (simp add: held_def)

lemma views_empty [simp]: "views {} h h'"
  by (simp add: views_def)

lemma vpn0_inv: "vpn_inv u {} vpn0"
  using router0_inv by (simp add: vpn_inv_def all_inv_def vpn0_def)

text \<open>One list has moved; the other is carried along.\<close>

lemma vpn_inv_udp_moved:
  assumes inv: "vpn_inv True L v" and K: "K \<inter> (L \<union> held tcp_refs (mTCPSessions v)) = {}"
    and us: "all_inv udp_good (\<lambda>_. {}) (L \<union> held tcp_refs (mTCPSessions v) \<union> K) w us"
    and v: "views (L \<union> held tcp_refs (mTCPSessions v)) (heap (net v)) (heap w)"
  shows "vpn_inv True (L \<union> K) (v\<lparr>net := w, mUDPSessions := us\<rparr>)"
proof -
  define H where "H = held tcp_refs (mTCPSessions v)"
  have ts: "all_inv sess_inv tcp_refs L (net v) (mTCPSessions v)" using inv by (simp add: vpn_inv_def)
  have e: "L \<union> H \<union> K = L \<union> K \<union> H" by auto
  have own: "own_inv (L \<union> K \<union> H) w" using us by (simp add: all_inv_def H_def [symmetric] e)
  have dis: "(L \<union> K) \<inter> H = {}" using K tcp.all_inv_disjoint [OF ts] by (auto simp: H_def)
  have "views H (heap (net v)) (heap w)" using v by (rule views_basic(3)) (simp add: H_def)
  then have "all_inv sess_inv tcp_refs (L \<union> K) w (mTCPSessions v)"
    using own dis unfolding H_def by (intro tcp.all_inv_transfer [OF ts])
  then show ?thesis using us by (simp add: vpn_inv_def H_def [symmetric] e)
qed

lemma vpn_inv_tcp_moved:
  assumes inv: "vpn_inv u L v" and ts: "all_inv sess_inv tcp_refs L w ts"
  shows "vpn_inv u L (v\<lparr>net := w, mTCPSessions := ts\<rparr>)"
proof -
  have us: "all_inv udp_good (\<lambda>_. {}) (L \<union> held tcp_refs (mTCPSessions v)) (net v) (mUDPSessions v)"
    using inv by (simp add: vpn_inv_def)
  have "own_inv (L \<union> held tcp_refs ts) w" using ts by (simp add: all_inv_def)
  then have "all_inv udp_good (\<lambda>_. {}) (L \<union> held tcp_refs ts) w (mUDPSessions v)"
    by (intro udp.all_inv_transfer [OF us]) simp_all
  then show ?thesis using inv ts by (simp add: vpn_inv_def)
qed

lemma vpn_inv_both: "vpn_inv u L v \<Longrightarrow> u \<or> vpn_inv True L v"
  by (simp add: vpn_inv_def)

section \<open>The handlers\<close>

lemma vpn_inv_own: "vpn_inv u L v \<Longrightarrow> own_inv (L \<union> held tcp_refs (mTCPSessions v)) (net v)"
  by (simp add: vpn_inv_def all_inv_def)

lemma router_onReadable_vpn:
  assumes inv: "vpn_inv u L v" and ok: "read_ok u h ub" and r: "router_onReadable (Some h) now rnd b ub junk v = Some v'"
  shows "\<exists>K. vpn_inv u (L \<union> K) v'"
proof (cases "getProtocol h = PROTO_UDP")
  case True
  then have u: "u" and p: "getPayloadLen h \<noteq> 0" "\<forall>p. ub_proxy ub = Some p \<longrightarrow> sound p" using ok by (simp_all add: read_ok_def)
  have us: "all_inv udp_good (\<lambda>_. {}) (L \<union> held tcp_refs (mTCPSessions v)) (net v) (mUDPSessions v)"
    using inv by (simp add: vpn_inv_def)
  obtain w xs where w: "route udp_closed udp_flow (udp_buildSession h ub) (\<lambda>s. map_option snd (udp_accept h now junk s)) h
        (net v) (mUDPSessions v) = Some (w, xs)" "v' = v\<lparr>net := w, mUDPSessions := xs\<rparr>"
    using r True by (auto simp: router_onReadable_def split: bind_splits)
  obtain K where "all_inv udp_good (\<lambda>_. {}) (L \<union> held tcp_refs (mTCPSessions v) \<union> K) w xs"
      "K \<inter> (L \<union> held tcp_refs (mTCPSessions v)) = {}"
      "views (L \<union> held tcp_refs (mTCPSessions v)) (heap (net v)) (heap w)"
    using udp.route_inv [OF us, where p = "(h, now, junk)" and b = "(h, ub)" and closed = udp_closed and flow = udp_flow and ip = h]
      p w(1) by auto
  moreover have "vpn_inv True L v" using inv u by simp
  ultimately have "vpn_inv True (L \<union> K) v'" unfolding w(2) by (intro vpn_inv_udp_moved)
  then show ?thesis using u by auto
next
  case F: False
  show ?thesis
  proof (cases "getProtocol h = PROTO_TCP")
    case True
    then have p: "0 \<le> getPayloadLen h" using ok by (simp add: read_ok_def)
    have ts: "all_inv sess_inv tcp_refs L (net v) (mTCPSessions v)" using inv by (simp add: vpn_inv_def)
    obtain w xs where w: "route (tcp_closed now) tcp_flow (buildSession h b) (accept h now rnd) h (net v) (mTCPSessions v)
        = Some (w, xs)" "v' = v\<lparr>net := w, mTCPSessions := xs\<rparr>"
      using r F True by (auto simp: router_onReadable_def split: bind_splits)
    have "all_inv sess_inv tcp_refs L w xs"
      using tcp.route_inv [OF ts, where p = "(h, now, rnd)" and b = "(h, b)" and closed = "tcp_closed now" and flow = tcp_flow
        and ip = h] p w(1) by auto
    then have "vpn_inv u (L \<union> {}) v'" using vpn_inv_tcp_moved [OF inv] w(2) by simp
    then show ?thesis by blast
  next
    case False
    then have "v' = v" using F r by (simp add: router_onReadable_def)
    then show ?thesis using inv by (intro exI [of _ "{}"]) simp
  qed
qed

lemma router_onReadable_defined:
  assumes inv: "vpn_inv u L v" and ok: "read_ok u h ub" and fine: "read_fine h junk"
  shows "\<exists>v'. router_onReadable (Some h) now rnd b ub junk v = Some v'"
proof (cases "getProtocol h = PROTO_UDP")
  case True
  then have p: "\<forall>p. ub_proxy ub = Some p \<longrightarrow> sound p" "0 < getPayloadLen h \<and> accept_text h junk \<noteq> None"
    using ok fine by (simp_all add: read_ok_def read_fine_def)
  have us: "all_inv udp_good (\<lambda>_. {}) (L \<union> held tcp_refs (mTCPSessions v)) (net v) (mUDPSessions v)"
    using inv by (simp add: vpn_inv_def)
  show ?thesis
    using udp.route_total [OF us, where p = "(h, now, junk)" and b = "(h, ub)" and closed = udp_closed and flow = udp_flow and ip = h]
      p True
    by (auto simp: router_onReadable_def)
next
  case F: False
  show ?thesis
  proof (cases "getProtocol h = PROTO_TCP")
    case True
    then have p: "packet_ok h \<and> scale_ok h" using fine by (simp add: read_fine_def)
    have ts: "all_inv sess_inv tcp_refs L (net v) (mTCPSessions v)" using inv by (simp add: vpn_inv_def)
    show ?thesis
      using tcp.route_total [OF ts, where p = "(h, now, rnd)" and b = "(h, b)" and closed = "tcp_closed now" and flow = tcp_flow
        and ip = h] p True F
      by (auto simp: router_onReadable_def)
  qed (use F in \<open>simp add: router_onReadable_def\<close>)
qed

lemma router_onWritable_vpn:
  assumes inv: "vpn_inv u L v"
  shows "\<exists>v'. router_onWritable ws v = Some v' \<and> vpn_inv u L v'"
proof -
  have ts: "all_inv sess_inv tcp_refs L (net v) (mTCPSessions v)" using inv by (simp add: vpn_inv_def)
  define B where "B = L \<union> held tcp_refs (mTCPSessions v)"
  have own: "own_inv B (net v)" using vpn_inv_own [OF inv] by (simp add: B_def)
  obtain w where w: "write_loop ws (net v) = Some w" "drained B (net v) w" using write_loop_drained [OF own] by blast
  define w1 where "w1 = w\<lparr>tunWrite := False\<rparr>"
  have o: "own_inv B w1" using w(2) by (simp add: drained_def w1_def own_inv_def)
  have "views B (heap (net v)) (heap w1)" using w(2) by (simp add: drained_def same_view_views w1_def)
  then have "views (held tcp_refs (mTCPSessions v)) (heap (net v)) (heap w1)" by (rule views_basic(3)) (simp add: B_def)
  then have "all_inv sess_inv tcp_refs L w1 (mTCPSessions v)"
    using o tcp.all_inv_disjoint [OF ts] unfolding B_def by (intro tcp.all_inv_transfer [OF ts])
  from vpn_inv_tcp_moved [OF inv this] have "vpn_inv u L (v\<lparr>net := w1\<rparr>)" by simp
  then show ?thesis using w(1) by (simp add: router_onWritable_def onWritable_def w1_def)
qed

text \<open>The periodical check: exactly the closed sessions go, and what the others hold is untouched.\<close>

lemma cleanDeadSessions_vpn:
  assumes inv: "vpn_inv u L v"
  shows "\<exists>w. cleanDeadSessions now v
      = Some (length (filter udp_closed (mUDPSessions v)) + length (filter (tcp_closed now) (mTCPSessions v)),
          v\<lparr>net := w, mUDPSessions := filter (\<lambda>x. \<not> udp_closed x) (mUDPSessions v),
            mTCPSessions := filter (\<lambda>x. \<not> tcp_closed now x) (mTCPSessions v)\<rparr>)
    \<and> vpn_inv u L (v\<lparr>net := w, mUDPSessions := filter (\<lambda>x. \<not> udp_closed x) (mUDPSessions v),
            mTCPSessions := filter (\<lambda>x. \<not> tcp_closed now x) (mTCPSessions v)\<rparr>)
    \<and> views (L \<union> held tcp_refs (filter (\<lambda>x. \<not> tcp_closed now x) (mTCPSessions v))) (heap (net v)) (heap w)"
proof -
  define ts where "ts = filter (\<lambda>x. \<not> tcp_closed now x) (mTCPSessions v)"
  define us where "us = filter (\<lambda>x. \<not> udp_closed x) (mUDPSessions v)"
  define H where "H = held tcp_refs (mTCPSessions v)"
  have T: "all_inv sess_inv tcp_refs L (net v) ([] @ mTCPSessions v)"
    and U: "all_inv udp_good (\<lambda>_. {}) (L \<union> H) (net v) ([] @ mUDPSessions v)"
    using inv by (simp_all add: vpn_inv_def H_def)
  obtain w1 where w1: "clean_list udp_closed udp_releaseSession (net v) (mUDPSessions v)
        = Some (length (filter udp_closed (mUDPSessions v)), w1, us)"
      "all_inv udp_good (\<lambda>_. {}) (L \<union> H) w1 us" "views (L \<union> H) (heap (net v)) (heap w1)"
    using udp.clean_list_inv [OF U, of udp_closed] by (auto simp: us_def)
  have "own_inv (L \<union> H) w1" using w1(2) by (simp add: all_inv_def)
  moreover have "views H (heap (net v)) (heap w1)" using w1(3) by (rule views_basic(3)) simp
  moreover have "L \<inter> H = {}" using tcp.all_inv_disjoint [OF T] by (simp add: H_def)
  ultimately have T1: "all_inv sess_inv tcp_refs L w1 ([] @ mTCPSessions v)"
    using tcp.all_inv_transfer [OF T, of L w1] by (simp add: H_def)
  obtain w2 where w2: "clean_list (tcp_closed now) releaseSession w1 (mTCPSessions v)
        = Some (length (filter (tcp_closed now) (mTCPSessions v)), w2, ts)"
      "all_inv sess_inv tcp_refs L w2 ts" "views (L \<union> held tcp_refs ts) (heap w1) (heap w2)"
    using tcp.clean_list_inv [OF T1, of "tcp_closed now"] by (auto simp: ts_def)
  have "held tcp_refs ts \<subseteq> H" by (auto simp: held_def H_def ts_def)
  then have "views (L \<union> held tcp_refs ts) (heap (net v)) (heap w1)" by (intro views_basic(3) [OF w1(3)]) blast
  then have vw: "views (L \<union> held tcp_refs ts) (heap (net v)) (heap w2)" using w2(3) by (rule views_basic(2))
  have "own_inv (L \<union> held tcp_refs ts) w2" using w2(2) by (simp add: all_inv_def)
  then have "all_inv udp_good (\<lambda>_. {}) (L \<union> held tcp_refs ts) w2 us"
    by (intro udp.all_inv_transfer [OF w1(2)]) simp_all
  then have "vpn_inv u L (v\<lparr>net := w2, mUDPSessions := us, mTCPSessions := ts\<rparr>)"
    using w2(2) inv by (auto simp: vpn_inv_def us_def)
  then show ?thesis using w1(1) w2(1) vw by (auto simp: cleanDeadSessions_def us_def ts_def)
qed

lemma vpn_tcp_event:
  assumes inv: "vpn_inv u L v" and i: "i < length (mTCPSessions v)"
    and st: "tcp_step (router.extend (net v) (mTCPSessions v ! i)) s"
  shows "vpn_inv u L (v\<lparr>net := router.truncate s, mTCPSessions := (mTCPSessions v)[i := router.more s]\<rparr>)"
proof -
  have ts: "all_inv sess_inv tcp_refs L (net v) (mTCPSessions v)" using inv by (simp add: vpn_inv_def)
  have law: "\<exists>K. sess_inv (C \<union> K) s \<and> K \<inter> C = {} \<and> (\<not> False \<longrightarrow> K = {}) \<and> views C (heap (net v)) (heap s)"
    if "sess_inv C (router.extend (net v) (mTCPSessions v ! i))" for C
    using tcp_step_inv [OF st that] by (intro exI [of _ "{}"]) (simp add: safe_step_def same_view_views)
  have "all_inv sess_inv tcp_refs L (router.truncate s) ((mTCPSessions v)[i := router.more s])"
    using tcp.all_inv_at [OF ts i law] by auto
  then show ?thesis by (rule vpn_inv_tcp_moved [OF inv])
qed

lemma vpn_udp_event:
  assumes inv: "vpn_inv u L v" and i: "i < length (mUDPSessions v)"
    and st: "udp_step (router.extend (net v) (mUDPSessions v ! i)) s"
  shows "\<exists>K. vpn_inv u (L \<union> K) (v\<lparr>net := router.truncate s, mUDPSessions := (mUDPSessions v)[i := router.more s]\<rparr>)"
proof -
  have u: "u" using inv i by (auto simp: vpn_inv_def)
  have us: "all_inv udp_good (\<lambda>_. {}) (L \<union> held tcp_refs (mTCPSessions v)) (net v) (mUDPSessions v)"
    using inv by (simp add: vpn_inv_def)
  have law: "\<exists>K. udp_good (C \<union> K) s \<and> K \<inter> C = {} \<and> (\<not> True \<longrightarrow> K = {}) \<and> views C (heap (net v)) (heap s)"
    if g: "udp_good C (router.extend (net v) (mUDPSessions v ! i))" for C
  proof -
    obtain k where "udp_inv k C {} (router.extend (net v) (mUDPSessions v ! i))" using g by (auto simp: udp_good_def)
    from udp_ok_good [OF udp_step_ok [OF st this]] show ?thesis by simp
  qed
  from udp.all_inv_at [OF us i law] obtain K where
    K: "all_inv udp_good (\<lambda>_. {}) (L \<union> held tcp_refs (mTCPSessions v) \<union> K) (router.truncate s) ((mUDPSessions v)[i := router.more s])"
      "K \<inter> (L \<union> held tcp_refs (mTCPSessions v)) = {}"
      "views (L \<union> held tcp_refs (mTCPSessions v)) (heap (net v)) (heap (router.truncate s))" by auto
  have "vpn_inv True L v" using inv u by simp
  from vpn_inv_udp_moved [OF this K(2,1,3)] show ?thesis using u by auto
qed

lemma vpn_step_inv: "vpn_step u v v' \<Longrightarrow> vpn_inv u L v \<Longrightarrow> \<exists>K. vpn_inv u (L \<union> K) v'"
proof (induction rule: vpn_step.induct)
  case (packet h ub now rnd b junk v v')
  then show ?case using router_onReadable_vpn [OF packet(3,1,2)] by auto
next
  case (device ws v v')
  then show ?case using router_onWritable_vpn [OF device(2), of ws] by (intro exI [of _ "{}"]) auto
next
  case (check now v v')
  then show ?case using cleanDeadSessions_vpn [OF check(2), of now]
    by (intro exI [of _ "{}"]) (auto simp: router_onPeriodicallyCheck_def)
next
  case (tcp i v s)
  then show ?case using vpn_tcp_event [OF tcp(3,1,2)] by (intro exI [of _ "{}"]) simp
next
  case (udp i v s)
  then show ?case using vpn_udp_event [OF udp(3,1,2)] by blast
qed

lemma vpn_run_inv: "(vpn_step u)\<^sup>*\<^sup>* v v' \<Longrightarrow> vpn_inv u L v \<Longrightarrow> \<exists>K. vpn_inv u K v'"
proof (induction rule: rtranclp_induct)
  case base
  then show ?case by blast
next
  case (step v1 v2)
  then show ?case using vpn_step_inv by blast
qed

lemma vpn_tcp_session:
  assumes inv: "vpn_inv u L v" and i: "i < length (mTCPSessions v)"
  shows "\<exists>C. sess_inv C (router.extend (net v) (mTCPSessions v ! i))"
proof -
  have "all_inv sess_inv tcp_refs L (net v) (take i (mTCPSessions v) @ mTCPSessions v ! i # drop (Suc i) (mTCPSessions v))"
    using inv id_take_nth_drop [OF i] by (simp add: vpn_inv_def)
  from tcp.all_invD(1) [OF this] show ?thesis by blast
qed

lemma vpn_udp_session:
  assumes inv: "vpn_inv u L v" and i: "i < length (mUDPSessions v)"
  shows "\<exists>C k. udp_inv k C {} (router.extend (net v) (mUDPSessions v ! i))"
proof -
  have "all_inv udp_good (\<lambda>_. {}) (L \<union> held tcp_refs (mTCPSessions v)) (net v)
      (take i (mUDPSessions v) @ mUDPSessions v ! i # drop (Suc i) (mUDPSessions v))"
    using inv id_take_nth_drop [OF i] by (simp add: vpn_inv_def)
  from udp.all_invD(1) [OF this] show ?thesis by (auto simp: udp_good_def)
qed

section \<open>The end of the router\<close>

lemma each_delete:
  assumes "distinct rs" "\<And>r. r \<in> set rs \<Longrightarrow> \<exists>d. heap w r = Some d \<and> mData d \<noteq> None"
  shows "\<exists>w'. each delete rs w = Some w' \<and> heap w' = heap w |` (- set rs)"
  using assms
proof (induction rs arbitrary: w)
  case (Cons r rs)
  obtain d where d: "heap w r = Some d" "mData d \<noteq> None" using Cons.prems(2) [of r] by auto
  define w1 where "w1 = w\<lparr>heap := (heap w)(r := None)\<rparr>"
  have del: "delete r w = Some w1" using d by (simp add: delete_def seg_delete_ok_def w1_def)
  have "\<exists>d. heap w1 q = Some d \<and> mData d \<noteq> None" if "q \<in> set rs" for q
    using Cons.prems(1) Cons.prems(2) [of q] that by (auto simp: w1_def)
  then obtain w' where "each delete rs w1 = Some w'" "heap w' = heap w1 |` (- set rs)"
    using Cons.IH [of w1] Cons.prems(1) by auto
  moreover have "heap w1 |` (- set rs) = heap w |` (- set (r # rs))"
    by (rule ext) (simp add: w1_def restrict_map_def)
  ultimately show ?case using del by simp
qed (simp add: restrict_map_def)

lemma releaseData_clears:
  assumes own: "own_inv B w"
  shows "\<exists>w'. releaseData w = Some w' \<and> tunData w' = [] \<and> heap w' = heap w |` (- set (tunData w))"
proof -
  have "\<exists>d. heap w r = Some d \<and> mData d \<noteq> None" if q: "r \<in> set (tunData w)" for r
  proof -
    obtain d where "heap w r = Some d" "cell_ok B (set (tunData w)) r d" by (rule own_inv_deref [OF own, of r]) (use q in simp)
    then show ?thesis by (auto simp: cell_ok_def dgram_ok_def)
  qed
  then obtain w' where "each delete (tunData w) w = Some w'" "heap w' = heap w |` (- set (tunData w))"
    using each_delete [of "tunData w" w] own_invD(1) [OF own] by blast
  then show ?thesis by (simp add: releaseData_def)
qed

lemma router_delete_vpn:
  assumes inv: "vpn_inv u L v"
  shows "\<exists>w. router_delete v = Some w \<and> tunData w = [] \<and> dom (heap w) \<subseteq> L
    \<and> (\<forall>r d. heap w r = Some d \<longrightarrow> \<not> mReleaseAfterBuffering d)"
proof -
  define H where "H = held tcp_refs (mTCPSessions v)"
  have T: "all_inv sess_inv tcp_refs L (net v) (mTCPSessions v)"
    and U: "all_inv udp_good (\<lambda>_. {}) (L \<union> H) (net v) (mUDPSessions v)"
    using inv by (simp_all add: vpn_inv_def H_def)
  obtain w1 where w1: "releaseSessions udp_releaseSession (net v) (mUDPSessions v) = Some w1" "own_inv (L \<union> H) w1"
      "views (L \<union> H) (heap (net v)) (heap w1)"
    using udp.releaseSessions_inv [OF U] by blast
  have "views H (heap (net v)) (heap w1)" using w1(3) by (rule views_basic(3)) simp
  then have T1: "all_inv sess_inv tcp_refs L w1 (mTCPSessions v)"
    using w1(2) tcp.all_inv_disjoint [OF T] unfolding H_def by (intro tcp.all_inv_transfer [OF T])
  obtain w2 where w2: "releaseSessions releaseSession w1 (mTCPSessions v) = Some w2" "own_inv L w2"
    using tcp.releaseSessions_inv [OF T1] by blast
  obtain w3 where w3: "releaseData w2 = Some w3" "tunData w3 = []" "heap w3 = heap w2 |` (- set (tunData w2))"
    using releaseData_clears [OF w2(2)] by blast
  have "dom (heap w3) \<subseteq> L" using own_invD(2) [OF w2(2)] w3(3) by auto
  moreover have "\<not> mReleaseAfterBuffering d" if "heap w3 r = Some d" for r d
  proof -
    have h: "heap w2 r = Some d" "r \<notin> set (tunData w2)" using that w3(3) by (auto simp: restrict_map_def split: if_splits)
    then have "r \<in> L" using own_invD(2) [OF w2(2)] by auto
    then show ?thesis using own_invD(4) [OF w2(2) h(1)] by (simp add: cell_ok_def)
  qed
  ultimately show ?thesis using w1(1) w2(1) w3 by (auto simp: router_delete_def)
qed

section \<open>Properties\<close>

text \<open>The router after the first datagram of an application.\<close>

definition sample_vpn :: vpn where
  "sample_vpn = the (router_onReadable (Some sample_udp_packet) 5 0 sample_birth sample_udp_birth [] vpn0)"

lemma sample_read_ok: "read_ok True sample_udp_packet sample_udp_birth" "read_fine sample_udp_packet []"
proof -
  have "getProtocol sample_udp_packet = 17"
    by (simp add: sample_udp_packet_def getProtocol_def mem_of_def nth_append)
  then show "read_ok True sample_udp_packet sample_udp_birth" "read_fine sample_udp_packet []"
    using sample_udp_payload sample_udp_text
    by (simp_all add: read_ok_def read_fine_def sample_udp_birth_def PROTO_TCP_def)
qed

lemma sample_vpn_run: "(vpn_step True)\<^sup>*\<^sup>* vpn0 sample_vpn"
proof -
  obtain v where v: "router_onReadable (Some sample_udp_packet) 5 0 sample_birth sample_udp_birth [] vpn0 = Some v"
    using router_onReadable_defined [OF vpn0_inv sample_read_ok] by blast
  then have "vpn_step True vpn0 v" by (rule vpn_step.packet [OF sample_read_ok(1)])
  then show ?thesis using v by (simp add: sample_vpn_def r_into_rtranclp)
qed







end
