(* ===== verification/Flows.thy ===== *)
theory Flows
  imports VpnRun
begin

text \<open>
  Which session a packet of the application reaches: \<^verbatim>\<open>Router::route\<close> with \<^verbatim>\<open>Session::findSession\<close>. A UDP session
  never changes its flow and never comes back to life, so a flow has at most one live session; a TCP
  session that timed out can come back.
\<close>

section \<open>What a UDP session keeps\<close>

definition udp_id :: "udp_session \<Rightarrow> flow" where
  "udp_id s = (uIPVer s, uSrcAddr s, uDestAddr s, uSrcPort s, uDestPort s)"

definition udp_keeps :: "udp_session \<Rightarrow> udp_session \<Rightarrow> bool" where
  "udp_keeps s s' \<longleftrightarrow> udp_id s' = udp_id s \<and> (uAlive s' \<longrightarrow> uAlive s)"

lemma udp_keeps_refl [simp]: "udp_keeps s s"
  by (simp add: udp_keeps_def)

lemma udp_keeps_trans [trans]: "udp_keeps s1 s2 \<Longrightarrow> udp_keeps s2 s3 \<Longrightarrow> udp_keeps s1 s3"
  by (simp add: udp_keeps_def)

lemma udp_keeps_same: "udp_id s' = udp_id s \<Longrightarrow> uAlive s' = uAlive s \<Longrightarrow> udp_keeps s s'"
  by (simp add: udp_keeps_def)

lemma udp_more_id:
  fixes s s' :: udp_session
  assumes "router.more s' = router.more s"
  shows "udp_id s' = udp_id s" "uAlive s' = uAlive s"
  using assms by (cases s; cases s'; simp add: udp_id_def)+

lemma udp_keeps_router: "router.more s' = router.more s \<Longrightarrow> udp_keeps s s'"
  using udp_more_id by (intro udp_keeps_same) blast+

lemma udp_keeps_sync: "onSyncEvent r s = Some (c, s') \<Longrightarrow> udp_keeps s s'"
  by (rule udp_keeps_router) (auto simp: onSyncEvent_def split: option.splits if_splits)

lemma udp_keeps_close [simp]: "udp_keeps s (udp_close s)"
  by (simp add: udp_keeps_def udp_id_def udp_close_def Let_def)

lemma udp_keeps_emit [simp]: "udp_keeps s (udp_emit e s)"
  by (simp add: udp_keeps_def udp_id_def udp_emit_def)

lemma udp_keeps_sent [simp]: "udp_keeps s (udp_sent n s)"
  by (simp add: udp_keeps_def udp_id_def udp_sent_def udp_emit_def Let_def)

lemma udp_keeps_accept: "udp_accept ip now junk s = Some (n, s') \<Longrightarrow> udp_keeps s s'"
  by (auto simp: udp_accept_def udp_keeps_def udp_id_def udp_emit_def Let_def
      split: option.splits if_splits bind_splits prod.splits)

lemma udp_keeps_write_loop: "udp_write_loop ks sent s = Some (n, s') \<Longrightarrow> udp_keeps s s'"
proof (induction ks sent s rule: udp_write_loop.induct)
  case (1 ks sent s)
  show ?case
  proof (cases "uOutBuffer s = [] \<or> ks = []")
    case True
    then show ?thesis using "1.prems" unfolding udp_write_loop.simps [of ks] by (cases "uOutBuffer s") auto
  next
    case False
    then obtain sg sgs k ks1 where q: "uOutBuffer s = sg # sgs" "ks = k # ks1"
      by (meson neq_Nil_conv)
    note p = "1.prems" [unfolded udp_write_loop.simps [of ks], simplified q list.case Let_def]
    show ?thesis
    proof (cases "min k (uint (seg_size sg)) < 0")
      case True
      then show ?thesis using p by simp
    next
      case g: False
      define sg1 where "sg1 = seg_consume (word_of_int (min k (uint (seg_size sg)))) sg"
      define s1 where "s1 = s\<lparr>uWire := uWire s @ [take (nat (min k (uint (seg_size sg)))) (seg_bytes sg)]\<rparr>"
      have k: "udp_keeps s (s1\<lparr>uOutBuffer := qs\<rparr>)" for qs by (simp add: udp_keeps_def udp_id_def s1_def)
      note IH = "1.IH" [OF q refl g refl refl, folded sg1_def s1_def]
      show ?thesis using p g IH(1) [THEN udp_keeps_trans [OF k]] IH(2) [THEN udp_keeps_trans [OF k]]
        unfolding sg1_def [symmetric] s1_def [symmetric] by (auto split: if_splits)
    qed
  qed
qed

lemma udp_keeps_tunnel_loop: "udp_tunnel_loop fuel sent s = Returned n s' \<Longrightarrow> udp_keeps s s'"
proof (induction fuel arbitrary: sent s)
  case 0
  then show ?case by (simp add: udp_tunnel_loop.simps [of 0] split: list.splits)
next
  case (Suc fuel)
  show ?case
  proof (cases "uOutBuffer s")
    case Nil
    then show ?thesis using Suc.prems by (simp add: udp_tunnel_loop.simps [of "Suc fuel"])
  next
    case (Cons sg sgs)
    note p = Suc.prems [unfolded udp_tunnel_loop.simps [of "Suc fuel"], simplified Cons list.case nat.case]
    obtain k s1 where t: "tunnel_sendData (seg_bytes sg) s = Some (k, s1)"
      using p by (cases "tunnel_sendData (seg_bytes sg) s") auto
    have k1: "udp_keeps s s1" and k2: "udp_keeps s (s1\<lparr>uOutBuffer := qs\<rparr>)" for qs
      using t by (auto simp: tunnel_sendData_def udp_keeps_def udp_id_def split: option.splits)
    show ?thesis
      using p k1 udp_keeps_trans [OF k2 Suc.IH] by (auto simp: t Let_def split: if_splits)
  qed
qed

lemma udp_keeps_tunnel_writable:
  assumes "udp_onTunnelWritable fuel s = Returned n s'"
  shows "udp_keeps s s'"
proof (cases "uOutBuffer s = []")
  case True
  then show ?thesis using assms
    by (auto simp: udp_onTunnelWritable_def udp_keeps_def udp_id_def split: option.splits)
next
  case False
  then obtain s1 where "udp_tunnel_loop fuel 0 s = Returned n s1" "s' = udp_sent n s1"
    using assms by (cases "udp_tunnel_loop fuel 0 s") (auto simp: udp_onTunnelWritable_def)
  then show ?thesis using udp_keeps_trans [OF udp_keeps_tunnel_loop udp_keeps_sent] by simp
qed

lemma udp_keeps_alloc: "udp_keeps s (snd (alloc d s))"
  by (rule udp_keeps_router) (simp add: alloc_def)

lemma udp_keeps_onReadable:
  assumes "udp_onReadable rd s = Some s'"
  shows "udp_keeps s s'"
proof (cases rd)
  case None
  then show ?thesis using assms by (auto simp: udp_onReadable_def)
next
  case (Some data)
  define len where "len = (word_of_nat (length data) :: u32)"
  define s2 where "s2 = udp_emit (U_TRAFFIC_RECV (uTotalRecv (s\<lparr>uTotalRecv := uTotalRecv s + len\<rparr>)) len)
    (s\<lparr>uTotalRecv := uTotalRecv s + len\<rparr>)"
  have k: "udp_keeps s s2" "udp_keeps s2 (s2\<lparr>uTotalBack := uTotalBack s2 + len\<rparr>)"
    by (simp_all add: s2_def udp_keeps_def udp_id_def udp_emit_def)
  show ?thesis
  proof (cases "buildPacket data s2")
    case None
    then show ?thesis using assms k(1)
      unfolding Some udp_onReadable_def option.case len_def [symmetric] Let_def s2_def [symmetric] by simp
  next
    case (Some d)
    define d1 where "d1 = d\<lparr>mNeedCapture := (uCtrlType s2 AND CTRL_CAPTURE) \<noteq> 0\<rparr>"
    obtain c s5 where
      s5: "onSyncEvent (fst (alloc d1 (s2\<lparr>uTotalBack := uTotalBack s2 + len\<rparr>)))
          (snd (alloc d1 (s2\<lparr>uTotalBack := uTotalBack s2 + len\<rparr>))) = Some (c, s5)"
        "s' = udp_emit (U_TRAFFIC_BACK (uTotalBack s5) len) s5"
      using assms Some
      unfolding \<open>rd = Some data\<close> udp_onReadable_def option.case len_def [symmetric] Let_def s2_def [symmetric]
      by (cases "alloc d1 (s2\<lparr>uTotalBack := uTotalBack s2 + len\<rparr>)") (auto simp: d1_def split: bind_splits)
    have "udp_keeps s2 s5"
      by (rule udp_keeps_trans [OF k(2) udp_keeps_trans [OF udp_keeps_alloc udp_keeps_sync [OF s5(1)]]])
    then show ?thesis using udp_keeps_trans [OF k(1)] udp_keeps_trans [OF _ udp_keeps_emit] s5(2) by blast
  qed
qed

lemma udp_keeps_relay: "udp_relay chunk s = Some s' \<Longrightarrow> udp_keeps s s'"
  using udp_keeps_trans [OF udp_keeps_alloc udp_keeps_sync]
  by (auto simp: udp_relay_def split: option.splits prod.splits) (metis fst_conv snd_conv)

lemma udp_keeps_relay_loop: "udp_relay_loop len data i s = Some (j, s') \<Longrightarrow> udp_keeps s s'"
proof (induction len data i s rule: udp_relay_loop.induct)
  case (1 len data i s)
  show ?case
  proof (cases "data = []")
    case True
    then show ?thesis using "1.prems" by (simp add: udp_relay_loop.simps)
  next
    case False
    define s0 where "s0 = udp_emit (U_TRAFFIC_RECV (uTotalRecv s) len) s"
    obtain s1 where s1: "udp_relay (take MAX_IP_SIZE data) s0 = Some s1"
        "udp_relay_loop len (drop MAX_IP_SIZE data) (i + word_of_nat (length (take MAX_IP_SIZE data))) s1 = Some (j, s')"
      using "1.prems" False by (auto simp: udp_relay_loop.simps [of len data] s0_def Let_def split: bind_splits)
    have "udp_keeps s s0" by (simp add: s0_def)
    also have "udp_keeps s0 s1" using s1(1) by (rule udp_keeps_relay)
    also have "udp_keeps s1 s'" using "1.IH" [OF False refl] s1 by (simp add: s0_def)
    finally show ?thesis .
  qed
qed

lemma udp_keeps_data_back:
  assumes "udp_onTunnelDataBack data now s = Some s'"
  shows "udp_keeps s s'"
proof -
  have last: "udp_keeps r s1 \<Longrightarrow> udp_keeps r (s1\<lparr>uLastTime := t\<rparr>)" for r s1 t
    by (simp add: udp_keeps_def udp_id_def)
  show ?thesis
  proof (cases "data = []")
    case True
    have tun: "udp_keeps s (udp_close (s\<lparr>uTunnel := p\<rparr>))" for p
      by (rule udp_keeps_trans [OF _ udp_keeps_close]) (simp add: udp_keeps_def udp_id_def)
    then show ?thesis using assms True last
      by (auto simp: udp_onTunnelDataBack_def split: option.splits bind_splits)
  next
    case False
    then obtain i s1 where s1: "udp_relay_loop (word_of_nat (length data)) data 0 s = Some (i, s1)"
      using assms by (cases "udp_relay_loop (word_of_nat (length data)) data 0 s") (auto simp: udp_onTunnelDataBack_def)
    show ?thesis
      using assms False s1 udp_keeps_relay_loop [OF s1]
      by (cases "i > 0") (auto simp: udp_onTunnelDataBack_def udp_keeps_def udp_id_def udp_emit_def Let_def)
  qed
qed

lemma udp_step_keeps: "udp_step s s' \<Longrightarrow> udp_inv k B L s \<Longrightarrow> udp_keeps s s'"
proof (induction rule: udp_step.induct)
  case (tun_writable ws s s')
  then obtain s1 where s1: "write_loop ws s = Some s1" "s' = s1\<lparr>tunWrite := False\<rparr>" by (auto simp: onWritable_def)
  have "own_inv (B \<union> L) s" using tun_writable(2) by (simp add: udp_inv_def)
  from write_loop_drained [OF this, of ws] have "udp_keeps s s1"
    using s1(1) by (auto simp: drained_def udp_keeps_router)
  then show ?case using s1(2) by (simp add: udp_keeps_def udp_id_def)
next
  case (writable s ks s')
  show ?case
  proof (cases "uOutBuffer s = []")
    case True
    then show ?thesis using writable(2) by (auto simp: udp_onWritable_def udp_keeps_def udp_id_def split: if_splits)
  next
    case False
    then show ?thesis using writable(2) udp_keeps_trans [OF udp_keeps_write_loop udp_keeps_sent]
      by (auto simp: udp_onWritable_def split: bind_splits)
  qed
next
  case (tunnel_moves s p')
  then show ?case by (simp add: udp_keeps_def udp_id_def)
qed (auto simp: udp_keeps_accept udp_keeps_onReadable udp_keeps_tunnel_writable udp_keeps_data_back
      udp_onException_def udp_onPeriodicallyCheck_def udp_onTunnelDisconnected_def)

section \<open>At most one live session of a UDP flow\<close>

abbreviation live_flows :: "udp_part list \<Rightarrow> flow list" where
  "live_flows us \<equiv> map udp_flow (filter (\<lambda>x. \<not> udp_closed x) us)"

lemma udp_part_views:
  fixes s :: udp_session
  shows "udp_flow (router.more s) = udp_id s" "udp_closed (router.more s) = (\<not> uAlive s)"
proof -
  have "udp_id (as_udp (router.more s)) = udp_id s" "uAlive (as_udp (router.more s)) = uAlive s"
    using udp_more_id [of "as_udp (router.more s)" s] by (simp_all add: as_udp_def)
  then show "udp_flow (router.more s) = udp_id s" "udp_closed (router.more s) = (\<not> uAlive s)"
    by (simp_all add: udp_flow_def udp_id_def udp_closed_def udp_hasClosed_def Let_def)
qed

lemma udp_part_keeps:
  assumes "udp_keeps (router.extend w x) s"
  shows "udp_flow (router.more s) = udp_flow x" "udp_closed x \<Longrightarrow> udp_closed (router.more s)"
  using assms udp_part_views [of "router.extend w x"] udp_part_views [of s] by (auto simp: udp_keeps_def)

lemma live_flows_update:
  assumes "i < length us" "udp_flow y = udp_flow (us ! i)" "udp_closed (us ! i) \<Longrightarrow> udp_closed y" "distinct (live_flows us)"
  shows "distinct (live_flows (us[i := y]))"
proof -
  have us: "us = take i us @ us ! i # drop (Suc i) us" using id_take_nth_drop [OF assms(1)] .
  have d: "distinct (live_flows (take i us @ us ! i # drop (Suc i) us))" using assms(4) us by simp
  show ?thesis unfolding upd_conv_take_nth_drop [OF assms(1)]
    using d assms(2,3) by (cases "udp_closed (us ! i)"; cases "udp_closed y") auto
qed

lemma live_flows_packet:
  assumes inv: "vpn_inv u L v" and d: "distinct (live_flows (mUDPSessions v))"
    and ok: "read_ok u h ub" and st: "router_onReadable (Some h) now rnd b ub junk v = Some v'"
  shows "distinct (live_flows (mUDPSessions v'))"
proof (cases "getProtocol h = PROTO_UDP")
  case True
  then obtain w xs where r: "route udp_closed udp_flow (udp_buildSession h ub) (\<lambda>s. map_option snd (udp_accept h now junk s)) h
        (net v) (mUDPSessions v) = Some (w, xs)" "mUDPSessions v' = xs"
    using st by (auto simp: router_onReadable_def split: bind_splits)
  show ?thesis
  proof (cases "findSession udp_closed udp_flow h (mUDPSessions v)")
    case (Some i)
    then have i: "i < length (mUDPSessions v)" by (auto simp: findSession_def find_loop_Some split: if_splits)
    obtain n s where s: "udp_accept h now junk (router.extend (net v) (mUDPSessions v ! i)) = Some (n, s)"
        "xs = (mUDPSessions v)[i := router.more s]"
      using r(1) Some by (auto simp: route_def split: bind_splits)
    note k = udp_part_keeps [OF udp_keeps_accept [OF s(1)]]
    show ?thesis unfolding r(2) s(2) by (rule live_flows_update [OF i k d])
  next
    case None
    show ?thesis
    proof (cases "udp_buildSession h ub (net v)")
      case None
      then show ?thesis using r \<open>findSession _ _ _ _ = None\<close> d by (simp add: route_def)
    next
      case (Some s0)
      obtain n s where s: "udp_accept h now junk s0 = Some (n, s)" "xs = mUDPSessions v @ [router.more s]"
        using r(1) Some None by (auto simp: route_def split: bind_splits)
      note f = udp_buildSession_fields [OF Some]
      have ip: "getIPVer h = 4"
        using Some by (auto simp: udp_buildSession_def udp_initBaseInfo_def Let_def split: if_splits)
      have id: "udp_flow (router.more s) = packet_flow h"
        using udp_keeps_accept [OF s(1)] f ip by (simp add: udp_part_views udp_keeps_def udp_id_def packet_flow_def)
      have "find_loop udp_closed udp_flow h (mUDPSessions v) = None"
        using None ip by (auto simp: findSession_def split: if_splits)
      then have "packet_flow h \<notin> set (live_flows (mUDPSessions v))" by (auto simp: find_loop_None)
      then show ?thesis using d unfolding r(2) s(2) by (auto simp: id)
    qed
  qed
next
  case False
  then have "mUDPSessions v' = mUDPSessions v" using st by (auto simp: router_onReadable_def split: if_splits bind_splits)
  then show ?thesis using d by simp
qed

lemma live_flows_step:
  assumes "vpn_step u v v'" "vpn_inv u L v" "distinct (live_flows (mUDPSessions v))"
  shows "distinct (live_flows (mUDPSessions v'))"
  using assms
proof (induction rule: vpn_step.induct)
  case (packet h ub now rnd b junk v v')
  then show ?case using live_flows_packet by blast
next
  case (device ws v v')
  then show ?case by (auto simp: router_onWritable_def)
next
  case (check now v v')
  then show ?case using cleanDeadSessions_vpn [OF check(2), of now]
    by (auto simp: router_onPeriodicallyCheck_def)
next
  case (tcp i v s)
  then show ?case by simp
next
  case (udp i v s)
  obtain C k where "udp_inv k C {} (router.extend (net v) (mUDPSessions v ! i))"
    using vpn_udp_session [OF udp(3,1)] by blast
  note k = udp_part_keeps [OF udp_step_keeps [OF udp(2) this]]
  show ?case using live_flows_update [OF udp(1) k udp(4)] by simp
qed

lemma live_flows_run:
  "(vpn_step u)\<^sup>*\<^sup>* vpn0 v \<Longrightarrow> (\<exists>L. vpn_inv u L v) \<and> distinct (live_flows (mUDPSessions v))"
proof (induction rule: rtranclp_induct)
  case base
  then show ?case using vpn0_inv by (auto simp: vpn0_def)
next
  case (step v1 v2)
  then show ?case using vpn_step_inv live_flows_step by blast
qed

text \<open>
  Claim C23. One session per UDP flow. In every run, if a session that has not closed has the flow of a datagram
  of the application, that session is the one that gets it, all others of the flow have closed,
  and neither the other sessions nor the TCP sessions are touched; and no session is built. The datagram (which is not empty) has an
  outcome exactly if its log line returns and its length field covers its headers.
\<close>

theorem udp_flow_routed:
  assumes run: "(vpn_step u)\<^sup>*\<^sup>* vpn0 v" and ok: "read_ok u h ub" "getProtocol h = PROTO_UDP"
    and i: "i < length (mUDPSessions v)" "\<not> udp_closed (mUDPSessions v ! i)" "udp_flow (mUDPSessions v ! i) = packet_flow h"
  shows "router_onReadable (Some h) now rnd b ub junk v
      = map_option (\<lambda>(n, s). v\<lparr>net := router.truncate s, mUDPSessions := (mUDPSessions v)[i := router.more s]\<rparr>)
          (udp_accept h now junk (router.extend (net v) (mUDPSessions v ! i)))
    \<and> (udp_accept h now junk (router.extend (net v) (mUDPSessions v ! i)) = None
        \<longleftrightarrow> accept_text h junk = None \<or> getPayloadLen h < 0)
    \<and> (\<forall>j < length (mUDPSessions v). j \<noteq> i \<longrightarrow>
        udp_closed (mUDPSessions v ! j) \<or> udp_flow (mUDPSessions v ! j) \<noteq> packet_flow h)"
proof -
  define us where "us = mUDPSessions v"
  obtain L where inv: "vpn_inv u L v" and d: "distinct (live_flows us)" using live_flows_run [OF run] by (auto simp: us_def)
  have other: "udp_closed (us ! j) \<or> udp_flow (us ! j) \<noteq> packet_flow h" if j: "j < length us" "j \<noteq> i" for j
  proof (rule ccontr)
    assume n: "\<not> (udp_closed (us ! j) \<or> udp_flow (us ! j) \<noteq> packet_flow h)"
    have two: False if "a < b" "b < length us" "\<not> udp_closed (us ! a)" "\<not> udp_closed (us ! b)"
        "udp_flow (us ! a) = udp_flow (us ! b)" for a b
    proof -
      have us: "us = take b us @ us ! b # drop (Suc b) us" using id_take_nth_drop that(2) by blast
      have m: "us ! a \<in> set (take b us)" using that(1,2) by (auto simp: in_set_conv_nth intro!: exI [of _ a])
      have "distinct (live_flows (take b us @ us ! b # drop (Suc b) us))" using d us by simp
      then have "udp_flow (us ! b) \<notin> udp_flow ` {x \<in> set (take b us). \<not> udp_closed x}" using that(4) by simp
      moreover have "udp_flow (us ! a) \<in> udp_flow ` {x \<in> set (take b us). \<not> udp_closed x}" using m that(3) by simp
      ultimately show False using that(5) by simp
    qed
    show False using two [of i j] two [of j i] i n j by (auto simp: us_def [symmetric] nat_neq_iff)
  qed
  obtain C k where C: "udp_inv k C {} (router.extend (net v) (us ! i))" using vpn_udp_session [OF inv i(1)] by (auto simp: us_def)
  then have ip: "getIPVer h = 4"
    using i(3) udp_part_views(1) [of "router.extend (net v) (us ! i)"]
    by (simp add: udp_inv_def us_def udp_id_def packet_flow_def)
  have "find_loop udp_closed udp_flow h us = Some i"
    unfolding find_loop_Some using i other by (auto simp: us_def)
  then have fs: "findSession udp_closed udp_flow h us = Some i"
    using ip i(1) by (auto simp: findSession_def us_def)
  have "router_onReadable (Some h) now rnd b ub junk v
      = map_option (\<lambda>(n, s). v\<lparr>net := router.truncate s, mUDPSessions := us[i := router.more s]\<rparr>)
          (udp_accept h now junk (router.extend (net v) (us ! i)))"
    using ok(2) fs by (cases "udp_accept h now junk (router.extend (net v) (us ! i))")
      (auto simp: router_onReadable_def route_def us_def)
  moreover have "uAlive (router.extend (net v) (us ! i))"
    using i(2) udp_part_views(2) [of "router.extend (net v) (us ! i)"] by (simp add: us_def)
  moreover have "getPayloadLen h \<noteq> 0" using ok by (simp add: read_ok_def)
  ultimately show ?thesis
    using udp_accept_cases [OF C, of h junk now] other by (auto simp: us_def split: if_splits)
qed

lemma sample_vpn_sessions:
  "length (mUDPSessions sample_vpn) = 1" "\<not> udp_closed (mUDPSessions sample_vpn ! 0)"
  "udp_flow (mUDPSessions sample_vpn ! 0) = packet_flow sample_udp_packet" "getProtocol sample_udp_packet = PROTO_UDP"
proof -
  show p: "getProtocol sample_udp_packet = PROTO_UDP"
    by (simp add: sample_udp_packet_def getProtocol_def mem_of_def nth_append PROTO_UDP_def)
  have ip: "getIPVer sample_udp_packet = 4" by (simp add: sample_udp_packet_def getIPVer_def mem_of_def)
  note f = udp_buildSession_fields [OF sample_udp_built]
  have tun: "uTunnel sample_udp = None" using f(14) by (simp add: sample_udp_birth_def)
  have inv: "udp_inv 0 {} {} sample_udp"
    using udp_buildSession_inv [OF router0_inv sample_udp_built] by (simp add: sample_udp_birth_def)
  have len: "0 < getPayloadLen sample_udp_packet" by (simp add: sample_udp_payload)
  obtain n s where s: "udp_accept sample_udp_packet 5 [] sample_udp = Some (n, s)"
    using udp_accept_ok [OF inv len sample_udp_text, of 5] by blast
  have al: "uAlive s" using udp_accept_queues [OF inv len sample_udp_text f(8) tun s] by simp
  have r: "router_onReadable (Some sample_udp_packet) 5 0 sample_birth sample_udp_birth [] vpn0
      = Some (vpn0\<lparr>net := router.truncate s, mUDPSessions := [router.more s]\<rparr>)"
    using p s sample_udp_built
    by (simp add: router_onReadable_def route_def findSession_def vpn0_def)
  have us: "mUDPSessions sample_vpn = [router.more s]" by (simp add: sample_vpn_def r)
  have "udp_id s = packet_flow sample_udp_packet"
    using udp_keeps_accept [OF s] f ip by (simp add: udp_keeps_def udp_id_def packet_flow_def)
  then show "length (mUDPSessions sample_vpn) = 1" "\<not> udp_closed (mUDPSessions sample_vpn ! 0)"
      "udp_flow (mUDPSessions sample_vpn ! 0) = packet_flow sample_udp_packet"
    using al by (simp_all add: us udp_part_views)
qed

theorem udp_flow_routed_witness:
  "\<exists>n s. udp_accept sample_udp_packet 6 [] (router.extend (net sample_vpn) (mUDPSessions sample_vpn ! 0)) = Some (n, s)
    \<and> router_onReadable (Some sample_udp_packet) 6 0 sample_birth sample_udp_birth [] sample_vpn
      = Some (sample_vpn\<lparr>net := router.truncate s, mUDPSessions := (mUDPSessions sample_vpn)[0 := router.more s]\<rparr>)"
proof -
  have "0 < length (mUDPSessions sample_vpn)" using sample_vpn_sessions(1) by simp
  from udp_flow_routed [OF sample_vpn_run sample_read_ok(1) sample_vpn_sessions(4) this sample_vpn_sessions(2,3),
      where now = 6 and rnd = 0 and b = sample_birth and junk = "[]"]
  show ?thesis using sample_udp_text [of "[]"] sample_udp_payload(1) by auto
qed

section \<open>TCP flows\<close>

text \<open>
  Claim C24. Where a TCP packet goes. In every run, the first session of the packet's flow that has not closed gets it,
  and nothing else changes in the lists; when there is none a session is built, put at the end of the list
  and given the packet; when none can be built (\<^verbatim>\<open>FAILED\<close>) nothing changes. The packet (its length field covers its headers) has an
  outcome unless the session's handler has none (\<open>accept_bad\<close>), and exactly then.
\<close>

theorem tcp_flow_routed:
  assumes run: "(vpn_step u)\<^sup>*\<^sup>* vpn0 v" and ok: "read_ok u h ub" "getProtocol h = PROTO_TCP"
  shows "(\<forall>i < length (mTCPSessions v).
        \<not> tcp_closed now (mTCPSessions v ! i) \<and> tcp_flow (mTCPSessions v ! i) = packet_flow h
        \<and> (\<forall>j < i. tcp_closed now (mTCPSessions v ! j) \<or> tcp_flow (mTCPSessions v ! j) \<noteq> packet_flow h)
      \<longrightarrow> router_onReadable (Some h) now rnd b ub junk v
            = map_option (\<lambda>s. v\<lparr>net := router.truncate s, mTCPSessions := (mTCPSessions v)[i := router.more s]\<rparr>)
                (accept h now rnd (router.extend (net v) (mTCPSessions v ! i)))
          \<and> (accept h now rnd (router.extend (net v) (mTCPSessions v ! i)) = None
              \<longleftrightarrow> accept_bad h (router.extend (net v) (mTCPSessions v ! i))))
    \<and> (list_all (\<lambda>x. tcp_closed now x \<or> tcp_flow x \<noteq> packet_flow h) (mTCPSessions v)
      \<longrightarrow> (case buildSession h b (net v) of
            None \<Rightarrow> router_onReadable (Some h) now rnd b ub junk v = Some v
          | Some s0 \<Rightarrow>
              router_onReadable (Some h) now rnd b ub junk v
                = map_option (\<lambda>s. v\<lparr>net := router.truncate s, mTCPSessions := mTCPSessions v @ [router.more s]\<rparr>)
                    (accept h now rnd s0)
              \<and> (accept h now rnd s0 = None \<longleftrightarrow> accept_bad h s0)))"
proof -
  define ts where "ts = mTCPSessions v"
  obtain L where inv: "vpn_inv u L v" using live_flows_run [OF run] by blast
  have len: "0 \<le> getPayloadLen h" using ok by (simp add: read_ok_def)
  have np: "PROTO_TCP \<noteq> PROTO_UDP" by (simp add: PROTO_TCP_def PROTO_UDP_def)
  have one: "router_onReadable (Some h) now rnd b ub junk v
        = map_option (\<lambda>s. v\<lparr>net := router.truncate s, mTCPSessions := ts[i := router.more s]\<rparr>)
            (accept h now rnd (router.extend (net v) (ts ! i)))
      \<and> (accept h now rnd (router.extend (net v) (ts ! i)) = None \<longleftrightarrow> accept_bad h (router.extend (net v) (ts ! i)))"
    if i: "i < length ts" "\<not> tcp_closed now (ts ! i)" "tcp_flow (ts ! i) = packet_flow h"
      "\<forall>j < i. tcp_closed now (ts ! j) \<or> tcp_flow (ts ! j) \<noteq> packet_flow h" for i
  proof -
    obtain C where C: "sess_inv C (router.extend (net v) (ts ! i))" using vpn_tcp_session [OF inv] i(1) by (auto simp: ts_def)
    have "mIPVer (as_tcp (ts ! i)) = mIPVer (router.extend (net v) (ts ! i))"
      unfolding as_tcp_def by (rule tcp_more(3)) simp
    then have "getIPVer h = 4" using C i(3) by (simp add: sess_inv_def tcp_flow_def packet_flow_def Let_def)
    moreover have "find_loop (tcp_closed now) tcp_flow h ts = Some i" using i by (simp add: find_loop_Some)
    ultimately have "findSession (tcp_closed now) tcp_flow h ts = Some i" using i(1) by (auto simp: findSession_def)
    then have "router_onReadable (Some h) now rnd b ub junk v
        = map_option (\<lambda>s. v\<lparr>net := router.truncate s, mTCPSessions := ts[i := router.more s]\<rparr>)
            (accept h now rnd (router.extend (net v) (ts ! i)))"
      using ok(2) np by (cases "accept h now rnd (router.extend (net v) (ts ! i))")
        (simp_all add: router_onReadable_def route_def ts_def)
    then show ?thesis using accept_cases [OF C len, of now rnd] by (auto split: if_splits)
  qed
  have none: "case buildSession h b (net v) of None \<Rightarrow> router_onReadable (Some h) now rnd b ub junk v = Some v
      | Some s0 \<Rightarrow> router_onReadable (Some h) now rnd b ub junk v
            = map_option (\<lambda>s. v\<lparr>net := router.truncate s, mTCPSessions := ts @ [router.more s]\<rparr>) (accept h now rnd s0)
          \<and> (accept h now rnd s0 = None \<longleftrightarrow> accept_bad h s0)"
    if "list_all (\<lambda>x. tcp_closed now x \<or> tcp_flow x \<noteq> packet_flow h) ts"
  proof -
    have "find_loop (tcp_closed now) tcp_flow h ts = None" using that by (simp add: find_loop_None list_all_iff)
    then have fs: "findSession (tcp_closed now) tcp_flow h ts = None" by (simp add: findSession_def)
    show ?thesis
    proof (cases "buildSession h b (net v)")
      case None
      then show ?thesis using fs ok(2) np by (simp add: router_onReadable_def route_def ts_def)
    next
      case (Some s0)
      have "sess_inv (L \<union> held tcp_refs (mTCPSessions v)) s0" using vpn_inv_own [OF inv] Some by (rule buildSession_inv)
      from accept_cases [OF this len, of now rnd] have "accept h now rnd s0 = None \<longleftrightarrow> accept_bad h s0"
        by (auto split: if_splits)
      moreover have "router_onReadable (Some h) now rnd b ub junk v
            = map_option (\<lambda>s. v\<lparr>net := router.truncate s, mTCPSessions := ts @ [router.more s]\<rparr>) (accept h now rnd s0)"
        using fs Some ok(2) np by (cases "accept h now rnd s0") (simp_all add: router_onReadable_def route_def ts_def)
      ultimately show ?thesis using Some by simp
    qed
  qed
  show ?thesis using one none unfolding ts_def by blast
qed

lemma sample_syn_ok: "packet_ok sample_syn" "scale_ok sample_syn" "getProtocol sample_syn = PROTO_TCP"
proof -
  have f: "getHeaderLen sample_syn = 20" "tcp_dataoff sample_syn 20 = 5" "getProtocol sample_syn = 6"
      "getTTLEN sample_syn = 40"
    by (simp_all add: sample_syn_def getHeaderLen_def tcp_dataoff_def getProtocol_def getTTLEN_def
        mem_of_def nth_append ld16_def le16_def swap16_def)
  have "getOptionAddr sample_syn 20 k = Some None" for k
    by (simp add: getOptionAddr_def f option_loop.simps)
  then show "packet_ok sample_syn" "scale_ok sample_syn" "getProtocol sample_syn = PROTO_TCP"
    by (simp_all add: packet_ok_def scale_ok_def f getPayloadLen_def getPayloadOffset_def PROTO_TCP_def PROTO_UDP_def
        getTCPHeaderLen_def)
qed

theorem tcp_flow_routed_witness:
  "\<exists>s. accept sample_syn 1 2 sample_session = Some s
    \<and> router_onReadable (Some sample_syn) 1 2 sample_birth sample_udp_birth [] vpn0
      = Some (vpn0\<lparr>net := router.truncate s, mTCPSessions := [router.more s]\<rparr>)"
proof -
  have "read_ok False sample_syn sample_udp_birth"
    using sample_syn_ok by (simp add: read_ok_def packet_ok_def PROTO_TCP_def PROTO_UDP_def)
  from tcp_flow_routed [OF rtranclp.rtrancl_refl this sample_syn_ok(3), of 1 2 sample_birth "[]"]
  show ?thesis using sample_session_built packet_ok_fine [OF sample_syn_ok(1,2), of sample_session]
    by (cases "accept sample_syn 1 2 sample_session") (simp_all add: vpn0_def)
qed

end
