(* ===== verification/Reactor.thy ===== *)
theory Reactor
  imports Prelude "HOL-Library.Monad_Syntax"
begin

text \<open>
  \<^verbatim>\<open>reactor/EpollReactor.h\<close> and \<^verbatim>\<open>reactor/EpollReactor.cpp\<close>: the event loop. A registered descriptor has a stub on the
  heap, which the kernel hands back with each event. A handler may add and remove descriptors while
  events are dispatched, so a stub of a removed descriptor is only freed at the end of the round.
\<close>

section \<open>Events\<close>

type_synonym fd = int

definition EV_READ :: u32 where "EV_READ = 1"
definition EV_WRITE :: u32 where "EV_WRITE = 2"
definition EV_ERROR :: u32 where "EV_ERROR = 4"
definition EV_ALL :: u32 where "EV_ALL = EV_READ OR EV_WRITE OR EV_ERROR"

text \<open>The constants of \<^verbatim>\<open>sys/epoll.h\<close>.\<close>

definition EPOLLIN :: u32 where "EPOLLIN = 1"
definition EPOLLPRI :: u32 where "EPOLLPRI = 2"
definition EPOLLOUT :: u32 where "EPOLLOUT = 4"
definition EPOLLERR :: u32 where "EPOLLERR = 8"
definition EPOLLHUP :: u32 where "EPOLLHUP = 0x10"
definition EPOLLRDHUP :: u32 where "EPOLLRDHUP = 0x2000"

definition convertEvent :: "u32 \<Rightarrow> u32" where
  "convertEvent events =
     (let ne = 0;
          ne = (if events AND EV_READ \<noteq> 0 then ne OR EPOLLIN else ne);
          ne = (if events AND EV_WRITE \<noteq> 0 then ne OR EPOLLOUT else ne)
      in ne)"

section \<open>The state\<close>

text \<open>
  A listener is the reactor itself, for its command pipe, or one of the program's handlers. \<open>st_event\<close> is the
  \<^verbatim>\<open>epoll_event\<close> the stub points to, \<^term>\<open>None\<close> once it is deleted.
\<close>

datatype listener = CmdPipe | Handler nat

record stub =
  st_events :: u32
  st_event :: "u32 option"
  st_fd :: fd
  st_listener :: "listener option"
  st_tag :: nat

datatype react_callback = Readable | Writable | Exception | PeriodicallyCheck

text \<open>\<open>Deleted\<close> marks the point at which a descriptor leaves the table, it is no action of the code.\<close>

datatype entry = Called nat listener react_callback | Deleted nat

text \<open>
  \<open>stubs\<close> is the heap, \<open>interest\<close> what the kernel has for the epoll descriptor: the pointer and the events of each
  registered descriptor. \<^verbatim>\<open>mFd2Events\<close> is a \<^verbatim>\<open>std::map\<close>: a list sorted by descriptor. \<open>pipe_bytes\<close> is the content of
  the command pipe, \<open>calls\<close> counts the calls of handlers.
\<close>

record reactor =
  stubs :: "nat \<Rightarrow> stub option"
  next_stub :: nat
  mEpollFD :: fd
  mFd2Events :: "(fd \<times> nat) list"
  mDelEventStubs :: "nat list"
  mWorking :: bool
  interest :: "fd \<Rightarrow> (nat \<times> u32) option"
  pipe_bytes :: bytes
  calls :: nat
  rlog :: "entry list"

definition reactor_raw :: reactor where
  "reactor_raw = \<lparr>stubs = Map.empty, next_stub = 0, mEpollFD = -1, mFd2Events = [], mDelEventStubs = [], mWorking = False,
     interest = Map.empty, pipe_bytes = [], calls = 0, rlog = []\<rparr>"

abbreviation set_stub :: "nat \<Rightarrow> stub \<Rightarrow> reactor \<Rightarrow> reactor" where
  "set_stub r st s \<equiv> s\<lparr>stubs := (stubs s)(r \<mapsto> st)\<rparr>"

text \<open>
  \<^verbatim>\<open>epoll_ctl\<close>: \<open>ok\<close> is \<^term>\<open>False\<close> when the kernel refuses for a reason outside the model (a closed descriptor, no memory).
\<close>

definition epoll_add :: "bool \<Rightarrow> fd \<Rightarrow> nat \<times> u32 \<Rightarrow> reactor \<Rightarrow> bool \<times> reactor" where
  "epoll_add ok d e s =
     (if ok \<and> interest s d = None then (True, s\<lparr>interest := (interest s)(d \<mapsto> e)\<rparr>) else (False, s))"

definition epoll_mod :: "bool \<Rightarrow> fd \<Rightarrow> nat \<times> u32 \<Rightarrow> reactor \<Rightarrow> bool \<times> reactor" where
  "epoll_mod ok d e s =
     (if ok \<and> interest s d \<noteq> None then (True, s\<lparr>interest := (interest s)(d \<mapsto> e)\<rparr>) else (False, s))"

definition epoll_del :: "bool \<Rightarrow> fd \<Rightarrow> reactor \<Rightarrow> bool \<times> reactor" where
  "epoll_del ok d s =
     (if ok \<and> interest s d \<noteq> None then (True, s\<lparr>interest := (interest s)(d := None)\<rparr>) else (False, s))"

section \<open>Registration\<close>

text \<open>\<^term>\<open>None\<close> is undefined behaviour: a freed stub or a deleted \<^verbatim>\<open>epoll_event\<close> is used.\<close>

definition addEvent :: "bool \<Rightarrow> fd \<Rightarrow> u32 \<Rightarrow> listener \<Rightarrow> nat \<Rightarrow> reactor \<Rightarrow> (int \<times> reactor) option" where
  "addEvent ok d events l tag s =
     (if d < 0 then Some (-1, s)
      else if mEpollFD s < 0 then Some (-1, s)
      else
        (case map_of (mFd2Events s) d of
           Some r \<Rightarrow>
             do { st \<leftarrow> stubs s r;
                  let ne = st_events st OR events;
                  pe \<leftarrow> st_event st;
                  let s1 = set_stub r (st\<lparr>st_events := ne, st_event := Some (convertEvent ne), st_listener := Some l, st_tag := tag\<rparr>) s;
                  let (done, s2) = epoll_mod ok d (r, convertEvent ne) s1;
                  Some (if done then 0 else 1, s2) }
         | None \<Rightarrow>
             (let r = next_stub s;
                  st = \<lparr>st_events = events, st_event = Some (convertEvent events), st_fd = d, st_listener = Some l, st_tag = tag\<rparr>;
                  s1 = set_stub r st (s\<lparr>next_stub := r + 1\<rparr>);
                  (done, s2) = epoll_add ok d (r, convertEvent events) s1
              in if done then Some (0, s2\<lparr>mFd2Events := insort_key fst (d, r) (mFd2Events s2)\<rparr>)
                 else Some (1, s2\<lparr>stubs := (stubs s2)(r := None)\<rparr>))))"

definition delEvent :: "bool \<Rightarrow> fd \<Rightarrow> u32 \<Rightarrow> reactor \<Rightarrow> (int \<times> reactor) option" where
  "delEvent ok d events s =
     (if mEpollFD s < 0 then Some (-1, s)
      else
        (case map_of (mFd2Events s) d of
           None \<Rightarrow> Some (-1, s)
         | Some r \<Rightarrow>
             do { st \<leftarrow> stubs s r;
                  if st_listener st = None then Some (0, s)
                  else do {
                    let ne = st_events st AND NOT events;
                    pe \<leftarrow> st_event st;
                    let st1 = st\<lparr>st_events := ne, st_event := Some (convertEvent ne)\<rparr>;
                    let s1 = set_stub r st1 s;
                    let (done, s2) = (if ne = 0 then epoll_del ok d s1 else epoll_mod ok d (r, convertEvent ne) s1);
                    Some (if \<not> done then (-1, s2)
                          else if ne = 0
                          then (0, set_stub r (st1\<lparr>st_event := None, st_listener := None\<rparr>) s2
                                     \<lparr>mDelEventStubs := mDelEventStubs s2 @ [r],
                                      mFd2Events := filter (\<lambda>e. fst e \<noteq> d) (mFd2Events s2),
                                      rlog := rlog s2 @ [Deleted r]\<rparr>)
                          else (0, s2)) } }))"

definition containEvent :: "fd \<Rightarrow> u32 \<Rightarrow> reactor \<Rightarrow> int option" where
  "containEvent d events s =
     (if mEpollFD s < 0 then Some 0
      else
        (case map_of (mFd2Events s) d of
           None \<Rightarrow> Some 0
         | Some r \<Rightarrow>
             do { st \<leftarrow> stubs s r;
                  if st_listener st = None then Some 0
                  else do { pe \<leftarrow> st_event st;
                            Some (if pe AND convertEvent events = convertEvent events then 1 else 0) } }))"

text \<open>
  The constructor registers the reading end of the command pipe, the destructor unregisters everything. The numbers
  are the results of \<^verbatim>\<open>epoll_create\<close> and the reading end (negative when \<^verbatim>\<open>pipe\<close> fails); \<open>oks\<close> tells for which descriptors
  the kernel agrees. \<^verbatim>\<open>mDelEventStubs\<close> is destroyed with the object, not the stubs in it.
\<close>

definition reactor_new :: "fd \<Rightarrow> fd \<Rightarrow> bool \<Rightarrow> reactor option" where
  "reactor_new epfd p ok =
     (let s = reactor_raw\<lparr>mEpollFD := epfd\<rparr>
      in if epfd < 0 then Some s
         else if p < 0 then Some s
         else map_option snd (addEvent ok p EV_READ CmdPipe 0 s))"

fun delete_loop :: "(fd \<Rightarrow> bool) \<Rightarrow> (fd \<times> nat) list \<Rightarrow> reactor \<Rightarrow> reactor option" where
  "delete_loop oks [] s = Some s"
| "delete_loop oks ((d, r) # es) s =
     do { st \<leftarrow> stubs s r;
          let (done, s1) = epoll_del (oks d) d s;
          if \<not> done then delete_loop oks es s1
          else do { pe \<leftarrow> st_event st;
                    delete_loop oks es (s1\<lparr>stubs := (stubs s1)(r := None),
                                           mFd2Events := filter (\<lambda>e. fst e \<noteq> d) (mFd2Events s1)\<rparr>) } }"

definition reactor_delete :: "(fd \<Rightarrow> bool) \<Rightarrow> reactor \<Rightarrow> reactor option" where
  "reactor_delete oks s = (if mEpollFD s \<ge> 0 then delete_loop oks (mFd2Events s) s else Some s)"

section \<open>Dispatching\<close>

text \<open>
  What a handler does with the reactor while it is called: it adds and removes events and closes descriptors, which makes
  the kernel forget them. \<open>env n\<close> is what the handler called as the \<open>n\<close>-th does.
\<close>

datatype command = Add bool fd u32 nat nat | Del bool fd u32 | Close fd

fun run_commands :: "command list \<Rightarrow> reactor \<Rightarrow> reactor option" where
  "run_commands [] s = Some s"
| "run_commands (Add ok d events h tag # cs) s =
     do { (e, s1) \<leftarrow> addEvent ok d events (Handler h) tag s; run_commands cs s1 }"
| "run_commands (Del ok d events # cs) s = do { (e, s1) \<leftarrow> delEvent ok d events s; run_commands cs s1 }"
| "run_commands (Close d # cs) s = run_commands cs (s\<lparr>interest := (interest s)(d := None)\<rparr>)"

text \<open>The reactor's own handlers: only \<^verbatim>\<open>onReadable\<close> does anything. Reading the empty pipe fails.\<close>

definition pipe_onReadable :: "reactor \<Rightarrow> reactor" where
  "pipe_onReadable s =
     (case pipe_bytes s of
        [] \<Rightarrow> s
      | b # bs \<Rightarrow> (let s1 = s\<lparr>pipe_bytes := bs\<rparr> in if b = 1 then s1\<lparr>mWorking := False\<rparr> else s1))"

definition invoke :: "(nat \<Rightarrow> command list) \<Rightarrow> react_callback \<Rightarrow> nat \<Rightarrow> listener \<Rightarrow> reactor \<Rightarrow> reactor option" where
  "invoke env cb r l s =
     (let s1 = s\<lparr>calls := calls s + 1, rlog := rlog s @ [Called r l cb]\<rparr>
      in case l of
           CmdPipe \<Rightarrow> Some (if cb = Readable then pipe_onReadable s1 else s1)
         | Handler h \<Rightarrow> run_commands (env (calls s)) s1)"

text \<open>One test of \<^verbatim>\<open>stub->listener\<close> with the call it guards.\<close>

definition guarded :: "(nat \<Rightarrow> command list) \<Rightarrow> react_callback \<Rightarrow> bool \<Rightarrow> nat \<Rightarrow> reactor \<Rightarrow> reactor option" where
  "guarded env cb c r s =
     do { st \<leftarrow> stubs s r;
          case st_listener st of
            None \<Rightarrow> Some s
          | Some l \<Rightarrow> if c then invoke env cb r l s else Some s }"

definition dispatch_one :: "(nat \<Rightarrow> command list) \<Rightarrow> nat \<Rightarrow> u32 \<Rightarrow> reactor \<Rightarrow> reactor option" where
  "dispatch_one env r events s =
     do { st \<leftarrow> stubs s r;
          if st_listener st = None then Some s
          else do {
            s1 \<leftarrow> guarded env Readable (events AND (EPOLLIN OR EPOLLPRI) > 0) r s;
            s2 \<leftarrow> guarded env Writable (events AND EPOLLOUT > 0) r s1;
            guarded env Exception (events AND (EPOLLRDHUP OR EPOLLERR OR EPOLLHUP) > 0) r s2 } }"

fun dispatchEvent :: "(nat \<Rightarrow> command list) \<Rightarrow> (nat \<times> u32) list \<Rightarrow> reactor \<Rightarrow> reactor option" where
  "dispatchEvent env [] s = Some s"
| "dispatchEvent env ((r, events) # es) s = do { s1 \<leftarrow> dispatch_one env r events s; dispatchEvent env es s1 }"

fun check_loop :: "(nat \<Rightarrow> command list) \<Rightarrow> nat list \<Rightarrow> reactor \<Rightarrow> reactor option" where
  "check_loop env [] s = Some s"
| "check_loop env (r # rs) s = do { s1 \<leftarrow> guarded env PeriodicallyCheck True r s; check_loop env rs s1 }"

definition dispatchCheck :: "(nat \<Rightarrow> command list) \<Rightarrow> reactor \<Rightarrow> reactor option" where
  "dispatchCheck env s = check_loop env (map snd (mFd2Events s)) s"

fun free_stubs :: "nat list \<Rightarrow> reactor \<Rightarrow> reactor option" where
  "free_stubs [] s = Some s"
| "free_stubs (r # rs) s = do { st \<leftarrow> stubs s r; free_stubs rs (s\<lparr>stubs := (stubs s)(r := None)\<rparr>) }"

definition cleanDeletedEvents :: "reactor \<Rightarrow> reactor option" where
  "cleanDeletedEvents s = do { s1 \<leftarrow> free_stubs (mDelEventStubs s) s; Some (s1\<lparr>mDelEventStubs := []\<rparr>) }"

section \<open>The loop\<close>

text \<open>
  Each entry is a result of \<^verbatim>\<open>epoll_wait\<close> and the time after dispatching. The loop ends when \<^verbatim>\<open>mWorking\<close> is false or
  \<^verbatim>\<open>epoll_wait\<close> fails for good; when the list is used up it is waiting.
\<close>

datatype wait = Interrupted | Failed | Ready "(nat \<times> u32) list"
datatype progress = Waiting | Ended

definition CHECK_PERIOD :: int where "CHECK_PERIOD = 10"

definition reactor_round :: "(nat \<Rightarrow> command list) \<Rightarrow> (nat \<times> u32) list \<Rightarrow> int \<Rightarrow> int \<Rightarrow> reactor \<Rightarrow> (int \<times> reactor) option" where
  "reactor_round env es now lastCheck s =
     do { s1 \<leftarrow> dispatchEvent env es s;
          let due = now > lastCheck + CHECK_PERIOD;
          s2 \<leftarrow> (if due then dispatchCheck env s1 else Some s1);
          s3 \<leftarrow> cleanDeletedEvents s2;
          Some (if due then now else lastCheck, s3) }"

fun working_loop :: "(nat \<Rightarrow> command list) \<Rightarrow> (wait \<times> int) list \<Rightarrow> int \<Rightarrow> reactor \<Rightarrow> (progress \<times> reactor) option" where
  "working_loop env ws lastCheck s =
     (if \<not> mWorking s then Some (Ended, s)
      else (case ws of
              [] \<Rightarrow> Some (Waiting, s)
            | (Interrupted, now) # ws1 \<Rightarrow> working_loop env ws1 lastCheck s
            | (Failed, now) # ws1 \<Rightarrow> Some (Ended, s)
            | (Ready es, now) # ws1 \<Rightarrow>
                do { (t, s1) \<leftarrow> reactor_round env es now lastCheck s; working_loop env ws1 t s1 }))"

declare working_loop.simps [simp del]

definition reactor_start :: "(nat \<Rightarrow> command list) \<Rightarrow> (wait \<times> int) list \<Rightarrow> int \<Rightarrow> reactor \<Rightarrow> (int \<times> progress \<times> reactor) option" where
  "reactor_start env ws now s =
     (if mWorking s then Some (1, Ended, s)
      else map_option (Pair 0) (working_loop env ws now (s\<lparr>mWorking := True\<rparr>)))"

text \<open>\<^verbatim>\<open>stop\<close> writes the command 1; \<open>ok\<close> says whether the pipe takes it.\<close>

definition writeCmd :: "bool \<Rightarrow> byte \<Rightarrow> reactor \<Rightarrow> int \<times> reactor" where
  "writeCmd ok cmd s = (if ok then (1, s\<lparr>pipe_bytes := pipe_bytes s @ [cmd]\<rparr>) else (-1, s))"

definition reactor_stop :: "bool \<Rightarrow> reactor \<Rightarrow> int \<times> reactor" where
  "reactor_stop ok s = (let (w, s1) = writeCmd ok 1 s in if w \<le> 0 then (1, s1) else (0, s1))"

end
