(* ===== verification/ReactorRun.thy ===== *)
theory ReactorRun
  imports Reactor
begin

text \<open>
  All runs of the event loop: which stubs are alive, what the kernel can still report, and who is called.
\<close>

section \<open>The invariant\<close>

text \<open>No handler is called for a stub after its descriptor left the table.\<close>

definition quiet :: "entry list \<Rightarrow> bool" where
  "quiet es \<longleftrightarrow> (\<forall>xs r ys. es = xs @ Deleted r # ys \<longrightarrow> (\<forall>l cb. Called r l cb \<notin> set ys))"

lemma quiet_Nil [simp]: "quiet []"
  by (simp add: quiet_def)

lemma quiet_snoc:
  "quiet (es @ [e]) \<longleftrightarrow> quiet es \<and> (\<forall>r l cb. e = Called r l cb \<longrightarrow> Deleted r \<notin> set es)"
proof
  assume q: "quiet (es @ [e])"
  have "Called r l cb \<notin> set ys" if "es = xs @ Deleted r # ys" for xs r ys l cb
    using q that unfolding quiet_def by (auto dest: spec [of _ xs] spec [of _ "ys @ [e]"])
  moreover have "Deleted r \<notin> set es" if e: "e = Called r l cb" for r l cb
  proof
    assume "Deleted r \<in> set es"
    then obtain xs ys where "es = xs @ Deleted r # ys" by (auto dest: split_list)
    then have "es @ [e] = xs @ Deleted r # (ys @ [e])" by simp
    with q have "Called r l cb \<notin> set (ys @ [e])" unfolding quiet_def by blast
    then show False using e by simp
  qed
  ultimately show "quiet es \<and> (\<forall>r l cb. e = Called r l cb \<longrightarrow> Deleted r \<notin> set es)" by (simp add: quiet_def)
next
  assume q: "quiet es \<and> (\<forall>r l cb. e = Called r l cb \<longrightarrow> Deleted r \<notin> set es)"
  show "quiet (es @ [e])"
    unfolding quiet_def
  proof (intro allI impI)
    fix xs r ys l cb assume s: "es @ [e] = xs @ Deleted r # ys"
    show "Called r l cb \<notin> set ys"
    proof (cases ys rule: rev_cases)
      case (snoc zs z)
      then have "es = xs @ Deleted r # zs" "e = z" using s by auto
      then show ?thesis using q snoc by (auto simp: quiet_def)
    qed simp
  qed
qed

text \<open>The table \<open>F\<close>, the deleted stubs \<open>D\<close>, the heap \<open>h\<close>, the next address \<open>n\<close>, the kernel's list \<open>K\<close> and the log \<open>L\<close>.\<close>

definition reactor_wf ::
  "(fd \<times> nat) list \<Rightarrow> nat list \<Rightarrow> (nat \<Rightarrow> stub option) \<Rightarrow> nat \<Rightarrow> (fd \<Rightarrow> (nat \<times> u32) option) \<Rightarrow> entry list \<Rightarrow> bool" where
  "reactor_wf F D h n K L \<longleftrightarrow>
     sorted (map fst F) \<and> distinct (map fst F) \<and> distinct (map snd F @ D)
     \<and> dom h = snd ` set F \<union> set D \<and> (\<forall>r \<in> dom h. r < n)
     \<and> (\<forall>d r. (d, r) \<in> set F \<longrightarrow> (\<exists>st. h r = Some st \<and> st_fd st = d \<and> st_event st \<noteq> None \<and> st_listener st \<noteq> None))
     \<and> (\<forall>r \<in> set D. \<exists>st. h r = Some st \<and> st_listener st = None)
     \<and> (\<forall>d r e. K d = Some (r, e) \<longrightarrow> (d, r) \<in> set F)
     \<and> (\<forall>r. Deleted r \<in> set L \<longrightarrow> r < n \<and> r \<notin> snd ` set F)
     \<and> quiet L"

definition reactor_inv :: "reactor \<Rightarrow> bool" where
  "reactor_inv s \<longleftrightarrow> reactor_wf (mFd2Events s) (mDelEventStubs s) (stubs s) (next_stub s) (interest s) (rlog s)"

lemma reactor_raw_inv: "reactor_inv (reactor_raw\<lparr>mEpollFD := e\<rparr>)"
  by (simp add: reactor_inv_def reactor_wf_def reactor_raw_def)

lemma wfD:
  assumes "reactor_wf F D h n K L"
  shows "sorted (map fst F)" "distinct (map fst F)" "distinct (map snd F @ D)" "dom h = snd ` set F \<union> set D"
    "\<And>r st. h r = Some st \<Longrightarrow> r < n"
    "\<And>d r. (d, r) \<in> set F \<Longrightarrow> \<exists>st. h r = Some st \<and> st_fd st = d \<and> st_event st \<noteq> None \<and> st_listener st \<noteq> None"
    "\<And>r. r \<in> set D \<Longrightarrow> \<exists>st. h r = Some st \<and> st_listener st = None"
    "\<And>d r e. K d = Some (r, e) \<Longrightarrow> (d, r) \<in> set F"
    "\<And>r. Deleted r \<in> set L \<Longrightarrow> r < n \<and> r \<notin> snd ` set F"
    "quiet L"
  using assms unfolding reactor_wf_def by blast+

lemma wfI:
  assumes "sorted (map fst F)" "distinct (map fst F)" "distinct (map snd F @ D)" "dom h = snd ` set F \<union> set D"
    "\<And>r st. h r = Some st \<Longrightarrow> r < n"
    "\<And>d r. (d, r) \<in> set F \<Longrightarrow> \<exists>st. h r = Some st \<and> st_fd st = d \<and> st_event st \<noteq> None \<and> st_listener st \<noteq> None"
    "\<And>r. r \<in> set D \<Longrightarrow> \<exists>st. h r = Some st \<and> st_listener st = None"
    "\<And>d r e. K d = Some (r, e) \<Longrightarrow> (d, r) \<in> set F"
    "\<And>r. Deleted r \<in> set L \<Longrightarrow> r < n \<and> r \<notin> snd ` set F"
    "quiet L"
  shows "reactor_wf F D h n K L"
  unfolding reactor_wf_def using assms by blast

lemma distinct_map_insort [simp]:
  "distinct (map g (insort_key f x xs)) \<longleftrightarrow> g x \<notin> g ` set xs \<and> distinct (map g xs)"
  by (induction xs) (auto simp: set_insort_key)

lemma table_find: "distinct (map fst F) \<Longrightarrow> map_of F d = Some r \<longleftrightarrow> (d, r) \<in> set F"
  by (rule map_of_eq_Some_iff)

text \<open>A live stub with a listener is the one of its descriptor.\<close>

lemma wf_registered:
  assumes wf: "reactor_wf F D h n K L" and st: "h r = Some st" "st_listener st \<noteq> None"
  shows "(st_fd st, r) \<in> set F"
proof -
  have "r \<in> snd ` set F \<or> r \<in> set D" using wfD(4) [OF wf] st(1) by blast
  then obtain d where d: "(d, r) \<in> set F" using wfD(7) [OF wf, of r] st by force
  then show ?thesis using wfD(6) [OF wf d] st(1) by auto
qed

section \<open>What the operations do to it\<close>

text \<open>A registered stub is changed, and what the kernel has for its descriptor.\<close>

lemma wf_modify:
  assumes wf: "reactor_wf F D h n K L" and r: "(d, r) \<in> set F"
    and st: "st_fd st = d" "st_event st \<noteq> None" "st_listener st \<noteq> None"
    and K: "\<And>d' r' e. K' d' = Some (r', e) \<Longrightarrow> (d', r') \<in> set F"
  shows "reactor_wf F D (h(r \<mapsto> st)) n K' L"
proof (rule wfI)
  note I = wfD [OF wf]
  obtain st0 where st0: "h r = Some st0" "st_fd st0 = d" using I(6) [OF r] by blast
  show "dom (h(r \<mapsto> st)) = snd ` set F \<union> set D" using I(4) st0(1) by auto
  show "r' < n" if "(h(r \<mapsto> st)) r' = Some st'" for r' st'
    using that I(5) st0(1) by (auto split: if_splits)
  show "\<exists>st'. (h(r \<mapsto> st)) r' = Some st' \<and> st_fd st' = d' \<and> st_event st' \<noteq> None \<and> st_listener st' \<noteq> None"
    if "(d', r') \<in> set F" for d' r'
    using I(6) [OF that] st st0 by (cases "r' = r") auto
  have "r \<notin> set D" using r I(3) by force
  then show "\<exists>st'. (h(r \<mapsto> st)) r' = Some st' \<and> st_listener st' = None" if "r' \<in> set D" for r'
    using I(7) [OF that] that by auto
  show "sorted (map fst F)" "distinct (map fst F)" "distinct (map snd F @ D)" "quiet L" by (rule I(1) I(2) I(3) I(10))+
  show "(d', r') \<in> set F" if "K' d' = Some (r', e)" for d' r' e using that by (rule K)
  show "r' < n \<and> r' \<notin> snd ` set F" if "Deleted r' \<in> set L" for r' using that by (rule I(9))
qed

text \<open>A new stub, registered with the kernel.\<close>

lemma wf_insert:
  assumes wf: "reactor_wf F D h n K L" and d: "d \<notin> fst ` set F"
    and st: "st_fd st = d" "st_event st \<noteq> None" "st_listener st \<noteq> None"
  shows "reactor_wf (insort_key fst (d, n) F) D (h(n \<mapsto> st)) (n + 1) (K(d \<mapsto> (n, e))) L"
proof (rule wfI)
  note I = wfD [OF wf]
  have n: "n \<notin> dom h" using I(5) by blast
  then have nF: "n \<notin> snd ` set F" "n \<notin> set D" using I(4) by auto
  show "sorted (map fst (insort_key fst (d, n) F))" using I(1) by (simp add: sorted_insort_key)
  show "distinct (map fst (insort_key fst (d, n) F))" using I(2) d by simp
  show "distinct (map snd (insort_key fst (d, n) F) @ D)"
    using I(3) nF by (auto simp: set_insort_key)
  show "dom (h(n \<mapsto> st)) = snd ` set (insort_key fst (d, n) F) \<union> set D" using I(4) by (auto simp: set_insort_key)
  show "r < n + 1" if "(h(n \<mapsto> st)) r = Some st'" for r st'
    using that I(5) [of r st'] by (auto split: if_splits)
  show "\<exists>st'. (h(n \<mapsto> st)) r = Some st' \<and> st_fd st' = d' \<and> st_event st' \<noteq> None \<and> st_listener st' \<noteq> None"
    if "(d', r) \<in> set (insort_key fst (d, n) F)" for d' r
    using that I(6) [of d' r] st nF(1) by (cases "r = n") (force simp: set_insort_key)+
  show "\<exists>st'. (h(n \<mapsto> st)) r = Some st' \<and> st_listener st' = None" if "r \<in> set D" for r
    using I(7) [OF that] that nF(2) by auto
  show "(d', r) \<in> set (insort_key fst (d, n) F)" if "(K(d \<mapsto> (n, e))) d' = Some (r, e')" for d' r e'
    using that I(8) [of d' r e'] by (auto simp: set_insort_key split: if_splits)
  show "r < n + 1 \<and> r \<notin> snd ` set (insort_key fst (d, n) F)" if "Deleted r \<in> set L" for r
    using I(9) [OF that] by (auto simp: set_insort_key)
  show "quiet L" by (rule I(10))
qed

lemma wf_skip: "reactor_wf F D h n K L \<Longrightarrow> reactor_wf F D h (Suc n) K L"
  unfolding reactor_wf_def by (intro conjI; (elim conjE)?; simp add: less_SucI)

lemma wf_called:
  assumes wf: "reactor_wf F D h n K L" and r: "(d, r) \<in> set F"
  shows "reactor_wf F D h n K (L @ [Called r l cb])"
proof -
  have "Deleted r \<notin> set L" using wfD(9) [OF wf, of r] r by force
  then have "quiet (L @ [Called r l cb])" using wfD(10) [OF wf] by (simp add: quiet_snoc)
  then show ?thesis using wf by (simp add: reactor_wf_def)
qed

text \<open>A descriptor leaves the table; its stub waits to be freed.\<close>

lemma wf_remove:
  assumes wf: "reactor_wf F D h n K L" and r: "(d, r) \<in> set F" and st: "st_listener st = None"
  shows "reactor_wf (filter (\<lambda>e. fst e \<noteq> d) F) (D @ [r]) (h(r \<mapsto> st)) n (K(d := None)) (L @ [Deleted r])"
proof (rule wfI)
  note I = wfD [OF wf]
  have one: "r' = r \<longleftrightarrow> d' = d" if "(d', r') \<in> set F" for d' r'
    using that r I(2) I(6) [OF that] I(6) [OF r] eq_key_imp_eq_value [OF I(2)] by auto
  have rD: "r \<notin> set D" using r I(3) by force
  have in_F: "(d', r') \<in> set (filter (\<lambda>e. fst e \<noteq> d) F) \<longleftrightarrow> (d', r') \<in> set F \<and> r' \<noteq> r" for d' r'
    using one by auto
  have snd_F: "snd ` set (filter (\<lambda>e. fst e \<noteq> d) F) = snd ` set F - {r}" using one by force
  show "sorted (map fst (filter (\<lambda>e. fst e \<noteq> d) F))" using I(1) by (rule sorted_filter)
  show "distinct (map fst (filter (\<lambda>e. fst e \<noteq> d) F))" using I(2) by (rule distinct_map_filter)
  have "distinct (map snd F)" using I(3) by simp
  then have "distinct (map snd (filter (\<lambda>e. fst e \<noteq> d) F))" by (rule distinct_map_filter)
  then show "distinct (map snd (filter (\<lambda>e. fst e \<noteq> d) F) @ D @ [r])"
    using I(3) rD snd_F by (auto simp del: set_filter)
  have "r \<in> snd ` set F" using r by force
  then show "dom (h(r \<mapsto> st)) = snd ` set (filter (\<lambda>e. fst e \<noteq> d) F) \<union> set (D @ [r])"
    unfolding snd_F using I(4) by auto
  show "r' < n" if "(h(r \<mapsto> st)) r' = Some st'" for r' st'
    using that I(5) I(6) [OF r] by (auto split: if_splits)
  show "\<exists>st'. (h(r \<mapsto> st)) r' = Some st' \<and> st_fd st' = d' \<and> st_event st' \<noteq> None \<and> st_listener st' \<noteq> None"
    if "(d', r') \<in> set (filter (\<lambda>e. fst e \<noteq> d) F)" for d' r'
    using that I(6) [of d' r'] unfolding in_F by auto
  show "\<exists>st'. (h(r \<mapsto> st)) r' = Some st' \<and> st_listener st' = None" if "r' \<in> set (D @ [r])" for r'
    using that I(7) [of r'] st rD by auto
  show "(d', r') \<in> set (filter (\<lambda>e. fst e \<noteq> d) F)" if "(K(d := None)) d' = Some (r', e)" for d' r' e
    using that I(8) [of d' r' e] by (auto split: if_splits)
  show "r' < n \<and> r' \<notin> snd ` set (filter (\<lambda>e. fst e \<noteq> d) F)" if "Deleted r' \<in> set (L @ [Deleted r])" for r'
    using that I(9) [of r'] I(6) [OF r] I(5) [of r] unfolding snd_F by auto
  show "quiet (L @ [Deleted r])" using I(10) by (simp add: quiet_snoc)
qed

text \<open>While events are dispatched no stub is freed.\<close>

definition grows :: "reactor \<Rightarrow> reactor \<Rightarrow> bool" where
  "grows s s' \<longleftrightarrow> reactor_inv s' \<and> dom (stubs s) \<subseteq> dom (stubs s')"

lemma grows_refl: "reactor_inv s \<Longrightarrow> grows s s"
  by (simp add: grows_def)

lemma grows_trans [trans]: "grows s1 s2 \<Longrightarrow> grows s2 s3 \<Longrightarrow> grows s1 s3"
  by (auto simp: grows_def)

lemma grows_inv: "grows s s' \<Longrightarrow> reactor_inv s'"
  by (simp add: grows_def)

lemma inv_parts:
  "reactor_inv s' \<longleftrightarrow> reactor_wf (mFd2Events s') (mDelEventStubs s') (stubs s') (next_stub s') (interest s') (rlog s')"
  by (rule reactor_inv_def)

lemma addEvent_old_grows:
  assumes inv: "reactor_inv s" and nn: "\<not> (d < 0 \<or> mEpollFD s < 0)" and m: "map_of (mFd2Events s) d = Some r"
  shows "\<exists>e s'. addEvent ok d ev l tag s = Some (e, s') \<and> grows s s'"
proof -
  note wf = inv [unfolded inv_parts] and I = wfD [OF inv [unfolded inv_parts]]
  have r: "(d, r) \<in> set (mFd2Events s)" using m by (rule map_of_SomeD)
  obtain st where st: "stubs s r = Some st" "st_fd st = d" "st_event st \<noteq> None" using I(6) [OF r] by blast
  define st1 where "st1 = st\<lparr>st_events := st_events st OR ev, st_event := Some (convertEvent (st_events st OR ev)),
      st_listener := Some l, st_tag := tag\<rparr>"
  have st1: "st_fd st1 = d" "st_event st1 \<noteq> None" "st_listener st1 \<noteq> None" using st(2) by (simp_all add: st1_def)
  define K where "K = (if ok \<and> interest s d \<noteq> None
      then (interest s)(d \<mapsto> (r, convertEvent (st_events st OR ev))) else interest s)"
  have "(d', r') \<in> set (mFd2Events s)" if "K d' = Some (r', e)" for d' r' e
    using that I(8) [of d' r'] r by (auto simp: K_def split: if_splits)
  note wf1 = wf_modify [OF wf r st1 this]
  define s' where "s' = set_stub r st1 s\<lparr>interest := K\<rparr>"
  have "addEvent ok d ev l tag s = Some (if ok \<and> interest s d \<noteq> None then 0 else 1, s')"
    using nn m st by (auto simp: addEvent_def epoll_mod_def s'_def K_def st1_def Let_def)
  moreover have "reactor_inv s'" using wf1 by (simp add: inv_parts s'_def)
  moreover have "dom (stubs s) \<subseteq> dom (stubs s')" by (auto simp: s'_def)
  ultimately show ?thesis by (auto simp: grows_def)
qed

lemma addEvent_new_grows:
  assumes inv: "reactor_inv s" and nn: "\<not> (d < 0 \<or> mEpollFD s < 0)" and m: "map_of (mFd2Events s) d = None"
  shows "\<exists>e s'. addEvent ok d ev l tag s = Some (e, s') \<and> grows s s'"
proof -
  note wf = inv [unfolded inv_parts] and I = wfD [OF inv [unfolded inv_parts]]
  define n where "n = next_stub s"
  define st where "st = \<lparr>st_events = ev, st_event = Some (convertEvent ev), st_fd = d, st_listener = Some l, st_tag = tag\<rparr>"
  have n: "stubs s n = None" using I(5) [of n] by (cases "stubs s n") (auto simp: n_def)
  show ?thesis
  proof (cases "ok \<and> interest s d = None")
    case True
    define s' where "s' = set_stub n st s\<lparr>next_stub := n + 1, interest := (interest s)(d \<mapsto> (n, convertEvent ev)),
        mFd2Events := insort_key fst (d, n) (mFd2Events s)\<rparr>"
    have d: "d \<notin> fst ` set (mFd2Events s)" using m by (simp add: map_of_eq_None_iff)
    have "addEvent ok d ev l tag s = Some (0, s')"
      using nn m True by (simp add: addEvent_def epoll_add_def s'_def st_def n_def Let_def)
    moreover have "reactor_inv s'"
      using wf_insert [OF wf d, of st "convertEvent ev"] by (simp add: inv_parts s'_def n_def st_def)
    moreover have "dom (stubs s) \<subseteq> dom (stubs s')" by (auto simp: s'_def)
    ultimately show ?thesis by (auto simp: grows_def)
  next
    case no: False
    define s' where "s' = s\<lparr>next_stub := n + 1\<rparr>"
    have same: "(stubs s)(n := None) = stubs s" using n by auto
    have "addEvent ok d ev l tag s = Some (1, s')"
      using nn m no same by (auto simp: addEvent_def epoll_add_def s'_def n_def Let_def)
    moreover have "reactor_inv s'" using wf_skip [OF wf] by (simp add: inv_parts s'_def n_def)
    ultimately show ?thesis by (auto simp: grows_def s'_def)
  qed
qed

lemma addEvent_grows:
  assumes inv: "reactor_inv s"
  shows "\<exists>e s'. addEvent ok d ev l tag s = Some (e, s') \<and> grows s s'"
proof (cases "d < 0 \<or> mEpollFD s < 0")
  case True
  then show ?thesis using inv by (auto simp: addEvent_def grows_def)
next
  case False
  then show ?thesis
    using addEvent_old_grows [OF inv False] addEvent_new_grows [OF inv False] by (cases "map_of (mFd2Events s) d") blast+
qed

lemma delEvent_grows:
  assumes inv: "reactor_inv s"
  shows "\<exists>e s'. delEvent ok d ev s = Some (e, s') \<and> grows s s'"
proof (cases "mEpollFD s < 0 \<or> map_of (mFd2Events s) d = None")
  case True
  then show ?thesis using inv by (auto simp: delEvent_def grows_def)
next
  case False
  note wf = inv [unfolded inv_parts] and I = wfD [OF inv [unfolded inv_parts]]
  obtain r where m: "map_of (mFd2Events s) d = Some r" using False by auto
  then have r: "(d, r) \<in> set (mFd2Events s)" by (rule map_of_SomeD)
  obtain st where st: "stubs s r = Some st" "st_fd st = d" "st_event st \<noteq> None" "st_listener st \<noteq> None"
    using I(6) [OF r] by blast
  obtain pe li where pe: "st_event st = Some pe" "st_listener st = Some li" using st by auto
  define ne where "ne = st_events st AND NOT ev"
  define st1 where "st1 = st\<lparr>st_events := ne, st_event := Some (convertEvent ne)\<rparr>"
  have st1: "st_fd st1 = d" "st_event st1 \<noteq> None" "st_listener st1 \<noteq> None" using st by (simp_all add: st1_def)
  show ?thesis
  proof (cases "ne = 0 \<and> ok \<and> interest s d \<noteq> None")
    case True
    define st2 where "st2 = st1\<lparr>st_event := None, st_listener := None\<rparr>"
    define s' where "s' = set_stub r st2 s\<lparr>interest := (interest s)(d := None), mDelEventStubs := mDelEventStubs s @ [r],
        mFd2Events := filter (\<lambda>e. fst e \<noteq> d) (mFd2Events s), rlog := rlog s @ [Deleted r]\<rparr>"
    have "delEvent ok d ev s = Some (0, s')"
      using False m st pe True by (auto simp: delEvent_def epoll_del_def s'_def st2_def st1_def ne_def [symmetric] Let_def)
    moreover have "reactor_inv s'"
      using wf_remove [OF wf r, of st2] by (simp add: inv_parts s'_def st2_def)
    moreover have "dom (stubs s) \<subseteq> dom (stubs s')" by (auto simp: s'_def)
    ultimately show ?thesis by (auto simp: grows_def)
  next
    case no: False
    define K where "K = (if ok \<and> interest s d \<noteq> None \<and> ne \<noteq> 0 then (interest s)(d \<mapsto> (r, convertEvent ne)) else interest s)"
    have "(d', r') \<in> set (mFd2Events s)" if "K d' = Some (r', e)" for d' r' e
      using that I(8) [of d' r'] r by (auto simp: K_def split: if_splits)
    note wf1 = wf_modify [OF wf r st1 this]
    define s' where "s' = set_stub r st1 s\<lparr>interest := K\<rparr>"
    have "\<exists>e. delEvent ok d ev s = Some (e, s')"
      using False m st pe no
      by (cases "ne = 0") (auto simp: delEvent_def epoll_del_def epoll_mod_def s'_def K_def st1_def ne_def [symmetric] Let_def)
    moreover have "reactor_inv s'" using wf1 by (simp add: inv_parts s'_def)
    moreover have "dom (stubs s) \<subseteq> dom (stubs s')" by (auto simp: s'_def)
    ultimately show ?thesis by (auto simp: grows_def)
  qed
qed

lemma run_commands_grows:
  "reactor_inv s \<Longrightarrow> \<exists>s'. run_commands cs s = Some s' \<and> grows s s'"
proof (induction cs s rule: run_commands.induct)
  case (1 s)
  then show ?case by (simp add: grows_refl)
next
  case (2 ok d ev h tag cs s)
  obtain e s1 where s1: "addEvent ok d ev (Handler h) tag s = Some (e, s1)" "grows s s1"
    using addEvent_grows [OF 2(2)] by blast
  from "2.IH" [of "(e, s1)" e s1] show ?case using s1 grows_trans grows_inv by fastforce
next
  case (3 ok d ev cs s)
  obtain e s1 where s1: "delEvent ok d ev s = Some (e, s1)" "grows s s1"
    using delEvent_grows [OF 3(2)] by blast
  from "3.IH" [of "(e, s1)" e s1] show ?case using s1 grows_trans grows_inv by fastforce
next
  case (4 d cs s)
  have "reactor_inv (s\<lparr>interest := (interest s)(d := None)\<rparr>)"
    using 4(2) unfolding inv_parts reactor_wf_def by (auto split: if_splits)
  then show ?case using "4.IH" by (auto simp: grows_def)
qed

section \<open>Dispatching\<close>

lemma invoke_grows:
  assumes inv: "reactor_inv s" and st: "stubs s r = Some st" "st_listener st = Some l"
  shows "\<exists>s'. invoke env cb r l s = Some s' \<and> grows s s'"
proof -
  define s1 where "s1 = s\<lparr>calls := calls s + 1, rlog := rlog s @ [Called r l cb]\<rparr>"
  have "(st_fd st, r) \<in> set (mFd2Events s)" using wf_registered [OF inv [unfolded inv_parts] st(1)] st(2) by simp
  from wf_called [OF inv [unfolded inv_parts] this] have inv1: "reactor_inv s1" by (simp add: inv_parts s1_def)
  have dom: "dom (stubs s1) = dom (stubs s)" by (simp add: s1_def)
  show ?thesis
  proof (cases l)
    case CmdPipe
    define s2 where "s2 = (if cb = Readable then pipe_onReadable s1 else s1)"
    have "reactor_inv s2 \<and> stubs s2 = stubs s1"
      using inv1 by (auto simp: s2_def pipe_onReadable_def inv_parts Let_def split: list.splits)
    then have "grows s s2" using dom by (simp add: grows_def)
    moreover have "invoke env cb r l s = Some s2" using CmdPipe by (simp add: invoke_def s1_def s2_def Let_def)
    ultimately show ?thesis by blast
  next
    case (Handler h)
    obtain s2 where "run_commands (env (calls s)) s1 = Some s2" "grows s1 s2" using run_commands_grows [OF inv1] by blast
    then show ?thesis using Handler dom by (simp add: invoke_def s1_def grows_def)
  qed
qed

lemma guarded_grows:
  assumes inv: "reactor_inv s" and r: "r \<in> dom (stubs s)"
  shows "\<exists>s'. guarded env cb c r s = Some s' \<and> grows s s'"
proof -
  obtain st where st: "stubs s r = Some st" using r by auto
  show ?thesis
    using invoke_grows [OF inv st] grows_refl [OF inv] st
    by (cases "st_listener st") (auto simp: guarded_def)
qed

lemma dispatch_one_grows:
  assumes inv: "reactor_inv s" and r: "r \<in> dom (stubs s)"
  shows "\<exists>s'. dispatch_one env r ev s = Some s' \<and> grows s s'"
proof -
  obtain st where st: "stubs s r = Some st" using r by auto
  show ?thesis
  proof (cases "st_listener st")
    case None
    then show ?thesis using st grows_refl [OF inv] by (simp add: dispatch_one_def)
  next
    case (Some l)
    obtain s1 where s1: "guarded env Readable (ev AND (EPOLLIN OR EPOLLPRI) > 0) r s = Some s1" "grows s s1"
      using guarded_grows [OF inv r] by blast
    then have r1: "r \<in> dom (stubs s1)" using r by (auto simp: grows_def)
    obtain s2 where s2: "guarded env Writable (ev AND EPOLLOUT > 0) r s1 = Some s2" "grows s1 s2"
      using guarded_grows [OF grows_inv [OF s1(2)] r1] by blast
    then have r2: "r \<in> dom (stubs s2)" using r1 by (auto simp: grows_def)
    obtain s3 where s3: "guarded env Exception (ev AND (EPOLLRDHUP OR EPOLLERR OR EPOLLHUP) > 0) r s2 = Some s3" "grows s2 s3"
      using guarded_grows [OF grows_inv [OF s2(2)] r2] by blast
    have "grows s s3" using s1(2) s2(2) s3(2) grows_trans by blast
    then show ?thesis using Some st s1(1) s2(1) s3(1) by (simp add: dispatch_one_def)
  qed
qed

lemma dispatchEvent_grows:
  "reactor_inv s \<Longrightarrow> fst ` set es \<subseteq> dom (stubs s) \<Longrightarrow> \<exists>s'. dispatchEvent env es s = Some s' \<and> grows s s'"
proof (induction es arbitrary: s)
  case Nil
  then show ?case by (simp add: grows_refl)
next
  case (Cons e es)
  obtain r ev where e: "e = (r, ev)" by (cases e)
  have "r \<in> dom (stubs s)" using Cons.prems(2) e by auto
  then obtain s1 where s1: "dispatch_one env r ev s = Some s1" "grows s s1"
    using dispatch_one_grows [OF Cons.prems(1)] by blast
  have "fst ` set es \<subseteq> dom (stubs s1)" using Cons.prems(2) s1(2) by (auto simp: grows_def)
  from Cons.IH [OF grows_inv [OF s1(2)] this] show ?case using e s1 grows_trans by fastforce
qed

lemma check_loop_grows:
  "reactor_inv s \<Longrightarrow> set rs \<subseteq> dom (stubs s) \<Longrightarrow> \<exists>s'. check_loop env rs s = Some s' \<and> grows s s'"
proof (induction rs arbitrary: s)
  case Nil
  then show ?case by (simp add: grows_refl)
next
  case (Cons r rs)
  have "r \<in> dom (stubs s)" using Cons.prems(2) by simp
  from guarded_grows [OF Cons.prems(1) this] obtain s1 where
    s1: "guarded env PeriodicallyCheck True r s = Some s1" "grows s s1" by blast
  have "set rs \<subseteq> dom (stubs s1)" using Cons.prems(2) s1(2) by (auto simp: grows_def)
  from Cons.IH [OF grows_inv [OF s1(2)] this] show ?case using s1 grows_trans by fastforce
qed

lemma dispatchCheck_grows:
  assumes "reactor_inv s"
  shows "\<exists>s'. dispatchCheck env s = Some s' \<and> grows s s'"
  unfolding dispatchCheck_def
  by (rule check_loop_grows [OF assms]) (use wfD(4) [OF assms [unfolded inv_parts]] in auto)

text \<open>At the end of the round the deleted stubs, and only those, are freed.\<close>

lemma free_stubs_ok:
  "distinct rs \<Longrightarrow> set rs \<subseteq> dom (stubs s) \<Longrightarrow> free_stubs rs s = Some (s\<lparr>stubs := stubs s |` (- set rs)\<rparr>)"
proof (induction rs arbitrary: s)
  case Nil
  then show ?case by (simp add: restrict_map_def)
next
  case (Cons r rs)
  define s1 where "s1 = s\<lparr>stubs := (stubs s)(r := None)\<rparr>"
  have "set rs \<subseteq> dom (stubs s1)" using Cons.prems by (auto simp: s1_def)
  then have "free_stubs rs s1 = Some (s1\<lparr>stubs := stubs s1 |` (- set rs)\<rparr>)" using Cons.prems(1) by (intro Cons.IH) simp_all
  moreover have "stubs s1 |` (- set rs) = stubs s |` (- set (r # rs))"
    by (rule ext) (simp add: s1_def restrict_map_def)
  moreover have "s1\<lparr>stubs := h\<rparr> = s\<lparr>stubs := h\<rparr>" for h by (simp add: s1_def)
  moreover have "free_stubs (r # rs) s = free_stubs rs s1" using Cons.prems(2) by (auto simp: s1_def)
  ultimately show ?case by (simp only:)
qed

lemma cleanDeletedEvents_inv:
  assumes inv: "reactor_inv s"
  shows "\<exists>s'. cleanDeletedEvents s = Some s' \<and> reactor_inv s' \<and> mFd2Events s' = mFd2Events s \<and> mDelEventStubs s' = []
    \<and> dom (stubs s') = snd ` set (mFd2Events s) \<and> interest s' = interest s \<and> mWorking s' = mWorking s"
proof -
  note wf = inv [unfolded inv_parts] and I = wfD [OF inv [unfolded inv_parts]]
  define s' where "s' = s\<lparr>stubs := stubs s |` (- set (mDelEventStubs s)), mDelEventStubs := []\<rparr>"
  have "distinct (mDelEventStubs s)" "set (mDelEventStubs s) \<subseteq> dom (stubs s)" using I(3,4) by auto
  from free_stubs_ok [OF this] have c: "cleanDeletedEvents s = Some s'" by (simp add: cleanDeletedEvents_def s'_def)
  have dis: "snd ` set (mFd2Events s) \<inter> set (mDelEventStubs s) = {}" using I(3) by auto
  have dom: "dom (stubs s') = snd ` set (mFd2Events s)" using I(4) dis by (auto simp: s'_def)
  have "reactor_wf (mFd2Events s) [] (stubs s') (next_stub s) (interest s) (rlog s)"
  proof (rule wfI)
    show "distinct (map snd (mFd2Events s) @ [])" using I(3) by simp
    show "dom (stubs s') = snd ` set (mFd2Events s) \<union> set []" using dom by simp
    show "r < next_stub s" if "stubs s' r = Some st" for r st
      using that I(5) by (auto simp: s'_def restrict_map_def split: if_splits)
    show "\<exists>st. stubs s' r = Some st \<and> st_fd st = d \<and> st_event st \<noteq> None \<and> st_listener st \<noteq> None"
      if q: "(d, r) \<in> set (mFd2Events s)" for d r
    proof -
      have "r \<notin> set (mDelEventStubs s)" using q dis by force
      then show ?thesis using I(6) [OF q] by (auto simp: s'_def)
    qed
    show "sorted (map fst (mFd2Events s))" "distinct (map fst (mFd2Events s))" "quiet (rlog s)"
      by (rule I(1) I(2) I(10))+
    show "(d, r) \<in> set (mFd2Events s)" if "interest s d = Some (r, e)" for d r e using that by (rule I(8))
    show "r < next_stub s \<and> r \<notin> snd ` set (mFd2Events s)" if "Deleted r \<in> set (rlog s)" for r using that by (rule I(9))
  qed simp
  then have "reactor_inv s'" by (simp add: inv_parts s'_def)
  then show ?thesis using c dom by (auto simp: s'_def)
qed

section \<open>Runs\<close>

text \<open>
  The kernel reports descriptors it has registered at the time of \<^verbatim>\<open>epoll_wait\<close>. Between the rounds the owner of the reactor may
  register, remove and close descriptors, and another thread may write to the pipe.
\<close>

definition ready_ok :: "reactor \<Rightarrow> (nat \<times> u32) list \<Rightarrow> bool" where
  "ready_ok s es \<longleftrightarrow> (\<forall>(r, ev) \<in> set es. \<exists>d e. interest s d = Some (r, e))"

inductive reactor_step :: "reactor \<Rightarrow> reactor \<Rightarrow> bool" where
  dispatch: "ready_ok s es \<Longrightarrow> reactor_round env es now lastCheck s = Some (t, s') \<Longrightarrow> reactor_step s s'"
| owner: "run_commands cs s = Some s' \<Longrightarrow> reactor_step s s'"
| stopping: "reactor_stop ok s = (w, s') \<Longrightarrow> reactor_step s s'"

lemma ready_live:
  assumes "reactor_inv s" "ready_ok s es"
  shows "fst ` set es \<subseteq> dom (stubs s)"
proof
  fix r assume "r \<in> fst ` set es"
  then obtain ev d e where "(r, ev) \<in> set es" "interest s d = Some (r, e)" using assms(2) by (auto simp: ready_ok_def)
  then have "(d, r) \<in> set (mFd2Events s)" using wfD(8) [OF assms(1) [unfolded inv_parts]] by blast
  then show "r \<in> dom (stubs s)" using wfD(4) [OF assms(1) [unfolded inv_parts]] by force
qed

lemma reactor_round_inv:
  assumes inv: "reactor_inv s" and es: "ready_ok s es"
  shows "\<exists>t s'. reactor_round env es now lastCheck s = Some (t, s') \<and> reactor_inv s' \<and> mDelEventStubs s' = []"
proof -
  obtain s1 where s1: "dispatchEvent env es s = Some s1" "grows s s1"
    using dispatchEvent_grows [OF inv ready_live [OF inv es]] by blast
  obtain s2 where s2: "(if now > lastCheck + CHECK_PERIOD then dispatchCheck env s1 else Some s1) = Some s2" "reactor_inv s2"
    using dispatchCheck_grows [OF grows_inv [OF s1(2)], of env] grows_inv [OF s1(2)]
    by (cases "now > lastCheck + CHECK_PERIOD") (auto simp: grows_def)
  obtain s3 where "cleanDeletedEvents s2 = Some s3" "reactor_inv s3" "mDelEventStubs s3 = []"
    using cleanDeletedEvents_inv [OF s2(2)] by blast
  then show ?thesis using s1(1) s2(1) by (simp add: reactor_round_def Let_def)
qed

lemma reactor_stop_inv: "reactor_inv s \<Longrightarrow> reactor_stop ok s = (w, s') \<Longrightarrow> reactor_inv s'"
  by (auto simp: reactor_stop_def writeCmd_def inv_parts split: if_splits)

lemma reactor_step_inv: "reactor_step s s' \<Longrightarrow> reactor_inv s \<Longrightarrow> reactor_inv s'"
proof (induction rule: reactor_step.induct)
  case (dispatch s es env now lastCheck t s')
  then show ?case using reactor_round_inv [OF dispatch(3,1), of env now lastCheck] by auto
next
  case (owner cs s s')
  then show ?case using run_commands_grows [OF owner(2), of cs] by (auto simp: grows_def)
next
  case (stopping ok s w s')
  then show ?case using reactor_stop_inv by blast
qed

lemma reactor_run_inv: "reactor_step\<^sup>*\<^sup>* s s' \<Longrightarrow> reactor_inv s \<Longrightarrow> reactor_inv s'"
  by (induction rule: rtranclp_induct) (auto intro: reactor_step_inv)

lemma reactor_new_inv: "\<exists>s. reactor_new epfd p ok = Some s \<and> reactor_inv s"
  using addEvent_grows [OF reactor_raw_inv [of epfd], of ok p EV_READ CmdPipe 0] reactor_raw_inv
  by (auto simp: reactor_new_def Let_def grows_def)

lemma reactor_reachable_inv: "reactor_new epfd p ok = Some s0 \<Longrightarrow> reactor_step\<^sup>*\<^sup>* s0 s \<Longrightarrow> reactor_inv s"
  using reactor_new_inv [of epfd p ok] reactor_run_inv by auto

lemma delete_loop_defined:
  "distinct (map fst es) \<Longrightarrow> distinct (map snd es)
   \<Longrightarrow> (\<And>r. r \<in> snd ` set es \<Longrightarrow> \<exists>st. stubs s r = Some st \<and> st_event st \<noteq> None)
   \<Longrightarrow> \<exists>s'. delete_loop oks es s = Some s'
     \<and> dom (stubs s') = dom (stubs s) - {r. \<exists>d. (d, r) \<in> set es \<and> oks d \<and> interest s d \<noteq> None}"
proof (induction es arbitrary: s)
  case (Cons e es)
  obtain d r where e: "e = (d, r)" by (cases e)
  obtain st pe where st: "stubs s r = Some st" "st_event st = Some pe" using Cons.prems(3) [of r] e by auto
  have nd: "r' \<noteq> r \<and> d' \<noteq> d" if "(d', r') \<in> set es" for d' r' using Cons.prems(1,2) that e by force
  show ?case
  proof (cases "oks d \<and> interest s d \<noteq> None")
    case True
    define s1 where "s1 = s\<lparr>interest := (interest s)(d := None), stubs := (stubs s)(r := None),
        mFd2Events := filter (\<lambda>e. fst e \<noteq> d) (mFd2Events s)\<rparr>"
    have "\<exists>st. stubs s1 r' = Some st \<and> st_event st \<noteq> None" if q: "r' \<in> snd ` set es" for r'
      using Cons.prems(3) [of r'] q nd by (fastforce simp: s1_def)
    then obtain s' where s': "delete_loop oks es s1 = Some s'"
        "dom (stubs s') = dom (stubs s1) - {r. \<exists>d. (d, r) \<in> set es \<and> oks d \<and> interest s1 d \<noteq> None}"
      using Cons.IH [of s1] Cons.prems(1,2) by auto
    have "delete_loop oks (e # es) s = delete_loop oks es s1"
      using True st by (auto simp: e epoll_del_def s1_def Let_def)
    moreover have "{r'. \<exists>d'. (d', r') \<in> set (e # es) \<and> oks d' \<and> interest s d' \<noteq> None}
        = insert r {r. \<exists>d. (d, r) \<in> set es \<and> oks d \<and> interest s1 d \<noteq> None}"
      using True nd by (auto simp: e s1_def)
    moreover have "dom (stubs s1) = dom (stubs s) - {r}" by (auto simp: s1_def)
    ultimately show ?thesis using s' by auto
  next
    case False
    then have "delete_loop oks (e # es) s = delete_loop oks es s" using st by (auto simp: e epoll_del_def Let_def)
    moreover have d: "distinct (map fst es)" "distinct (map snd es)" using Cons.prems(1,2) by simp_all
    have live: "\<exists>st. stubs s r' = Some st \<and> st_event st \<noteq> None" if q: "r' \<in> snd ` set es" for r'
      by (rule Cons.prems(3)) (use q in auto)
    note rest = Cons.IH [OF d live]
    moreover obtain s' where "delete_loop oks es s = Some s'"
        "dom (stubs s') = dom (stubs s) - {r. \<exists>d. (d, r) \<in> set es \<and> oks d \<and> interest s d \<noteq> None}"
      using rest by blast
    moreover have "{r'. \<exists>d'. (d', r') \<in> set (e # es) \<and> oks d' \<and> interest s d' \<noteq> None}
        = {r. \<exists>d. (d, r) \<in> set es \<and> oks d \<and> interest s d \<noteq> None}"
      using False by (auto simp: e)
    ultimately show ?thesis by simp
  qed
qed simp

lemma reactor_delete_keeps:
  assumes inv: "reactor_inv s"
  shows "\<exists>s'. reactor_delete oks s = Some s' \<and> set (mDelEventStubs s) \<subseteq> dom (stubs s')"
proof (cases "mEpollFD s \<ge> 0")
  case True
  note I = wfD [OF inv [unfolded inv_parts]]
  have "distinct (map snd (mFd2Events s))" using I(3) by simp
  then obtain s' where s': "delete_loop oks (mFd2Events s) s = Some s'"
      "dom (stubs s') = dom (stubs s) - {r. \<exists>d. (d, r) \<in> set (mFd2Events s) \<and> oks d \<and> interest s d \<noteq> None}"
    using delete_loop_defined [OF I(2), of s oks] I(6) by fastforce
  have "set (mDelEventStubs s) \<inter> snd ` set (mFd2Events s) = {}" using I(3) by auto
  then have "set (mDelEventStubs s) \<subseteq> dom (stubs s')" unfolding s'(2) I(4) by force
  then show ?thesis using True s'(1) by (simp add: reactor_delete_def)
next
  case False
  then show ?thesis using wfD(4) [OF inv [unfolded inv_parts]] by (simp add: reactor_delete_def)
qed

lemma containEvent_defined:
  assumes inv: "reactor_inv s"
  shows "containEvent d ev s \<noteq> None"
proof (cases "map_of (mFd2Events s) d")
  case None
  then show ?thesis by (simp add: containEvent_def)
next
  case (Some r)
  obtain st pe where "stubs s r = Some st" "st_event st = Some pe"
    using wfD(6) [OF inv [unfolded inv_parts] map_of_SomeD [OF Some]] by blast
  then show ?thesis using Some by (simp add: containEvent_def)
qed

section \<open>Properties\<close>

definition sample_reactor :: reactor where
  "sample_reactor = the (reactor_new 3 4 True)"

lemma sample_reactor_new: "reactor_new 3 4 True = Some sample_reactor"
  using reactor_new_inv [of 3 4 True] by (auto simp: sample_reactor_def)

text \<open>
  Claim C29. No freed stub is used. In every run of the event loop, whatever the handlers register and remove while they are
  called and however the kernel answers, the next round, the registration calls and the destructor have a
  defined outcome, and what the kernel can report next is registered and allocated.
\<close>

theorem reactor_safe:
  assumes "reactor_new epfd p ok0 = Some s0" "reactor_step\<^sup>*\<^sup>* s0 s" "ready_ok s es"
  shows "reactor_round env es now lastCheck s \<noteq> None \<and> addEvent ok d ev l tag s \<noteq> None \<and> delEvent ok d ev s \<noteq> None
    \<and> containEvent d ev s \<noteq> None \<and> reactor_delete oks s \<noteq> None
    \<and> (\<forall>d r e. interest s d = Some (r, e) \<longrightarrow>
         map_of (mFd2Events s) d = Some r \<and> (\<exists>st. stubs s r = Some st \<and> st_fd st = d \<and> st_listener st \<noteq> None))"
proof -
  have inv: "reactor_inv s" using reactor_reachable_inv [OF assms(1,2)] .
  note I = wfD [OF inv [unfolded inv_parts]]
  have "map_of (mFd2Events s) d = Some r \<and> (\<exists>st. stubs s r = Some st \<and> st_fd st = d \<and> st_listener st \<noteq> None)"
    if "interest s d = Some (r, e)" for d r e
    using I(8) [OF that] I(6) table_find [OF I(2), of d r] by blast
  then show ?thesis
    using reactor_round_inv [OF inv assms(3), of env now lastCheck] addEvent_grows [OF inv, of ok d ev l tag]
      delEvent_grows [OF inv, of ok d ev] containEvent_defined [OF inv, of d ev] reactor_delete_keeps [OF inv, of oks]
    by auto
qed

theorem reactor_safe_witness:
  "reactor_round (\<lambda>n. [Del True 4 EV_ALL]) [] 5 0 sample_reactor \<noteq> None
    \<and> delEvent True 4 EV_ALL sample_reactor \<noteq> None \<and> reactor_delete (\<lambda>d. True) sample_reactor \<noteq> None"
proof -
  have "ready_ok sample_reactor []" by (simp add: ready_ok_def)
  from reactor_safe [OF sample_reactor_new rtranclp.rtrancl_refl this] show ?thesis by blast
qed

text \<open>
  Claim C31. The stubs are well-formed. In every run each registered descriptor has a stub of its own, of its descriptor, with an
  \<^verbatim>\<open>epoll_event\<close> and a listener; a removed stub has no listener and is not in the table; and the heap holds no other stub.
\<close>

theorem reactor_well_formed:
  assumes "reactor_new epfd p ok0 = Some s0" "reactor_step\<^sup>*\<^sup>* s0 s"
  shows "sorted (map fst (mFd2Events s)) \<and> distinct (map fst (mFd2Events s))
    \<and> distinct (map snd (mFd2Events s) @ mDelEventStubs s)
    \<and> dom (stubs s) = snd ` set (mFd2Events s) \<union> set (mDelEventStubs s)
    \<and> (\<forall>(d, r) \<in> set (mFd2Events s). \<exists>st. stubs s r = Some st \<and> st_fd st = d \<and> st_event st \<noteq> None \<and> st_listener st \<noteq> None)
    \<and> (\<forall>r \<in> set (mDelEventStubs s). \<exists>st. stubs s r = Some st \<and> st_listener st = None)"
proof -
  note I = wfD [OF reactor_reachable_inv [OF assms, unfolded inv_parts]]
  show ?thesis using I(1-4) I(6,7) by auto
qed

lemma reactor_well_formed_witness:
  "distinct (map snd (mFd2Events sample_reactor) @ mDelEventStubs sample_reactor)
    \<and> dom (stubs sample_reactor) = snd ` set (mFd2Events sample_reactor) \<union> set (mDelEventStubs sample_reactor)"
  using reactor_well_formed [OF sample_reactor_new rtranclp.rtrancl_refl] by blast

text \<open>
  Claim C30. A removed descriptor is silent. In every run, once a descriptor has left the table no handler is called for its stub
  again, not even for events of the same round that the kernel had already reported.
\<close>

theorem reactor_silent:
  assumes "reactor_new epfd p ok0 = Some s0" "reactor_step\<^sup>*\<^sup>* s0 s" "rlog s = xs @ Deleted r # ys"
  shows "Called r l cb \<notin> set ys"
proof -
  have "quiet (rlog s)" using wfD(10) [OF reactor_reachable_inv [OF assms(1,2), unfolded inv_parts]] .
  then show ?thesis using assms(3) unfolding quiet_def by blast
qed

text \<open>The reactor after its owner registered and removed descriptor 7.\<close>

definition sample_removed :: reactor where
  "sample_removed = the (run_commands [Add True 7 EV_READ 0 0, Del True 7 EV_ALL] sample_reactor)"

lemma sample_removed_run: "reactor_step\<^sup>*\<^sup>* sample_reactor sample_removed"
proof -
  have "reactor_inv sample_reactor" using reactor_new_inv [of 3 4 True] sample_reactor_new by auto
  from run_commands_grows [OF this] obtain s where
    s: "run_commands [Add True 7 EV_READ 0 0, Del True 7 EV_ALL] sample_reactor = Some s" by blast
  from reactor_step.owner [OF s] have "reactor_step sample_reactor sample_removed"
    unfolding sample_removed_def s option.sel .
  then show ?thesis by (rule r_into_rtranclp)
qed

lemma sample_removed_log: "rlog sample_removed = [] @ Deleted 1 # []" "mDelEventStubs sample_removed = [1]"
  by (simp_all add: sample_removed_def sample_reactor_def reactor_new_def addEvent_def delEvent_def epoll_add_def epoll_del_def
      reactor_raw_def EV_READ_def EV_WRITE_def EV_ERROR_def EV_ALL_def Let_def)

theorem reactor_silent_witness: "rlog sample_removed = [Deleted 1] \<and> Called 1 (Handler 0) Readable \<notin> set []"
  using reactor_silent [OF sample_reactor_new sample_removed_run sample_removed_log(1), of "Handler 0" Readable]
    sample_removed_log(1) by simp

text \<open>
  Stubs removed after the last round leak. In every run the destructor frees none of the stubs that wait to be freed,
  as those of the sessions the router releases just before it deletes the reactor.
\<close>

theorem reactor_delete_leaks:
  assumes "reactor_new epfd p ok0 = Some s0" "reactor_step\<^sup>*\<^sup>* s0 s"
  shows "\<exists>s'. reactor_delete oks s = Some s' \<and> set (mDelEventStubs s) \<subseteq> dom (stubs s')"
  by (rule reactor_delete_keeps [OF reactor_reachable_inv [OF assms]])

theorem reactor_delete_leaks_witness:
  "\<exists>s'. reactor_delete (\<lambda>d. True) sample_removed = Some s' \<and> stubs s' 1 \<noteq> None"
  using reactor_delete_leaks [OF sample_reactor_new sample_removed_run, of "\<lambda>d. True"]
  unfolding sample_removed_log(2) by auto

end
