(* ===== verification/ReactorSpec.thy ===== *)
theory ReactorSpec
  imports ReactorRun
begin

text \<open>
  What the reactor promises its clients: a table from descriptors to the events they want and the listener that gets
  them, which the kernel follows as long as it takes every \<^verbatim>\<open>epoll_ctl\<close>; and the end of the loop after \<^verbatim>\<open>stop\<close>.
\<close>

section \<open>The table of the clients\<close>

type_synonym table = "fd \<Rightarrow> (u32 \<times> listener option) option"

definition table_of :: "reactor \<Rightarrow> table" where
  "table_of s d =
     (case map_of (mFd2Events s) d of
        None \<Rightarrow> None
      | Some r \<Rightarrow> map_option (\<lambda>st. (st_events st, st_listener st)) (stubs s r))"

definition want :: "fd \<Rightarrow> u32 \<Rightarrow> listener \<Rightarrow> table \<Rightarrow> table" where
  "want d ev l T = T(d \<mapsto> (case T d of None \<Rightarrow> ev | Some (e, _) \<Rightarrow> e OR ev, Some l))"

definition unwant :: "fd \<Rightarrow> u32 \<Rightarrow> table \<Rightarrow> table" where
  "unwant d ev T =
     (case T d of
        None \<Rightarrow> T
      | Some (e, l) \<Rightarrow> if e AND NOT ev = 0 then T(d := None) else T(d \<mapsto> (e AND NOT ev, l)))"

fun want_command :: "command \<Rightarrow> table \<Rightarrow> table" where
  "want_command (Add ok d ev h tag) T = want d ev (Handler h) T"
| "want_command (Del ok d ev) T = unwant d ev T"
| "want_command (Close d) T = T"

text \<open>Commands on valid descriptors that the kernel takes.\<close>

fun taken :: "command \<Rightarrow> bool" where
  "taken (Add ok d ev h tag) = (ok \<and> 0 \<le> d)"
| "taken (Del ok d ev) = ok"
| "taken (Close d) = False"

definition synced :: "reactor \<Rightarrow> bool" where
  "synced s \<longleftrightarrow> 0 \<le> mEpollFD s
     \<and> (\<forall>d. interest s d = (case map_of (mFd2Events s) d of
           None \<Rightarrow> None | Some r \<Rightarrow> map_option (\<lambda>st. (r, convertEvent (st_events st))) (stubs s r)))
     \<and> (\<forall>r st. stubs s r = Some st \<longrightarrow> st_listener st \<noteq> None \<longrightarrow> st_event st = Some (convertEvent (st_events st)))"

lemma syncedD:
  assumes "synced s"
  shows "0 \<le> mEpollFD s"
    "interest s d = (case map_of (mFd2Events s) d of
        None \<Rightarrow> None | Some r \<Rightarrow> map_option (\<lambda>st. (r, convertEvent (st_events st))) (stubs s r))"
    "stubs s r = Some st \<Longrightarrow> st_listener st \<noteq> None \<Longrightarrow> st_event st = Some (convertEvent (st_events st))"
  using assms unfolding synced_def by blast+

lemma table_unique: "reactor_inv s \<Longrightarrow> map_of (mFd2Events s) d = Some r \<Longrightarrow> map_of (mFd2Events s) d' = Some r \<Longrightarrow> d' = d"
  using wfD(6) [of "mFd2Events s"] by (metis inv_parts map_of_SomeD option.inject)

lemma table_insort:
  "d \<notin> fst ` set F \<Longrightarrow> distinct (map fst F) \<Longrightarrow> map_of (insort_key fst (d, n) F) = (map_of F)(d \<mapsto> n)"
proof (rule ext)
  fix x assume d: "d \<notin> fst ` set F" "distinct (map fst F)"
  have "map_of (insort_key fst (d, n) F) x = Some r \<longleftrightarrow> ((map_of F)(d \<mapsto> n)) x = Some r" for r
    using d table_find [of "insort_key fst (d, n) F" x r] table_find [of F x r]
    by (auto simp: set_insort_key) (force)+
  then show "map_of (insort_key fst (d, n) F) x = ((map_of F)(d \<mapsto> n)) x"
    by (metis option.exhaust)
qed

lemma table_filter: "map_of (filter (\<lambda>e. fst e \<noteq> d) F) = (map_of F)(d := None)"
proof (induction F)
  case (Cons e F)
  then show ?case by (cases e) (auto simp: fun_eq_iff)
qed simp

text \<open>
  A step that changes the entry of one descriptor \<open>d\<close> and its stub \<open>r\<close>, which no other descriptor has, and tells the kernel:
\<close>

definition entry_changed :: "fd \<Rightarrow> nat \<Rightarrow> stub \<Rightarrow> nat option \<Rightarrow> reactor \<Rightarrow> reactor \<Rightarrow> bool" where
  "entry_changed d r st new s s' \<longleftrightarrow>
     (new = None \<or> new = Some r) \<and> (\<forall>d'. d' \<noteq> d \<longrightarrow> map_of (mFd2Events s) d' \<noteq> Some r)
     \<and> mEpollFD s' = mEpollFD s \<and> map_of (mFd2Events s') = (map_of (mFd2Events s))(d := new) \<and> stubs s' = (stubs s)(r \<mapsto> st)
     \<and> interest s' = (interest s)(d := map_option (\<lambda>q. (q, convertEvent (st_events st))) new)
     \<and> (st_listener st = None \<or> st_event st = Some (convertEvent (st_events st)))"

lemma entry_changed_synced:
  assumes "entry_changed d r st new s s'" "synced s"
  shows "synced s'"
  unfolding synced_def
proof (intro conjI allI impI)
  show "0 \<le> mEpollFD s'" using assms by (simp add: entry_changed_def synced_def)
  fix d'
  show "interest s' d' = (case map_of (mFd2Events s') d' of None \<Rightarrow> None
      | Some r \<Rightarrow> map_option (\<lambda>st. (r, convertEvent (st_events st))) (stubs s' r))"
    using assms(1) syncedD(2) [OF assms(2), of d'] unfolding entry_changed_def
    by (cases "d' = d"; cases "map_of (mFd2Events s) d'") auto
next
  fix r' st' assume "stubs s' r' = Some st'" "st_listener st' \<noteq> None"
  then show "st_event st' = Some (convertEvent (st_events st'))"
    using assms(1) syncedD(3) [OF assms(2), of r' st'] by (auto simp: entry_changed_def split: if_splits)
qed

lemma entry_changed_table:
  assumes "entry_changed d r st new s s'"
  shows "table_of s' = (table_of s)(d := map_option (\<lambda>q. (st_events st, st_listener st)) new)"
proof (rule ext)
  fix d'
  show "table_of s' d' = ((table_of s)(d := map_option (\<lambda>q. (st_events st, st_listener st)) new)) d'"
    using assms unfolding entry_changed_def table_of_def
    by (cases "d' = d"; cases "map_of (mFd2Events s) d'") auto
qed

lemma registered_stub:
  assumes "reactor_inv s" "synced s" "map_of (mFd2Events s) d = Some r"
  obtains st pe where "stubs s r = Some st" "st_event st = Some pe" "st_listener st \<noteq> None" "interest s d \<noteq> None"
    "table_of s d = Some (st_events st, st_listener st)" "\<forall>d'. d' \<noteq> d \<longrightarrow> map_of (mFd2Events s) d' \<noteq> Some r"
proof -
  note I = wfD [OF assms(1) [unfolded inv_parts]]
  obtain st where st: "stubs s r = Some st" "st_event st \<noteq> None" "st_listener st \<noteq> None"
    using I(6) [OF map_of_SomeD [OF assms(3)]] by blast
  obtain pe where pe: "st_event st = Some pe" using st(2) by blast
  have "interest s d \<noteq> None" using syncedD(2) [OF assms(2), of d] assms(3) st(1) by simp
  moreover have "table_of s d = Some (st_events st, st_listener st)" using assms(3) st(1) by (simp add: table_of_def)
  moreover have "\<forall>d'. d' \<noteq> d \<longrightarrow> map_of (mFd2Events s) d' \<noteq> Some r" using table_unique [OF assms(1,3)] by blast
  ultimately show ?thesis using that [OF st(1) pe st(3)] by blast
qed

text \<open>Both registration calls do to the table what the client asked for.\<close>

lemma addEvent_entry_old:
  fixes ev :: u32
  assumes "reactor_inv s" "synced s" "0 \<le> d" "map_of (mFd2Events s) d = Some r" "stubs s r = Some st"
  defines "ne \<equiv> st_events st OR ev"
  shows "\<exists>s' st1. addEvent True d ev l tag s = Some (0, s') \<and> entry_changed d r st1 (Some r) s s'
    \<and> st_events st1 = ne \<and> st_listener st1 = Some l"
proof -
  obtain pe where r: "st_event st = Some pe" "interest s d \<noteq> None" "\<forall>d'. d' \<noteq> d \<longrightarrow> map_of (mFd2Events s) d' \<noteq> Some r"
    using registered_stub [OF assms(1,2,4)] assms(5) by (metis option.inject)
  define st1 where "st1 = st\<lparr>st_events := ne, st_event := Some (convertEvent ne), st_listener := Some l, st_tag := tag\<rparr>"
  define s' where "s' = set_stub r st1 s\<lparr>interest := (interest s)(d \<mapsto> (r, convertEvent ne))\<rparr>"
  have "addEvent True d ev l tag s = Some (0, s')"
    using assms(3-5) syncedD(1) [OF assms(2)] r by (auto simp: addEvent_def epoll_mod_def s'_def st1_def ne_def Let_def)
  moreover have "entry_changed d r st1 (Some r) s s'"
    using assms(4) r(3) by (auto simp: entry_changed_def s'_def st1_def fun_upd_idem)
  ultimately show ?thesis by (auto simp: st1_def)
qed

lemma addEvent_entry_new:
  assumes inv: "reactor_inv s" and sy: "synced s" and d: "0 \<le> d" and none: "map_of (mFd2Events s) d = None"
  shows "\<exists>s' r st. addEvent True d ev l tag s = Some (0, s') \<and> entry_changed d r st (Some r) s s'
    \<and> st_events st = ev \<and> st_listener st = Some l"
proof -
  note I = wfD [OF inv [unfolded inv_parts]]
  define n where "n = next_stub s"
  define st where "st = \<lparr>st_events = ev, st_event = Some (convertEvent ev), st_fd = d, st_listener = Some l, st_tag = tag\<rparr>"
  define s' where "s' = set_stub n st s\<lparr>next_stub := n + 1, interest := (interest s)(d \<mapsto> (n, convertEvent ev)),
      mFd2Events := insort_key fst (d, n) (mFd2Events s)\<rparr>"
  have dn: "d \<notin> fst ` set (mFd2Events s)" using none by (simp add: map_of_eq_None_iff)
  have n: "map_of (mFd2Events s) d' \<noteq> Some n" for d'
    using I(5) I(6) map_of_SomeD [of "mFd2Events s" d' n] by (fastforce simp: n_def)
  have "interest s d = None" using sy none by (simp add: synced_def)
  then have "addEvent True d ev l tag s = Some (0, s')"
    using d syncedD(1) [OF sy] none by (simp add: addEvent_def epoll_add_def s'_def st_def n_def Let_def)
  moreover have "entry_changed d n st (Some n) s s'"
    using n table_insort [OF dn I(2)] by (auto simp: entry_changed_def s'_def st_def)
  moreover have "st_events st = ev \<and> st_listener st = Some l" by (simp add: st_def)
  ultimately show ?thesis by blast
qed

lemma addEvent_table:
  assumes "reactor_inv s" "synced s" "0 \<le> d"
  shows "\<exists>s'. addEvent True d ev l tag s = Some (0, s') \<and> synced s' \<and> table_of s' = want d ev l (table_of s)"
proof (cases "map_of (mFd2Events s) d")
  case None
  then have "table_of s d = None" by (simp add: table_of_def)
  then show ?thesis
    using addEvent_entry_new [OF assms None, of ev l tag] entry_changed_synced [OF _ assms(2)] entry_changed_table
    by (fastforce simp: want_def)
next
  case (Some r)
  then obtain st where "stubs s r = Some st" "table_of s d = Some (st_events st, st_listener st)"
    using registered_stub [OF assms(1,2)] by blast
  then show ?thesis
    using addEvent_entry_old [OF assms Some, where ev = ev and l = l and tag = tag] entry_changed_synced [OF _ assms(2)] entry_changed_table
    by (fastforce simp: want_def)
qed

lemma delEvent_entry:
  fixes ev :: u32
  assumes "reactor_inv s" "synced s" "map_of (mFd2Events s) d = Some r" "stubs s r = Some st"
  defines "ne \<equiv> st_events st AND NOT ev"
  shows "\<exists>s' st1. delEvent True d ev s = Some (0, s') \<and> entry_changed d r st1 (if ne = 0 then None else Some r) s s'
    \<and> (ne \<noteq> 0 \<longrightarrow> st_events st1 = ne \<and> st_listener st1 = st_listener st)"
proof -
  obtain pe li where r: "st_event st = Some pe" "st_listener st = Some li" "interest s d \<noteq> None"
      "\<forall>d'. d' \<noteq> d \<longrightarrow> map_of (mFd2Events s) d' \<noteq> Some r"
    using registered_stub [OF assms(1-3)] assms(4) by (metis option.inject not_None_eq)
  define st1 where "st1 = st\<lparr>st_events := ne, st_event := Some (convertEvent ne)\<rparr>"
  show ?thesis
  proof (cases "ne = 0")
    case True
    define st2 where "st2 = st1\<lparr>st_event := None, st_listener := None\<rparr>"
    define s' where "s' = set_stub r st2 s\<lparr>interest := (interest s)(d := None), mDelEventStubs := mDelEventStubs s @ [r],
        mFd2Events := filter (\<lambda>e. fst e \<noteq> d) (mFd2Events s), rlog := rlog s @ [Deleted r]\<rparr>"
    have "delEvent True d ev s = Some (0, s')"
      using syncedD(1) [OF assms(2)] assms(3,4) r True
      by (auto simp: delEvent_def epoll_del_def s'_def st2_def st1_def ne_def [symmetric] Let_def)
    moreover have "entry_changed d r st2 None s s'"
      using r(4) by (auto simp: entry_changed_def s'_def st2_def table_filter)
    ultimately show ?thesis using True by auto
  next
    case False
    define s' where "s' = set_stub r st1 s\<lparr>interest := (interest s)(d \<mapsto> (r, convertEvent ne))\<rparr>"
    have "delEvent True d ev s = Some (0, s')"
      using syncedD(1) [OF assms(2)] assms(3,4) r False
      by (auto simp: delEvent_def epoll_mod_def s'_def st1_def ne_def [symmetric] Let_def)
    moreover have "entry_changed d r st1 (Some r) s s'"
      using assms(3) r(4) by (auto simp: entry_changed_def s'_def st1_def fun_upd_idem)
    ultimately show ?thesis using False by (auto simp: st1_def)
  qed
qed

lemma delEvent_table:
  assumes "reactor_inv s" "synced s"
  shows "\<exists>e s'. delEvent True d ev s = Some (e, s') \<and> (e = 0 \<longleftrightarrow> table_of s d \<noteq> None) \<and> synced s'
    \<and> table_of s' = unwant d ev (table_of s)"
proof (cases "map_of (mFd2Events s) d")
  case None
  then show ?thesis using assms(2) by (simp add: delEvent_def synced_def table_of_def unwant_def)
next
  case (Some r)
  then obtain st where st: "stubs s r = Some st" "table_of s d = Some (st_events st, st_listener st)"
    using registered_stub [OF assms] by blast
  obtain s' st1 where d: "delEvent True d ev s = Some (0, s')"
      "entry_changed d r st1 (if st_events st AND NOT ev = 0 then None else Some r) s s'"
      "st_events st AND NOT ev \<noteq> 0 \<Longrightarrow> st_events st1 = st_events st AND NOT ev \<and> st_listener st1 = st_listener st"
    using delEvent_entry [OF assms Some st(1), where ev = ev] by auto
  then show ?thesis
    using entry_changed_synced [OF d(2) assms(2)] entry_changed_table [OF d(2)] st(2) by (auto simp: unwant_def)
qed

lemma run_commands_table:
  "reactor_inv s \<Longrightarrow> synced s \<Longrightarrow> list_all taken cs \<Longrightarrow>
   \<exists>s'. run_commands cs s = Some s' \<and> reactor_inv s' \<and> synced s' \<and> table_of s' = fold want_command cs (table_of s)"
proof (induction cs arbitrary: s)
  case (Cons c cs)
  show ?case
  proof (cases c)
    case (Add ok d ev h tag)
    then have d: "ok" "0 \<le> d" using Cons.prems(3) by simp_all
    obtain s1 where s1: "addEvent True d ev (Handler h) tag s = Some (0, s1)" "synced s1"
        "table_of s1 = want d ev (Handler h) (table_of s)"
      using addEvent_table [OF Cons.prems(1,2) d(2)] by blast
    have "reactor_inv s1" using addEvent_grows [OF Cons.prems(1), of True d ev "Handler h" tag] s1(1) by (auto simp: grows_def)
    from Cons.IH [OF this s1(2)] show ?thesis using Cons.prems(3) Add d(1) s1(1,3) by auto
  next
    case (Del ok d ev)
    obtain e s1 where s1: "delEvent True d ev s = Some (e, s1)" "synced s1" "table_of s1 = unwant d ev (table_of s)"
      using delEvent_table [OF Cons.prems(1,2)] by blast
    have "reactor_inv s1" using delEvent_grows [OF Cons.prems(1), of True d ev] s1(1) by (auto simp: grows_def)
    from Cons.IH [OF this s1(2)] show ?thesis using Cons.prems(3) Del s1(1,3) by auto
  qed (use Cons.prems(3) in simp)
qed simp

lemma synced_interest:
  assumes inv: "reactor_inv s" and sy: "synced s"
  shows "map_option snd (interest s d) = map_option (convertEvent \<circ> fst) (table_of s d)"
    "containEvent d ev s = Some (case table_of s d of None \<Rightarrow> 0
       | Some (e, l) \<Rightarrow> if convertEvent e AND convertEvent ev = convertEvent ev then 1 else 0)"
proof -
  have "map_option snd (interest s d) = map_option (convertEvent \<circ> fst) (table_of s d)
    \<and> containEvent d ev s = Some (case table_of s d of None \<Rightarrow> 0
       | Some (e, l) \<Rightarrow> if convertEvent e AND convertEvent ev = convertEvent ev then 1 else 0)"
  proof (cases "map_of (mFd2Events s) d")
    case None
    then show ?thesis using syncedD(2) [OF sy, of d] by (simp add: table_of_def containEvent_def)
  next
    case (Some r)
    obtain st l where st: "stubs s r = Some st" "st_listener st = Some l"
      using wfD(6) [OF inv [unfolded inv_parts] map_of_SomeD [OF Some]] by blast
    have "st_event st = Some (convertEvent (st_events st))" using syncedD(3) [OF sy st(1)] st(2) by simp
    then show ?thesis using syncedD(1) [OF sy] syncedD(2) [OF sy, of d] Some st by (simp add: table_of_def containEvent_def)
  qed
  then show "map_option snd (interest s d) = map_option (convertEvent \<circ> fst) (table_of s d)"
    "containEvent d ev s = Some (case table_of s d of None \<Rightarrow> 0
       | Some (e, l) \<Rightarrow> if convertEvent e AND convertEvent ev = convertEvent ev then 1 else 0)" by simp_all
qed

lemma reactor_new_table:
  assumes "0 \<le> epfd" "0 \<le> p"
  shows "\<exists>s. reactor_new epfd p True = Some s \<and> reactor_inv s \<and> synced s \<and> table_of s = [p \<mapsto> (EV_READ, Some CmdPipe)]"
proof -
  define s0 where "s0 = reactor_raw\<lparr>mEpollFD := epfd\<rparr>"
  have inv: "reactor_inv s0" unfolding s0_def by (rule reactor_raw_inv)
  have sy: "synced s0" using assms(1) by (simp add: synced_def s0_def reactor_raw_def)
  obtain s where s: "addEvent True p EV_READ CmdPipe 0 s0 = Some (0, s)" "synced s" "table_of s = want p EV_READ CmdPipe (table_of s0)"
    using addEvent_table [OF inv sy assms(2)] by blast
  moreover have "reactor_inv s" using addEvent_grows [OF inv, of True p EV_READ CmdPipe 0] s(1) by (auto simp: grows_def)
  moreover have "table_of s0 = Map.empty" by (rule ext) (simp add: table_of_def s0_def reactor_raw_def)
  ultimately show ?thesis using assms by (auto simp: reactor_new_def s0_def [symmetric] Let_def want_def)
qed

section \<open>Properties\<close>

text \<open>
  Claim C32. The reactor refines a table of wishes. As long as the kernel takes every \<^verbatim>\<open>epoll_ctl\<close>, any sequence of registrations
  and removals leaves exactly the table the clients asked for, what the kernel watches are its events, and
  \<^verbatim>\<open>containEvent\<close> answers what the table says.
\<close>

theorem reactor_refines:
  assumes "0 \<le> epfd" "0 \<le> p" "reactor_new epfd p True = Some s0" "list_all taken cs"
  shows "\<exists>s. run_commands cs s0 = Some s \<and> table_of s = fold want_command cs [p \<mapsto> (EV_READ, Some CmdPipe)]
    \<and> (\<forall>d. map_option snd (interest s d) = map_option (convertEvent \<circ> fst) (table_of s d))
    \<and> (\<forall>d ev. containEvent d ev s = Some (case table_of s d of None \<Rightarrow> 0
         | Some (e, l) \<Rightarrow> if convertEvent e AND convertEvent ev = convertEvent ev then 1 else 0))"
proof -
  obtain s1 where "reactor_new epfd p True = Some s1" "reactor_inv s1" "synced s1" "table_of s1 = [p \<mapsto> (EV_READ, Some CmdPipe)]"
    using reactor_new_table [OF assms(1,2)] by blast
  then have s0: "reactor_inv s0" "synced s0" "table_of s0 = [p \<mapsto> (EV_READ, Some CmdPipe)]" using assms(3) by simp_all
  obtain s where "run_commands cs s0 = Some s" "reactor_inv s" "synced s" "table_of s = fold want_command cs (table_of s0)"
    using run_commands_table [OF s0(1,2) assms(4)] by blast
  then show ?thesis using synced_interest s0(3) by (intro exI [of _ s]) simp
qed

theorem reactor_refines_witness:
  "\<exists>s. run_commands [Add True 7 EV_READ 0 0, Add True 7 EV_WRITE 0 0, Del True 7 EV_READ] sample_reactor = Some s
    \<and> table_of s 7 = Some (EV_WRITE, Some (Handler 0)) \<and> map_option snd (interest s 7) = Some EPOLLOUT"
proof -
  define cs where "cs = [Add True 7 EV_READ 0 0, Add True 7 EV_WRITE 0 0, Del True 7 EV_READ]"
  have t: "list_all taken cs" by (simp add: cs_def)
  have f: "fold want_command cs [4 \<mapsto> (EV_READ, Some CmdPipe)] 7 = Some (EV_WRITE, Some (Handler 0))"
    by (simp add: cs_def want_def unwant_def EV_READ_def EV_WRITE_def)
  have e: "convertEvent EV_WRITE = EPOLLOUT" by (simp add: convertEvent_def EV_READ_def EV_WRITE_def)
  have "0 \<le> (3 :: fd)" "0 \<le> (4 :: fd)" by simp_all
  from reactor_refines [OF this sample_reactor_new t] obtain s where
    s: "run_commands cs sample_reactor = Some s" "table_of s = fold want_command cs [4 \<mapsto> (EV_READ, Some CmdPipe)]"
      "map_option snd (interest s 7) = map_option (convertEvent \<circ> fst) (table_of s 7)" by blast
  have s7: "table_of s 7 = Some (EV_WRITE, Some (Handler 0))" unfolding s(2) by (rule f)
  have "map_option snd (interest s 7) = Some EPOLLOUT" unfolding s(3) s7 by (simp add: e)
  then show ?thesis using s(1) s7 unfolding cs_def by blast
qed

end
