(* ===== verification/ReactorStop.thy ===== *)
theory ReactorStop
  imports ReactorSpec
begin

text \<open>
  The end of the loop: \<^verbatim>\<open>stop\<close> may come from another thread and only writes to the command pipe; the round in which the
  kernel reports the pipe is the last one.
\<close>

text \<open>The clients leave the descriptor of the pipe alone, which is private to the reactor.\<close>

fun avoids :: "fd \<Rightarrow> command \<Rightarrow> bool" where
  "avoids p (Add ok d ev h tag) = (d \<noteq> p)"
| "avoids p (Del ok d ev) = (d \<noteq> p)"
| "avoids p (Close d) = (d \<noteq> p)"

definition pipe_at :: "fd \<Rightarrow> nat \<Rightarrow> reactor \<Rightarrow> bool" where
  "pipe_at p r s \<longleftrightarrow> (p, r) \<in> set (mFd2Events s) \<and> (\<exists>st. stubs s r = Some st \<and> st_listener st = Some CmdPipe)"

text \<open>Only the pipe's own handler reads commands or ends the loop.\<close>

definition undisturbed :: "fd \<Rightarrow> nat \<Rightarrow> reactor \<Rightarrow> reactor \<Rightarrow> bool" where
  "undisturbed p r s s' \<longleftrightarrow> pipe_at p r s' \<and> mWorking s' = mWorking s \<and> pipe_bytes s' = pipe_bytes s"

lemma undisturbed_trans: "undisturbed p r s1 s2 \<Longrightarrow> undisturbed p r s2 s3 \<Longrightarrow> undisturbed p r s1 s3"
  by (simp add: undisturbed_def)

lemma addEvent_undisturbed:
  assumes inv: "reactor_inv s" and at: "pipe_at p r s" and d: "d \<noteq> p" and a: "addEvent ok d ev l tag s = Some (e, s')"
  shows "undisturbed p r s s'"
proof (cases "map_of (mFd2Events s) d")
  case (Some q)
  have "map_of (mFd2Events s) p = Some r" using at table_find [OF wfD(2) [OF inv [unfolded inv_parts]]] by (auto simp: pipe_at_def)
  then have "q \<noteq> r" using table_unique [OF inv Some] d by blast
  then show ?thesis using a at Some
    by (auto simp: addEvent_def epoll_mod_def undisturbed_def pipe_at_def Let_def split: if_splits bind_splits)
next
  case None
  have "r < next_stub s" using at wfD(5) [OF inv [unfolded inv_parts]] by (auto simp: pipe_at_def)
  then show ?thesis using a at None
    by (auto simp: addEvent_def epoll_add_def undisturbed_def pipe_at_def Let_def set_insort_key split: if_splits)
qed

lemma delEvent_undisturbed:
  assumes inv: "reactor_inv s" and at: "pipe_at p r s" and d: "d \<noteq> p" and a: "delEvent ok d ev s = Some (e, s')"
  shows "undisturbed p r s s'"
proof (cases "map_of (mFd2Events s) d")
  case (Some q)
  have "map_of (mFd2Events s) p = Some r" using at table_find [OF wfD(2) [OF inv [unfolded inv_parts]]] by (auto simp: pipe_at_def)
  then have "q \<noteq> r" using table_unique [OF inv Some] d by blast
  then show ?thesis using a at Some d
    by (auto simp: delEvent_def epoll_mod_def epoll_del_def undisturbed_def pipe_at_def Let_def split: if_splits bind_splits)
next
  case None
  then show ?thesis using a at by (auto simp: delEvent_def undisturbed_def split: if_splits)
qed

lemma run_commands_undisturbed:
  "reactor_inv s \<Longrightarrow> pipe_at p r s \<Longrightarrow> list_all (avoids p) cs \<Longrightarrow> run_commands cs s = Some s' \<Longrightarrow> undisturbed p r s s'"
proof (induction cs s arbitrary: s' rule: run_commands.induct)
  case (1 s)
  then show ?case by (simp add: undisturbed_def)
next
  case (2 ok d ev h tag cs s)
  obtain e s1 where s1: "addEvent ok d ev (Handler h) tag s = Some (e, s1)" "run_commands cs s1 = Some s'"
    using 2(5) by (auto split: bind_splits)
  have u: "undisturbed p r s s1" using addEvent_undisturbed [OF 2(2,3) _ s1(1)] 2(4) by simp
  have i: "reactor_inv s1" using addEvent_grows [OF 2(2), of ok d ev "Handler h" tag] s1(1) by (auto simp: grows_def)
  have "pipe_at p r s1" using u by (simp add: undisturbed_def)
  then have "undisturbed p r s1 s'" using "2.IH" [OF s1(1) refl i] 2(4) s1(2) by simp
  with u show ?case by (rule undisturbed_trans)
next
  case (3 ok d ev cs s)
  obtain e s1 where s1: "delEvent ok d ev s = Some (e, s1)" "run_commands cs s1 = Some s'"
    using 3(5) by (auto split: bind_splits)
  have u: "undisturbed p r s s1" using delEvent_undisturbed [OF 3(2,3) _ s1(1)] 3(4) by simp
  have i: "reactor_inv s1" using delEvent_grows [OF 3(2), of ok d ev] s1(1) by (auto simp: grows_def)
  have "pipe_at p r s1" using u by (simp add: undisturbed_def)
  then have "undisturbed p r s1 s'" using "3.IH" [OF s1(1) refl i] 3(4) s1(2) by simp
  with u show ?case by (rule undisturbed_trans)
next
  case (4 d cs s)
  define s1 where "s1 = s\<lparr>interest := (interest s)(d := None)\<rparr>"
  have i: "reactor_inv s1" using 4(2) unfolding inv_parts reactor_wf_def s1_def by (auto split: if_splits)
  have "pipe_at p r s1" using 4(3) by (simp add: pipe_at_def s1_def)
  then have "undisturbed p r s1 s'" using "4.IH" i 4(4,5) by (simp add: s1_def)
  then show ?case by (simp add: undisturbed_def s1_def)
qed

text \<open>A stop command is in the pipe, or has been read.\<close>

definition halting :: "reactor \<Rightarrow> bool" where
  "halting s \<longleftrightarrow> \<not> mWorking s \<or> (\<exists>bs. pipe_bytes s = 1 # bs)"

definition follows :: "fd \<Rightarrow> nat \<Rightarrow> reactor \<Rightarrow> reactor \<Rightarrow> bool" where
  "follows p r s s' \<longleftrightarrow> reactor_inv s' \<and> pipe_at p r s' \<and> (halting s \<longrightarrow> halting s') \<and> (\<not> mWorking s \<longrightarrow> \<not> mWorking s')
     \<and> (list_all ((=) 1) (pipe_bytes s) \<longrightarrow> list_all ((=) 1) (pipe_bytes s'))"

lemma follows_refl: "reactor_inv s \<Longrightarrow> pipe_at p r s \<Longrightarrow> follows p r s s"
  by (simp add: follows_def)

lemma follows_trans: "follows p r s1 s2 \<Longrightarrow> follows p r s2 s3 \<Longrightarrow> follows p r s1 s3"
  by (simp add: follows_def)

lemma undisturbed_follows: "undisturbed p r s s' \<Longrightarrow> reactor_inv s' \<Longrightarrow> follows p r s s'"
  by (simp add: undisturbed_def follows_def halting_def)

lemma invoke_follows:
  assumes inv: "reactor_inv s" and at: "pipe_at p r s" and env: "\<And>n. list_all (avoids p) (env n)"
    and st: "stubs s q = Some st" "st_listener st = Some l" and i: "invoke env cb q l s = Some s'"
  shows "follows p r s s' \<and> (halting s \<longrightarrow> l = CmdPipe \<longrightarrow> cb = Readable \<longrightarrow> \<not> mWorking s')"
proof -
  define s1 where "s1 = s\<lparr>calls := calls s + 1, rlog := rlog s @ [Called q l cb]\<rparr>"
  have "(st_fd st, q) \<in> set (mFd2Events s)" using wf_registered [OF inv [unfolded inv_parts] st(1)] st(2) by simp
  from wf_called [OF inv [unfolded inv_parts] this] have inv1: "reactor_inv s1" by (simp add: inv_parts s1_def)
  have u1: "undisturbed p r s s1" using at by (simp add: undisturbed_def pipe_at_def s1_def)
  show ?thesis
  proof (cases l)
    case CmdPipe
    have s': "s' = (if cb = Readable then pipe_onReadable s1 else s1)"
      using i CmdPipe by (auto simp: invoke_def s1_def Let_def)
    have "reactor_inv s' \<and> pipe_at p r s'"
      using inv1 u1 unfolding s'
      by (auto simp: pipe_onReadable_def inv_parts undisturbed_def pipe_at_def Let_def split: list.splits)
    moreover have "mWorking s1 = mWorking s" "pipe_bytes s1 = pipe_bytes s" by (simp_all add: s1_def)
    ultimately show ?thesis unfolding s'
      by (auto simp: follows_def halting_def pipe_onReadable_def Let_def split: list.splits)
  next
    case (Handler h)
    then have rc: "run_commands (env (calls s)) s1 = Some s'" using i by (simp add: invoke_def s1_def)
    have "pipe_at p r s1" using u1 by (simp add: undisturbed_def)
    from run_commands_undisturbed [OF inv1 this env rc] have "undisturbed p r s s'" using undisturbed_trans [OF u1] by blast
    moreover have "reactor_inv s'" using run_commands_grows [OF inv1, of "env (calls s)"] rc by (auto simp: grows_def)
    ultimately show ?thesis using undisturbed_follows Handler by blast
  qed
qed

lemma guarded_follows:
  assumes inv: "reactor_inv s" and at: "pipe_at p r s" and env: "\<And>n. list_all (avoids p) (env n)"
    and g: "guarded env cb c q s = Some s'"
  shows "follows p r s s' \<and> (halting s \<longrightarrow> q = r \<longrightarrow> c \<longrightarrow> cb = Readable \<longrightarrow> \<not> mWorking s')"
proof -
  obtain st where st: "stubs s q = Some st" using g by (cases "stubs s q") (auto simp: guarded_def)
  show ?thesis
  proof (cases "st_listener st")
    case None
    then have "q \<noteq> r" using at st by (auto simp: pipe_at_def)
    then show ?thesis using None g st follows_refl [OF inv at] by (simp add: guarded_def)
  next
    case (Some l)
    have "q = r \<Longrightarrow> l = CmdPipe" using at st Some by (auto simp: pipe_at_def)
    then show ?thesis using Some g st follows_refl [OF inv at] invoke_follows [OF inv at env st Some]
      by (cases c) (auto simp: guarded_def)
  qed
qed

lemma dispatch_one_follows:
  assumes inv: "reactor_inv s" and at: "pipe_at p r s" and env: "\<And>n. list_all (avoids p) (env n)"
    and g: "dispatch_one env q ev s = Some s'"
  shows "follows p r s s' \<and> (halting s \<longrightarrow> q = r \<longrightarrow> ev AND (EPOLLIN OR EPOLLPRI) > 0 \<longrightarrow> \<not> mWorking s')"
proof -
  obtain st where st: "stubs s q = Some st" using g by (cases "stubs s q") (auto simp: dispatch_one_def)
  show ?thesis
  proof (cases "st_listener st")
    case None
    then have "q \<noteq> r" using at st by (auto simp: pipe_at_def)
    then show ?thesis using None g st follows_refl [OF inv at] by (simp add: dispatch_one_def)
  next
    case (Some l)
    obtain s1 s2 where s1: "guarded env Readable (ev AND (EPOLLIN OR EPOLLPRI) > 0) q s = Some s1"
      and s2: "guarded env Writable (ev AND EPOLLOUT > 0) q s1 = Some s2"
      and s3: "guarded env Exception (ev AND (EPOLLRDHUP OR EPOLLERR OR EPOLLHUP) > 0) q s2 = Some s'"
      using g st Some by (auto simp: dispatch_one_def split: bind_splits)
    note f1 = guarded_follows [OF inv at env s1]
    have i1: "reactor_inv s1" "pipe_at p r s1" using f1 by (simp_all add: follows_def)
    note f2 = guarded_follows [OF i1 env s2]
    have i2: "reactor_inv s2" "pipe_at p r s2" using f2 by (simp_all add: follows_def)
    note f3 = guarded_follows [OF i2 env s3]
    have "follows p r s1 s'" using f2 f3 follows_trans by blast
    then show ?thesis using f1 follows_trans by (auto simp: follows_def)
  qed
qed

lemma dispatchEvent_follows:
  "reactor_inv s \<Longrightarrow> pipe_at p r s \<Longrightarrow> (\<And>n. list_all (avoids p) (env n)) \<Longrightarrow> dispatchEvent env es s = Some s' \<Longrightarrow>
   follows p r s s' \<and> (halting s \<longrightarrow> (\<exists>ev. (r, ev) \<in> set es \<and> ev AND (EPOLLIN OR EPOLLPRI) > 0) \<longrightarrow> \<not> mWorking s')"
proof (induction es arbitrary: s)
  case Nil
  then show ?case by (simp add: follows_refl)
next
  case (Cons e es)
  obtain q ev where e: "e = (q, ev)" by (cases e)
  obtain s1 where s1: "dispatch_one env q ev s = Some s1" "dispatchEvent env es s1 = Some s'"
    using Cons.prems(4) e by (auto split: bind_splits)
  note f1 = dispatch_one_follows [OF Cons.prems(1,2,3) s1(1)]
  have i1: "reactor_inv s1" "pipe_at p r s1" using f1 by (simp_all add: follows_def)
  note f2 = Cons.IH [OF i1 Cons.prems(3) s1(2)]
  have "follows p r s s'" using f1 f2 follows_trans by blast
  then show ?case using f1 f2 e by (auto simp: follows_def)
qed

lemma check_loop_follows:
  "reactor_inv s \<Longrightarrow> pipe_at p r s \<Longrightarrow> (\<And>n. list_all (avoids p) (env n)) \<Longrightarrow> check_loop env rs s = Some s' \<Longrightarrow> follows p r s s'"
proof (induction rs arbitrary: s)
  case Nil
  then show ?case by (simp add: follows_refl)
next
  case (Cons q rs)
  obtain s1 where s1: "guarded env PeriodicallyCheck True q s = Some s1" "check_loop env rs s1 = Some s'"
    using Cons.prems(4) by (auto split: bind_splits)
  note f1 = guarded_follows [OF Cons.prems(1,2,3) s1(1)]
  have i1: "reactor_inv s1" "pipe_at p r s1" using f1 by (simp_all add: follows_def)
  show ?case using follows_trans Cons.IH [OF i1 Cons.prems(3) s1(2)] f1 by blast
qed

lemma cleanDeletedEvents_follows:
  assumes inv: "reactor_inv s" and at: "pipe_at p r s" and c: "cleanDeletedEvents s = Some s'"
  shows "follows p r s s'"
proof -
  note I = wfD [OF inv [unfolded inv_parts]]
  have rd: "r \<notin> set (mDelEventStubs s)" using at I(3) by (force simp: pipe_at_def)
  have "distinct (mDelEventStubs s)" "set (mDelEventStubs s) \<subseteq> dom (stubs s)" using I(3,4) by auto
  from free_stubs_ok [OF this] have s': "s' = s\<lparr>stubs := stubs s |` (- set (mDelEventStubs s)), mDelEventStubs := []\<rparr>"
    using c by (simp add: cleanDeletedEvents_def)
  have "reactor_inv s'" using cleanDeletedEvents_inv [OF inv] c by auto
  moreover have "pipe_at p r s'" using at rd by (simp add: s' pipe_at_def)
  moreover have "mWorking s' = mWorking s" "pipe_bytes s' = pipe_bytes s" by (simp_all add: s')
  ultimately show ?thesis by (simp add: follows_def halting_def)
qed

lemma reactor_round_follows:
  assumes inv: "reactor_inv s" and at: "pipe_at p r s" and env: "\<And>n. list_all (avoids p) (env n)"
    and g: "reactor_round env es now lastCheck s = Some (t, s')"
  shows "follows p r s s' \<and> (halting s \<longrightarrow> (\<exists>ev. (r, ev) \<in> set es \<and> ev AND (EPOLLIN OR EPOLLPRI) > 0) \<longrightarrow> \<not> mWorking s')"
proof -
  obtain s1 s2 where s1: "dispatchEvent env es s = Some s1"
    and s2: "(if now > lastCheck + CHECK_PERIOD then dispatchCheck env s1 else Some s1) = Some s2"
    and s3: "cleanDeletedEvents s2 = Some s'"
    using g by (auto simp: reactor_round_def Let_def split: bind_splits)
  note f1 = dispatchEvent_follows [OF inv at env s1]
  have i1: "reactor_inv s1" "pipe_at p r s1" using f1 by (simp_all add: follows_def)
  have f2: "follows p r s1 s2"
    using s2 check_loop_follows [OF i1 env] follows_refl [OF i1]
    by (cases "now > lastCheck + CHECK_PERIOD") (auto simp: dispatchCheck_def)
  have i2: "reactor_inv s2" "pipe_at p r s2" using f2 by (simp_all add: follows_def)
  have f3: "follows p r s1 s'" using f2 cleanDeletedEvents_follows [OF i2 s3] follows_trans by blast
  then show ?thesis using f1 follows_trans by (auto simp: follows_def)
qed

text \<open>A run in which the clients leave the pipe alone.\<close>

inductive client_step :: "fd \<Rightarrow> reactor \<Rightarrow> reactor \<Rightarrow> bool" for p where
  dispatch: "ready_ok s es \<Longrightarrow> (\<And>n. list_all (avoids p) (env n)) \<Longrightarrow> reactor_round env es now lastCheck s = Some (t, s')
    \<Longrightarrow> client_step p s s'"
| owner: "list_all (avoids p) cs \<Longrightarrow> run_commands cs s = Some s' \<Longrightarrow> client_step p s s'"
| stopping: "reactor_stop ok s = (w, s') \<Longrightarrow> client_step p s s'"
| starting: "client_step p s (s\<lparr>mWorking := True\<rparr>)"

definition serves :: "fd \<Rightarrow> nat \<Rightarrow> reactor \<Rightarrow> bool" where
  "serves p r s \<longleftrightarrow> reactor_inv s \<and> pipe_at p r s \<and> list_all ((=) 1) (pipe_bytes s)"

lemma stop_serves:
  assumes s: "serves p r s" and st: "reactor_stop ok s = (w, s')"
  shows "serves p r s'"
proof -
  have "pipe_bytes s' = pipe_bytes s @ [1] \<or> pipe_bytes s' = pipe_bytes s" "mFd2Events s' = mFd2Events s" "stubs s' = stubs s"
    using st by (auto simp: reactor_stop_def writeCmd_def split: if_splits)
  then show ?thesis using s reactor_stop_inv [OF _ st] by (auto simp: serves_def pipe_at_def)
qed

lemma client_step_serves: "client_step p s s' \<Longrightarrow> serves p r s \<Longrightarrow> serves p r s'"
proof (induction rule: client_step.induct)
  case (dispatch s es env now lastCheck t s')
  then show ?case using reactor_round_follows [OF _ _ dispatch(2,3), of r] by (auto simp: serves_def follows_def)
next
  case (owner cs s s')
  then have i: "reactor_inv s" "pipe_at p r s" by (simp_all add: serves_def)
  have "reactor_inv s'" using run_commands_grows [OF i(1), of cs] owner(2) by (auto simp: grows_def)
  then show ?case using run_commands_undisturbed [OF i owner(1,2)] owner(3) by (simp add: serves_def undisturbed_def)
next
  case (stopping ok s w s')
  then show ?case using stop_serves by blast
next
  case (starting s)
  then show ?case by (simp add: serves_def pipe_at_def inv_parts)
qed

lemma client_run_serves: "(client_step p)\<^sup>*\<^sup>* s s' \<Longrightarrow> serves p r s \<Longrightarrow> serves p r s'"
  by (induction rule: rtranclp_induct) (auto intro: client_step_serves)

lemma reactor_new_serves:
  assumes "0 \<le> epfd" "0 \<le> p" "reactor_new epfd p True = Some s"
  shows "serves p 0 s" "interest s p = Some (0, EPOLLIN)"
proof -
  have i: "reactor_inv s" using reactor_new_inv [of epfd p True] assms(3) by auto
  have s: "mFd2Events s = [(p, 0)]" "interest s p = Some (0, EPOLLIN)" "pipe_bytes s = []"
      "stubs s 0 = Some \<lparr>st_events = EV_READ, st_event = Some (convertEvent EV_READ), st_fd = p, st_listener = Some CmdPipe, st_tag = 0\<rparr>"
    using assms by (auto simp: reactor_new_def addEvent_def epoll_add_def reactor_raw_def convertEvent_def EV_READ_def EV_WRITE_def
        Let_def)
  then show "serves p 0 s" "interest s p = Some (0, EPOLLIN)" using i by (simp_all add: serves_def pipe_at_def)
qed

text \<open>
  Claim C33. Stopping ends the loop. In every run in which the clients leave the pipe's descriptor alone, after \<^verbatim>\<open>stop\<close> could write its
  command the round in which the kernel reports the pipe readable is the last one: \<^verbatim>\<open>start\<close> returns after it, whatever the
  handlers called in it do and whatever would be reported later.
\<close>

theorem reactor_stops:
  assumes "0 \<le> epfd" "0 \<le> p" "reactor_new epfd p True = Some s0" "(client_step p)\<^sup>*\<^sup>* s0 s1" "mWorking s1"
    "reactor_stop True s1 = (w, s)" "ready_ok s es" "\<forall>n. list_all (avoids p) (env n)" "(0, ev) \<in> set es" "ev AND EPOLLIN > 0"
  shows "w = 0 \<and> (\<exists>t s'. reactor_round env es now lastCheck s = Some (t, s')
    \<and> working_loop env ((Ready es, now) # ws) lastCheck s = Some (Ended, s'))"
proof -
  have sv1: "serves p 0 s1" using client_run_serves [OF assms(4) reactor_new_serves(1) [OF assms(1-3)]] .
  then have sv: "serves p 0 s" using stop_serves assms(6) by blast
  have s: "w = 0" "pipe_bytes s \<noteq> []" "mWorking s" using assms(5,6) by (auto simp: reactor_stop_def writeCmd_def)
  then have "\<exists>bs. pipe_bytes s = 1 # bs" using sv by (cases "pipe_bytes s") (auto simp: serves_def)
  then have halt: "halting s" by (simp add: halting_def)
  have i: "reactor_inv s" "pipe_at p 0 s" using sv by (simp_all add: serves_def)
  obtain t s' where r: "reactor_round env es now lastCheck s = Some (t, s')" using reactor_round_inv [OF i(1) assms(7)] by blast
  have "ev AND EPOLLIN \<noteq> 0" using assms(10) by auto
  then have "ev AND (EPOLLIN OR EPOLLPRI) > 0"
    by (metis and_zero_eq bit.conj_disj_distrib or_eq_0_iff word_gt_0)
  then have "\<not> mWorking s'" using reactor_round_follows [OF i _ r] assms(8,9) halt by blast
  then have "working_loop env ws t s' = Some (Ended, s')" by (simp add: working_loop.simps)
  then show ?thesis using r s by (simp add: working_loop.simps [of env "(Ready es, now) # ws"])
qed

theorem reactor_stops_witness:
  "let s = snd (reactor_stop True (sample_reactor\<lparr>mWorking := True\<rparr>)) in
    \<exists>t s'. reactor_round (\<lambda>n. []) [(0, EPOLLIN)] 5 0 s = Some (t, s')
      \<and> working_loop (\<lambda>n. []) [(Ready [(0, EPOLLIN)], 5)] 0 s = Some (Ended, s')"
proof -
  define s1 where "s1 = sample_reactor\<lparr>mWorking := True\<rparr>"
  obtain w s where s: "reactor_stop True s1 = (w, s)" by fastforce
  have run: "(client_step 4)\<^sup>*\<^sup>* sample_reactor s1" unfolding s1_def by (rule r_into_rtranclp) (rule client_step.starting)
  have "interest sample_reactor 4 = Some (0, EPOLLIN)" by (rule reactor_new_serves(2) [OF _ _ sample_reactor_new]) simp_all
  moreover have "interest s = interest sample_reactor" using s by (auto simp: reactor_stop_def writeCmd_def s1_def)
  ultimately have rd: "ready_ok s [(0, EPOLLIN)]" by (auto simp: ready_ok_def)
  have "EPOLLIN AND EPOLLIN > 0" by (simp add: EPOLLIN_def)
  from reactor_stops [OF _ _ sample_reactor_new run _ s rd _ _ this, of "\<lambda>n. []"] show ?thesis
    using s unfolding s1_def [symmetric] by (simp add: s1_def)
qed

end
