(* ===== verification/RouterLoop.thy ===== *)
theory RouterLoop
  imports ReactorStop
begin

text \<open>
  \<^verbatim>\<open>Router::init\<close>, \<^verbatim>\<open>start\<close> and \<^verbatim>\<open>stop\<close> of \<^verbatim>\<open>core/Router.cpp\<close>: the router on its event loop. The router is the listener 0.
\<close>

section \<open>The operations\<close>

text \<open>\<^verbatim>\<open>init\<close> with the success of the two \<^verbatim>\<open>fcntl\<close>s.\<close>

definition router_init :: "bool \<Rightarrow> bool \<Rightarrow> int" where
  "router_init getfl setfl = (if \<not> getfl \<or> \<not> setfl then 1 else 0)"

text \<open>
  \<^verbatim>\<open>start\<close> with the answers of the kernel; the capture thread is told before and after. \<^term>\<open>Waiting\<close> is a loop that has not ended
  when the answers are used up. The result of \<^verbatim>\<open>addEvent\<close> is not looked at.
\<close>

datatype capture_call = Capture_start | Capture_stop

definition router_start ::
  "fd \<Rightarrow> bool \<Rightarrow> bool \<Rightarrow> (nat \<Rightarrow> command list) \<Rightarrow> (wait \<times> int) list \<Rightarrow> int \<Rightarrow> reactor
    \<Rightarrow> (int \<times> progress \<times> capture_call list \<times> reactor) option" where
  "router_start tun ok_add ok_del env ws now s =
     do { (e, s1) \<leftarrow> addEvent ok_add tun EV_READ (Handler 0) 0 s;
          (ret, p, s2) \<leftarrow> reactor_start env ws now s1;
          case p of
            Waiting \<Rightarrow> Some (0, Waiting, [Capture_start], s2)
          | Ended \<Rightarrow> do { (e2, s3) \<leftarrow> delEvent ok_del tun EV_ALL s2; Some (ret, Ended, [Capture_start, Capture_stop], s3) } }"

definition router_stop :: "bool \<Rightarrow> reactor \<Rightarrow> int \<times> reactor" where
  "router_stop ok s = reactor_stop ok s"

section \<open>The whole life of the loop\<close>

text \<open>The kernel reports only what is registered when it is asked.\<close>

fun answers_ok :: "(nat \<Rightarrow> command list) \<Rightarrow> (wait \<times> int) list \<Rightarrow> int \<Rightarrow> reactor \<Rightarrow> bool" where
  "answers_ok env [] lastCheck s = True"
| "answers_ok env ((Interrupted, now) # ws) lastCheck s = answers_ok env ws lastCheck s"
| "answers_ok env ((Failed, now) # ws) lastCheck s = True"
| "answers_ok env ((Ready es, now) # ws) lastCheck s =
     (ready_ok s es
      \<and> (case reactor_round env es now lastCheck s of None \<Rightarrow> True | Some (t, s1) \<Rightarrow> mWorking s1 \<longrightarrow> answers_ok env ws t s1))"

lemma working_loop_defined:
  "reactor_inv s \<Longrightarrow> (mWorking s \<longrightarrow> answers_ok env ws lastCheck s)
    \<Longrightarrow> \<exists>p s'. working_loop env ws lastCheck s = Some (p, s') \<and> reactor_inv s'"
proof (induction env ws lastCheck s rule: answers_ok.induct)
  case (4 env es now ws lastCheck s)
  show ?case
  proof (cases "mWorking s")
    case True
    with 4 have "ready_ok s es" by simp
    from reactor_round_inv [OF 4(2) this] obtain t s1 where
      r: "reactor_round env es now lastCheck s = Some (t, s1)" "reactor_inv s1" by blast
    have "mWorking s1 \<longrightarrow> answers_ok env ws t s1" using 4(3) True r(1) by simp
    from "4.IH" [OF r(1) refl _ r(2)] this have "\<exists>p s'. working_loop env ws t s1 = Some (p, s') \<and> reactor_inv s'"
      by (cases "mWorking s1") (auto simp: working_loop.simps [of env ws t s1] r(2))
    then show ?thesis using True r(1) by (subst working_loop.simps) simp
  qed (use 4(2) in \<open>simp add: working_loop.simps\<close>)
qed (auto simp: working_loop.simps)

text \<open>
  In every life of the router's loop, from the constructor of the reactor over \<^verbatim>\<open>start\<close> to its destructor, whatever the handlers do and
  whatever the kernel answers, every operation has a defined outcome, and the capture is started once and stopped when the loop ends.
\<close>

theorem router_loop_safe:
  assumes "reactor_new epfd p ok = Some s0"
    and "\<And>e s1. addEvent ok_add tun EV_READ (Handler 0) 0 s0 = Some (e, s1)
      \<Longrightarrow> answers_ok env ws now (s1\<lparr>mWorking := True\<rparr>)"
  shows "\<exists>ret pr cs s. router_start tun ok_add ok_del env ws now s0 = Some (ret, pr, cs, s)
    \<and> cs = (if pr = Ended then [Capture_start, Capture_stop] else [Capture_start]) \<and> reactor_delete oks s \<noteq> None"
proof -
  have i0: "reactor_inv s0" using reactor_new_inv [of epfd p ok] assms(1) by auto
  obtain e s1 where s1: "addEvent ok_add tun EV_READ (Handler 0) 0 s0 = Some (e, s1)" "reactor_inv s1"
    using addEvent_grows [OF i0] grows_inv by blast
  have "reactor_inv (s1\<lparr>mWorking := True\<rparr>)" using s1(2) by (simp add: reactor_inv_def)
  from working_loop_defined [OF this] assms(2) [OF s1(1)] obtain pr s2 where
    l: "working_loop env ws now (s1\<lparr>mWorking := True\<rparr>) = Some (pr, s2)" "reactor_inv s2" by blast
  obtain e2 s3 where d: "delEvent ok_del tun EV_ALL s2 = Some (e2, s3)" "reactor_inv s3"
    using delEvent_grows [OF l(2)] grows_inv by blast
  obtain e4 s4 where d4: "delEvent ok_del tun EV_ALL s1 = Some (e4, s4)" "reactor_inv s4"
    using delEvent_grows [OF s1(2)] grows_inv by blast
  note kept = reactor_delete_keeps
  show ?thesis
  proof (cases "mWorking s1")
    case True
    then show ?thesis using s1(1) d4 kept [OF d4(2), of oks] by (auto simp: router_start_def reactor_start_def)
  next
    case False
    show ?thesis
    proof (cases pr)
      case Waiting
      then show ?thesis
        using False s1(1) l kept [OF l(2), of oks] by (auto simp: router_start_def reactor_start_def)
    next
      case Ended
      then show ?thesis
        using False s1(1) l d kept [OF d(2), of oks] by (auto simp: router_start_def reactor_start_def)
    qed
  qed
qed

end
