(* ===== verification/Dispatcher.thy ===== *)
theory Dispatcher
  imports Prelude "HOL-Library.Monad_Syntax"
begin

text \<open>
  \<^verbatim>\<open>core/event/EventDispatcher.h\<close>: handlers register for event numbers; \<^verbatim>\<open>dispatchSync\<close> calls them on the caller's thread, \<^verbatim>\<open>dispatch\<close>
  queues the event for the thread of the dispatcher. The mutexes make each operation one step, with one
  exception: the thread uses a list of handlers after it gave back the lock.
\<close>

section \<open>The state\<close>

record event =
  ev_id :: int
  ev_action :: int
  ev_data :: nat

datatype delivery = OnSyncEvent nat event | OnEvent nat event

text \<open>
  \<open>pc\<close> is where the thread is: at the test of \<^verbatim>\<open>mWork\<close>, waiting for an event, delivering one, or at its end.
  \<open>dispatched\<close> and \<open>deliveries\<close> record what was queued and which handlers were called.
\<close>

datatype pc = Test | Waiting | Delivering event | Terminated

record dispatcher =
  mHandlers :: "int \<Rightarrow> nat list option"
  mQueue :: "event list"
  mWork :: bool
  pc :: pc
  deliveries :: "delivery list"
  dispatched :: "event list"
  taken_out :: "event list"

definition dispatcher0 :: dispatcher where
  "dispatcher0 = \<lparr>mHandlers = Map.empty, mQueue = [], mWork = True, pc = Test, deliveries = [], dispatched = [], taken_out = []\<rparr>"

section \<open>Registration\<close>

definition getHandlers :: "int \<Rightarrow> dispatcher \<Rightarrow> nat list option" where
  "getHandlers i s = mHandlers s i"

text \<open>A handler is a pointer, \<^term>\<open>None\<close> the null pointer.\<close>

definition registerEvent :: "int \<Rightarrow> nat option \<Rightarrow> dispatcher \<Rightarrow> int \<times> dispatcher" where
  "registerEvent i handler s =
     (case handler of
        None \<Rightarrow> (1, s)
      | Some h \<Rightarrow>
          (let hs = (case getHandlers i s of None \<Rightarrow> [] | Some hs \<Rightarrow> hs);
               hs' = (if h \<in> set hs then hs else hs @ [h])
           in (0, s\<lparr>mHandlers := (mHandlers s)(i \<mapsto> hs')\<rparr>)))"

definition unregisterEvent :: "int \<Rightarrow> nat option \<Rightarrow> dispatcher \<Rightarrow> int \<times> dispatcher" where
  "unregisterEvent i handler s =
     (case handler of
        None \<Rightarrow> (1, s)
      | Some h \<Rightarrow>
          (case getHandlers i s of
             None \<Rightarrow> (0, s)
           | Some hs \<Rightarrow> (0, s\<lparr>mHandlers := (mHandlers s)(i \<mapsto> remove1 h hs)\<rparr>)))"

text \<open>What a handler may do while it is called.\<close>

datatype request = Register int nat | Unregister int nat

fun serve :: "request list \<Rightarrow> dispatcher \<Rightarrow> dispatcher" where
  "serve [] s = s"
| "serve (Register i h # rs) s = serve rs (snd (registerEvent i (Some h) s))"
| "serve (Unregister i h # rs) s = serve rs (snd (unregisterEvent i (Some h) s))"

section \<open>Delivery\<close>

text \<open>
  The loops over a list of handlers. The iterator stands on the handler \<open>h\<close>; incrementing it is undefined when that element
  was erased meanwhile. \<open>env h\<close> is what \<open>h\<close> does when it is called; the loop is cut off after \<open>fuel\<close> calls.
\<close>

datatype 'a outcome = More 'a | Undef | Done 'a

fun behind :: "nat \<Rightarrow> nat list \<Rightarrow> nat list" where
  "behind h [] = []"
| "behind h (x # xs) = (if x = h then xs else behind h xs)"

fun each_handler :: "(nat \<Rightarrow> request list) \<Rightarrow> (nat \<Rightarrow> delivery) \<Rightarrow> int \<Rightarrow> nat \<Rightarrow> nat list \<Rightarrow> dispatcher \<Rightarrow> dispatcher outcome" where
  "each_handler env call i fuel [] s = Done s"
| "each_handler env call i 0 (h # hs) s = More s"
| "each_handler env call i (Suc fuel) (h # hs) s =
     (let s1 = serve (env h) (s\<lparr>deliveries := deliveries s @ [call h]\<rparr>)
      in case mHandlers s1 i of
           None \<Rightarrow> Undef
         | Some hs1 \<Rightarrow> if h \<in> set hs1 then each_handler env call i fuel (behind h hs1) s1 else Undef)"

definition deliver :: "(nat \<Rightarrow> request list) \<Rightarrow> nat \<Rightarrow> (nat \<Rightarrow> delivery) \<Rightarrow> event \<Rightarrow> dispatcher \<Rightarrow> dispatcher outcome" where
  "deliver env fuel call e s =
     (case getHandlers (ev_id e) s of
        None \<Rightarrow> Done s
      | Some hs \<Rightarrow> each_handler env call (ev_id e) fuel hs s)"

text \<open>The number is the result of the call; \<^verbatim>\<open>dispatchSync\<close> returns 0 when its loop ends. The event is deleted after it.\<close>

definition dispatchSync :: "(nat \<Rightarrow> request list) \<Rightarrow> nat \<Rightarrow> event option \<Rightarrow> dispatcher \<Rightarrow> int \<times> dispatcher outcome" where
  "dispatchSync env fuel event s =
     (case event of
        None \<Rightarrow> (1, Done s)
      | Some e \<Rightarrow> (0, deliver env fuel (\<lambda>h. OnSyncEvent h e) e s))"

definition dispatch_async :: "event option \<Rightarrow> dispatcher \<Rightarrow> int \<times> dispatcher" where
  "dispatch_async event s =
     (case event of
        None \<Rightarrow> (1, s)
      | Some e \<Rightarrow> (0, s\<lparr>mQueue := mQueue s @ [e], dispatched := dispatched s @ [e]\<rparr>))"

section \<open>The thread\<close>

text \<open>\<^verbatim>\<open>obtainEvent\<close> blocks while the queue is empty: \<^term>\<open>None\<close>.\<close>

definition obtainEvent :: "dispatcher \<Rightarrow> (event \<times> dispatcher) option" where
  "obtainEvent s =
     (case mQueue s of
        [] \<Rightarrow> None
      | e # es \<Rightarrow> Some (e, s\<lparr>mQueue := es, taken_out := taken_out s @ [e]\<rparr>))"

text \<open>One step of \<^verbatim>\<open>loop\<close>; \<^term>\<open>None\<close> when it cannot move.\<close>

definition thread_step :: "(nat \<Rightarrow> request list) \<Rightarrow> nat \<Rightarrow> dispatcher \<Rightarrow> dispatcher outcome option" where
  "thread_step env fuel s =
     (case pc s of
        Test \<Rightarrow> Some (Done (s\<lparr>pc := (if mWork s then Waiting else Terminated)\<rparr>))
      | Waiting \<Rightarrow> map_option (\<lambda>(e, s1). Done (s1\<lparr>pc := Delivering e\<rparr>)) (obtainEvent s)
      | Delivering e \<Rightarrow>
          Some (case deliver env fuel (\<lambda>h. OnEvent h e) e s of
                  Done s1 \<Rightarrow> Done (s1\<lparr>pc := Test\<rparr>) | More s1 \<Rightarrow> More s1 | Undef \<Rightarrow> Undef)
      | Terminated \<Rightarrow> None)"

text \<open>\<^verbatim>\<open>stop\<close> clears the flag and joins the thread: it returns when the thread is at its end.\<close>

definition dispatcher_stop :: "dispatcher \<Rightarrow> dispatcher" where
  "dispatcher_stop s = s\<lparr>mWork := False\<rparr>"

section \<open>Runs\<close>

inductive dispatcher_step :: "dispatcher \<Rightarrow> dispatcher \<Rightarrow> bool" where
  register: "dispatcher_step s (snd (registerEvent i h s))"
| unregister: "dispatcher_step s (snd (unregisterEvent i h s))"
| async: "dispatch_async e s = (n, s') \<Longrightarrow> dispatcher_step s s'"
| sync: "dispatchSync env fuel e s = (n, Done s') \<Longrightarrow> dispatcher_step s s'"
| thread: "thread_step env fuel s = Some (Done s') \<Longrightarrow> dispatcher_step s s'"
| stop: "dispatcher_step s (dispatcher_stop s)"

definition held_event :: "dispatcher \<Rightarrow> event list" where
  "held_event s = (case pc s of Delivering e \<Rightarrow> [e] | _ \<Rightarrow> [])"

definition dispatcher_inv :: "dispatcher \<Rightarrow> bool" where
  "dispatcher_inv s \<longleftrightarrow> (\<forall>i hs. mHandlers s i = Some hs \<longrightarrow> distinct hs) \<and> dispatched s = taken_out s @ mQueue s"

text \<open>Everything but the handlers and the log of calls.\<close>

definition rest :: "dispatcher \<Rightarrow> event list \<times> bool \<times> pc \<times> event list \<times> event list" where
  "rest s = (mQueue s, mWork s, pc s, dispatched s, taken_out s)"

lemma register_inv:
  "dispatcher_inv s \<Longrightarrow> dispatcher_inv (snd (registerEvent i h s)) \<and> rest (snd (registerEvent i h s)) = rest s
     \<and> deliveries (snd (registerEvent i h s)) = deliveries s"
  by (auto simp: dispatcher_inv_def registerEvent_def getHandlers_def rest_def Let_def split: option.splits if_splits)

lemma unregister_inv:
  "dispatcher_inv s \<Longrightarrow> dispatcher_inv (snd (unregisterEvent i h s)) \<and> rest (snd (unregisterEvent i h s)) = rest s
     \<and> deliveries (snd (unregisterEvent i h s)) = deliveries s"
  by (auto simp: dispatcher_inv_def unregisterEvent_def getHandlers_def rest_def split: option.splits if_splits)

lemma serve_inv:
  "dispatcher_inv s \<Longrightarrow> dispatcher_inv (serve rs s) \<and> rest (serve rs s) = rest s \<and> deliveries (serve rs s) = deliveries s"
  by (induction rs s rule: serve.induct) (simp_all add: register_inv unregister_inv)

lemma each_handler_inv:
  "dispatcher_inv s \<Longrightarrow> each_handler env call i fuel hs s = Done s' \<Longrightarrow> dispatcher_inv s' \<and> rest s' = rest s"
proof (induction env call i fuel hs s rule: each_handler.induct)
  case (3 env call i fuel h hs s)
  define s0 where "s0 = s\<lparr>deliveries := deliveries s @ [call h]\<rparr>"
  define s1 where "s1 = serve (env h) s0"
  have "dispatcher_inv s0 \<and> rest s0 = rest s" using 3(2) by (simp add: dispatcher_inv_def rest_def s0_def)
  then have s1: "dispatcher_inv s1" "rest s1 = rest s" using serve_inv [of s0 "env h"] by (simp_all add: s1_def)
  obtain hs1 where hs1: "mHandlers s1 i = Some hs1" "h \<in> set hs1" "each_handler env call i fuel (behind h hs1) s1 = Done s'"
    using 3(3) by (auto simp: s1_def s0_def Let_def split: option.splits if_splits)
  from "3.IH" [OF s1_def [unfolded s0_def] hs1(1,2) s1(1) hs1(3)] show ?case using s1(2) by simp
qed simp_all

lemma deliver_inv: "dispatcher_inv s \<Longrightarrow> deliver env fuel call e s = Done s' \<Longrightarrow> dispatcher_inv s' \<and> rest s' = rest s"
  using each_handler_inv by (auto simp: deliver_def split: option.splits)

lemma dispatcher_step_inv: "dispatcher_step s s' \<Longrightarrow> dispatcher_inv s \<Longrightarrow> dispatcher_inv s'"
proof (induction rule: dispatcher_step.induct)
  case (register s i h)
  then show ?case using register_inv by blast
next
  case (unregister s i h)
  then show ?case using unregister_inv by blast
next
  case (async e s n s')
  then show ?case by (auto simp: dispatch_async_def dispatcher_inv_def split: option.splits)
next
  case (sync env fuel e s n s')
  then show ?case using deliver_inv by (auto simp: dispatchSync_def split: option.splits)
next
  case (thread env fuel s s')
  show ?case
  proof (cases "pc s")
    case (Delivering e)
    then obtain s1 where "deliver env fuel (\<lambda>h. OnEvent h e) e s = Done s1" "s' = s1\<lparr>pc := Test\<rparr>"
      using thread(1) by (auto simp: thread_step_def split: outcome.splits)
    then show ?thesis using deliver_inv [OF thread(2)] by (auto simp: dispatcher_inv_def)
  qed (use thread in \<open>auto simp: thread_step_def dispatcher_inv_def obtainEvent_def split: list.splits\<close>)
next
  case (stop s)
  then show ?case by (simp add: dispatcher_stop_def dispatcher_inv_def)
qed

lemma dispatcher_run_inv: "dispatcher_step\<^sup>*\<^sup>* dispatcher0 s \<Longrightarrow> dispatcher_inv s"
proof (induction rule: rtranclp_induct)
  case base
  then show ?case by (simp add: dispatcher_inv_def dispatcher0_def)
next
  case (step s1 s2)
  then show ?case using dispatcher_step_inv by blast
qed

section \<open>Properties\<close>

fun other :: "int \<Rightarrow> request \<Rightarrow> bool" where
  "other i (Register j h) = (j \<noteq> i)"
| "other i (Unregister j h) = (j \<noteq> i)"

lemma serve_other: "list_all (other i) rs \<Longrightarrow> mHandlers (serve rs s) i = mHandlers s i \<and> deliveries (serve rs s) = deliveries s"
  by (induction rs s rule: serve.induct)
    (auto simp: registerEvent_def unregisterEvent_def getHandlers_def Let_def split: option.splits)

lemma behind_append: "h \<notin> set xs \<Longrightarrow> behind h (xs @ h # ys) = ys"
  by (induction xs) auto

text \<open>Handlers that leave the list alone are all called, once and in order.\<close>

lemma each_handler_all:
  assumes "\<And>h. list_all (other i) (env h)"
  shows "mHandlers s i = Some (xs @ hs) \<Longrightarrow> distinct (xs @ hs) \<Longrightarrow> length hs \<le> fuel \<Longrightarrow>
    \<exists>s'. each_handler env call i fuel hs s = Done s' \<and> deliveries s' = deliveries s @ map call hs \<and> mHandlers s' i = Some (xs @ hs)"
proof (induction hs arbitrary: s xs fuel)
  case (Cons h hs)
  obtain fuel1 where f: "fuel = Suc fuel1" "length hs \<le> fuel1" using Cons.prems(3) by (cases fuel) auto
  define s1 where "s1 = serve (env h) (s\<lparr>deliveries := deliveries s @ [call h]\<rparr>)"
  have s1: "mHandlers s1 i = Some (xs @ h # hs)" "deliveries s1 = deliveries s @ [call h]"
    using serve_other [OF assms, of h "s\<lparr>deliveries := deliveries s @ [call h]\<rparr>"] Cons.prems(1) by (simp_all add: s1_def)
  have b: "behind h (xs @ h # hs) = hs" using Cons.prems(2) by (simp add: behind_append)
  have "mHandlers s1 i = Some ((xs @ [h]) @ hs)" "distinct ((xs @ [h]) @ hs)" using s1(1) Cons.prems(2) by simp_all
  from Cons.IH [OF this f(2)] show ?case
    using s1 b by (auto simp: f(1) s1_def [symmetric] Let_def)
qed auto

text \<open>
  Synchronous dispatch. In every run, if the handlers registered for an event leave its list alone while they are called,
  \<^verbatim>\<open>dispatchSync\<close> calls each of them exactly once, in the order of registration, and returns 0.
\<close>

theorem dispatch_sync_once:
  assumes "dispatcher_step\<^sup>*\<^sup>* dispatcher0 s" "\<forall>h. list_all (other (ev_id e)) (env h)"
    "mHandlers s (ev_id e) = Some hs" "length hs \<le> fuel"
  shows "\<exists>s'. dispatchSync env fuel (Some e) s = (0, Done s') \<and> deliveries s' = deliveries s @ map (\<lambda>h. OnSyncEvent h e) hs
    \<and> distinct hs"
proof -
  have d: "distinct ([] @ hs)" using dispatcher_run_inv [OF assms(1)] assms(3) by (simp add: dispatcher_inv_def)
  have "mHandlers s (ev_id e) = Some ([] @ hs)" using assms(3) by simp
  from each_handler_all [OF _ this d assms(4), of env "\<lambda>h. OnSyncEvent h e"] d show ?thesis
    using assms(2,3) by (fastforce simp: dispatchSync_def deliver_def getHandlers_def)
qed

definition sample_event :: event where "sample_event = \<lparr>ev_id = 0, ev_action = 0, ev_data = 9\<rparr>"

definition sample_dispatcher :: dispatcher where
  "sample_dispatcher = snd (registerEvent 0 (Some 5) dispatcher0)"

lemma sample_dispatcher_run: "dispatcher_step\<^sup>*\<^sup>* dispatcher0 sample_dispatcher"
  unfolding sample_dispatcher_def by (rule r_into_rtranclp) (rule dispatcher_step.register)

theorem dispatch_sync_once_witness:
  "\<exists>s'. dispatchSync (\<lambda>h. []) 1 (Some sample_event) sample_dispatcher = (0, Done s') \<and> deliveries s' = [OnSyncEvent 5 sample_event]"
proof -
  have "mHandlers sample_dispatcher (ev_id sample_event) = Some [5]" "deliveries sample_dispatcher = []"
    by (simp_all add: sample_dispatcher_def sample_event_def registerEvent_def getHandlers_def dispatcher0_def)
  then show ?thesis
    using dispatch_sync_once [OF sample_dispatcher_run, of sample_event "\<lambda>h. []" "[5]" 1] by simp
qed

text \<open>The events the thread has delivered are a beginning of those dispatched. While the table of handlers is \<open>H\<close>:\<close>

inductive serving_step :: "dispatcher \<Rightarrow> dispatcher \<Rightarrow> bool" where
  async: "dispatch_async e s = (n, s') \<Longrightarrow> serving_step s s'"
| sync: "dispatchSync (\<lambda>h. []) fuel e s = (n, Done s') \<Longrightarrow> serving_step s s'"
| thread: "thread_step (\<lambda>h. []) fuel s = Some (Done s') \<Longrightarrow> serving_step s s'"
| stop: "serving_step s (dispatcher_stop s)"

fun is_async :: "delivery \<Rightarrow> bool" where
  "is_async (OnEvent h e) = True"
| "is_async (OnSyncEvent h e) = False"

definition owed :: "(int \<Rightarrow> nat list option) \<Rightarrow> event \<Rightarrow> delivery list" where
  "owed H e = (case H (ev_id e) of None \<Rightarrow> [] | Some hs \<Rightarrow> map (\<lambda>h. OnEvent h e) hs)"

definition serving_inv :: "(int \<Rightarrow> nat list option) \<Rightarrow> dispatcher \<Rightarrow> bool" where
  "serving_inv H s \<longleftrightarrow> mHandlers s = H \<and> dispatched s = taken_out s @ mQueue s
     \<and> (\<exists>es. taken_out s = es @ held_event s \<and> filter is_async (deliveries s) = concat (map (owed H) es))"

lemma each_handler_plain:
  "mHandlers s i = Some (xs @ hs) \<Longrightarrow> distinct (xs @ hs) \<Longrightarrow> each_handler (\<lambda>h. []) call i fuel hs s = Done s'
   \<Longrightarrow> s' = s\<lparr>deliveries := deliveries s @ map call hs\<rparr>"
proof (induction hs arbitrary: s xs fuel)
  case (Cons h hs)
  define s1 where "s1 = s\<lparr>deliveries := deliveries s @ [call h]\<rparr>"
  obtain fuel1 where f: "fuel = Suc fuel1" using Cons.prems(3) by (cases fuel) auto
  have b: "behind h (xs @ h # hs) = hs" using Cons.prems(2) by (simp add: behind_append)
  have "each_handler (\<lambda>h. []) call i fuel1 hs s1 = Done s'"
    using Cons.prems(1,3) b by (simp add: f s1_def [symmetric] Let_def) (simp add: s1_def)
  moreover have "mHandlers s1 i = Some ((xs @ [h]) @ hs)" "distinct ((xs @ [h]) @ hs)"
    using Cons.prems(1,2) by (simp_all add: s1_def)
  ultimately have "s' = s1\<lparr>deliveries := deliveries s1 @ map call hs\<rparr>" using Cons.IH by blast
  then show ?case by (simp add: s1_def)
qed simp

lemma deliver_plain:
  assumes "\<forall>i hs. mHandlers s i = Some hs \<longrightarrow> distinct hs" "deliver (\<lambda>h. []) fuel call e s = Done s'"
  shows "s' = s\<lparr>deliveries := deliveries s @ (case mHandlers s (ev_id e) of None \<Rightarrow> [] | Some hs \<Rightarrow> map call hs)\<rparr>"
  using assms each_handler_plain [of s "ev_id e" "[]"]
  by (auto simp: deliver_def getHandlers_def split: option.splits)

lemma serving_step_inv:
  "serving_step s s' \<Longrightarrow> serving_inv H s \<Longrightarrow> \<forall>i hs. H i = Some hs \<longrightarrow> distinct hs \<Longrightarrow> serving_inv H s'"
proof (induction rule: serving_step.induct)
  case (async e s n s')
  then show ?case by (auto simp: dispatch_async_def serving_inv_def held_event_def split: option.splits)
next
  case (sync fuel e s n s')
  then show ?case
  proof (cases e)
    case (Some ev)
    then have d: "deliver (\<lambda>h. []) fuel (\<lambda>h. OnSyncEvent h ev) ev s = Done s'" using sync(1) by (simp add: dispatchSync_def)
    have "\<forall>i hs. mHandlers s i = Some hs \<longrightarrow> distinct hs" using sync(2,3) by (simp add: serving_inv_def)
    from deliver_plain [OF this d] show ?thesis using sync(2)
      by (auto simp: serving_inv_def held_event_def split: option.splits)
  qed (simp add: dispatchSync_def)
next
  case (thread fuel s s')
  show ?case
  proof (cases "pc s")
    case (Delivering e)
    then obtain s1 where s1: "deliver (\<lambda>h. []) fuel (\<lambda>h. OnEvent h e) e s = Done s1" "s' = s1\<lparr>pc := Test\<rparr>"
      using thread(1) by (auto simp: thread_step_def split: outcome.splits)
    have "\<forall>i hs. mHandlers s i = Some hs \<longrightarrow> distinct hs" using thread(2,3) by (simp add: serving_inv_def)
    from deliver_plain [OF this s1(1)] have s1': "s1 = s\<lparr>deliveries := deliveries s @ owed H e\<rparr>"
      using thread(2) by (auto simp: serving_inv_def owed_def)
    have "filter is_async (owed H e) = owed H e" by (auto simp: owed_def filter_map comp_def split: option.splits)
    then show ?thesis using thread(2) Delivering
      by (auto simp: s1(2) s1' serving_inv_def held_event_def)
  next
    case Waiting
    then obtain e es where "mQueue s = e # es" "s' = s\<lparr>mQueue := es, taken_out := taken_out s @ [e], pc := Delivering e\<rparr>"
      using thread(1) by (auto simp: thread_step_def obtainEvent_def split: list.splits)
    then show ?thesis using thread(2) Waiting by (simp add: serving_inv_def held_event_def)
  qed (use thread in \<open>auto simp: thread_step_def serving_inv_def held_event_def\<close>)
next
  case (stop s)
  then show ?case by (simp add: dispatcher_stop_def serving_inv_def held_event_def)
qed

lemma serving_run_inv:
  "serving_step\<^sup>*\<^sup>* s s' \<Longrightarrow> serving_inv H s \<Longrightarrow> \<forall>i hs. H i = Some hs \<longrightarrow> distinct hs \<Longrightarrow> serving_inv H s'"
  by (induction rule: rtranclp_induct) (auto intro: serving_step_inv)

text \<open>
  Claim C35. Asynchronous dispatch is first in, first out. From the state in which the handlers have registered, in every run in
  which threads dispatch events and the dispatcher's thread works on them, the calls of \<^verbatim>\<open>onEvent\<close> are those owed to a beginning of the sequence
  of dispatched events, each event for each of its handlers once; nothing is lost when the thread has nothing to do.
\<close>

theorem dispatch_async_fifo:
  assumes "\<forall>i hs. H i = Some hs \<longrightarrow> distinct hs" "serving_step\<^sup>*\<^sup>* (dispatcher0\<lparr>mHandlers := H\<rparr>) s"
  shows "\<exists>n. filter is_async (deliveries s) = concat (map (owed H) (take n (dispatched s)))
    \<and> (mQueue s = [] \<and> held_event s = [] \<longrightarrow> n = length (dispatched s))"
proof -
  have "serving_inv H (dispatcher0\<lparr>mHandlers := H\<rparr>)" by (simp add: serving_inv_def dispatcher0_def held_event_def)
  then have inv: "serving_inv H s" using serving_run_inv assms by blast
  then obtain es where es: "taken_out s = es @ held_event s" "filter is_async (deliveries s) = concat (map (owed H) es)"
      "dispatched s = taken_out s @ mQueue s" by (auto simp: serving_inv_def)
  then have "take (length es) (dispatched s) = es" "mQueue s = [] \<Longrightarrow> held_event s = [] \<Longrightarrow> length es = length (dispatched s)"
    by simp_all
  then show ?thesis using es(2) by (intro exI [of _ "length es"]) simp
qed

theorem dispatch_async_fifo_witness:
  "\<exists>n. filter is_async (deliveries (snd (dispatch_async (Some sample_event) (dispatcher0\<lparr>mHandlers := [0 \<mapsto> [5, 6]]\<rparr>))))
    = concat (map (owed [0 \<mapsto> [5, 6]]) (take n [sample_event]))"
proof -
  define s where "s = snd (dispatch_async (Some sample_event) (dispatcher0\<lparr>mHandlers := [0 \<mapsto> [5, 6]]\<rparr>))"
  have d: "\<forall>i hs. [0 \<mapsto> [5 :: nat, 6]] i = Some hs \<longrightarrow> distinct hs" by (auto split: if_splits)
  have "serving_step (dispatcher0\<lparr>mHandlers := [0 \<mapsto> [5, 6]]\<rparr>) s"
    unfolding s_def by (rule serving_step.async [OF prod.collapse [symmetric]])
  then have run: "serving_step\<^sup>*\<^sup>* (dispatcher0\<lparr>mHandlers := [0 \<mapsto> [5, 6]]\<rparr>) s" by (rule r_into_rtranclp)
  from dispatch_async_fifo [OF d run] have
    "\<exists>n. filter is_async (deliveries s) = concat (map (owed [0 \<mapsto> [5, 6]]) (take n (dispatched s)))" by blast
  moreover have "dispatched s = [sample_event]" by (simp add: s_def dispatch_async_def dispatcher0_def)
  ultimately show ?thesis unfolding s_def by simp
qed

end
