(* ===== verification/Capture.thy ===== *)
theory Capture
  imports TCPPacket
begin

text \<open>
  \<^verbatim>\<open>core/PacketCapture.h\<close> and \<^verbatim>\<open>core/PacketCapture.cpp\<close>: packets are copied into segments, queued in a dispatcher of their own and
  written to a pcap file by its thread.
\<close>

section \<open>The file\<close>

definition PCAP_RECORD_SIZE :: u32 where "PCAP_RECORD_SIZE = 65536"
definition MAX_PCAP_FILE_SIZE :: nat where "MAX_PCAP_FILE_SIZE = 67108864"

text \<open>The content of the file that is open, if one is, and of those that were closed.\<close>

record capture =
  mPcapFd :: "bytes option"
  closed_files :: "bytes list"

definition capture0 :: capture where
  "capture0 = \<lparr>mPcapFd = None, closed_files = []\<rparr>"

text \<open>\<^verbatim>\<open>PcapHdr\<close> and \<^verbatim>\<open>PcapRecHdr\<close> as they are in memory.\<close>

definition pcap_hdr :: bytes where
  "pcap_hdr = st32 0xA1B2C3D4 @ st16 2 @ st16 4 @ st32 0 @ st32 0 @ st32 64 @ st32 101"

definition pcap_rec :: "u32 \<Rightarrow> u32 \<Rightarrow> u32 \<Rightarrow> u32 \<Rightarrow> bytes" where
  "pcap_rec sec usec incl orig = st32 sec @ st32 usec @ st32 incl @ st32 orig"

text \<open>
  \<^verbatim>\<open>generatePcapFilePath\<close>: the directory of the settings, \<^term>\<open>None\<close> when it is \<^verbatim>\<open>NULL\<close>, and the date. \<^verbatim>\<open>snprintf\<close> cuts the path off
  after \<open>len - 1\<close> characters.
\<close>

definition generatePcapFilePath :: "string option \<Rightarrow> string \<Rightarrow> byte \<Rightarrow> string option" where
  "generatePcapFilePath dir date len =
     (case dir of
        None \<Rightarrow> None
      | Some d \<Rightarrow>
          if unat len > length date + length d then Some (take (unat len - 1) (d @ date @ ''.pcap'')) else None)"

text \<open>\<open>ok\<close> is the success of \<^verbatim>\<open>fwrite\<close>, which fails for no bytes.\<close>

definition writeFile :: "bool \<Rightarrow> bytes \<Rightarrow> capture \<Rightarrow> u32 \<times> capture" where
  "writeFile ok data s =
     (case mPcapFd s of
        None \<Rightarrow> (0, s)
      | Some f \<Rightarrow>
          if \<not> ok \<or> data = [] then (0, s)
          else (let f' = f @ data
                in (word_of_nat (length data),
                    if length f' > MAX_PCAP_FILE_SIZE
                    then s\<lparr>mPcapFd := None, closed_files := closed_files s @ [f']\<rparr>
                    else s\<lparr>mPcapFd := Some f'\<rparr>)))"

section \<open>The handler\<close>

text \<open>
  A start comes with the directory, the date, what the file held before (\<^term>\<open>None\<close> when it cannot be opened) and the success of
  the write; a packet with the seconds and nanoseconds of the clock and the success of the two writes.
\<close>

datatype capture_event =
    CAPTURE_START "string option" string "bytes option" bool
  | CAPTURE_STOP
  | CAPTURE_PACKET segment u32 u32 bool bool

definition capture_onEvent :: "capture_event \<Rightarrow> capture \<Rightarrow> capture option" where
  "capture_onEvent e s =
     (case e of
        CAPTURE_START dir date existing ok \<Rightarrow>
          Some (if mPcapFd s = None
                then (case generatePcapFilePath dir date 128 of
                        None \<Rightarrow> s
                      | Some path \<Rightarrow>
                          (case existing of
                             None \<Rightarrow> s
                           | Some f \<Rightarrow> snd (writeFile ok pcap_hdr (s\<lparr>mPcapFd := Some f\<rparr>))))
                else s)
      | CAPTURE_STOP \<Rightarrow>
          Some (case mPcapFd s of None \<Rightarrow> s | Some f \<Rightarrow> s\<lparr>mPcapFd := None, closed_files := closed_files s @ [f]\<rparr>)
      | CAPTURE_PACKET sg sec nsec ok1 ok2 \<Rightarrow>
          (let size = seg_size sg;
               s1 = (if mPcapFd s \<noteq> None
                     then (let len = (if size < PCAP_RECORD_SIZE then size else PCAP_RECORD_SIZE);
                               s0 = snd (writeFile ok1 (pcap_rec sec (nsec div 1000) len size) s)
                           in snd (writeFile ok2 (take (unat len) (seg_bytes sg)) s0))
                     else s)
           in if seg_delete_ok sg then Some s1 else None))"

text \<open>\<^verbatim>\<open>write\<close>: the segment of the event it dispatches, if it dispatches one.\<close>

definition capture_write :: "bytes \<Rightarrow> segment option option" where
  "capture_write data =
     (if data = [] then Some None
      else do { (n, sg) \<leftarrow> seg_write data (word_of_nat (length data)) (segment_new (word_of_nat (length data)));
                Some (Some sg) })"

section \<open>A reader of such files\<close>

function read_records :: "bytes \<Rightarrow> (u32 \<times> u32 \<times> bytes) list option" where
  "read_records bs =
     (if bs = [] then Some []
      else if length bs < 16 then None
      else
        (let m = mem_of bs; incl = unat (ld32 m 8); rest = drop 16 bs
         in if length rest < incl then None
            else map_option (Cons (ld32 m 0, ld32 m 4, take incl rest)) (read_records (drop incl rest))))"
  by pat_completeness auto

termination read_records
  by (relation "measure length") auto

declare read_records.simps [simp del]

definition read_pcap :: "bytes \<Rightarrow> (u32 \<times> u32 \<times> bytes) list option" where
  "read_pcap bs = (if take 24 bs = pcap_hdr then read_records (drop 24 bs) else None)"

lemma length_pcap [simp]: "length pcap_hdr = 24" "length (pcap_rec a b c d) = 16"
  by (simp_all add: pcap_hdr_def pcap_rec_def)

lemma read_records_Cons:
  assumes "length data = unat n"
  shows "read_records (pcap_rec sec usec n orig @ data @ bs) = map_option (Cons (sec, usec, data)) (read_records bs)"
proof -
  define m where "m = mem_of (pcap_rec sec usec n orig @ data @ bs)"
  have l: "laid_out m 0 (pcap_rec sec usec n orig)"
    using laid_out_mem_of [of "[]" "pcap_rec sec usec n orig" "data @ bs"] by (simp add: m_def)
  then have f: "ld32 m 0 = sec" "ld32 m 4 = usec" "ld32 m 8 = n"
    unfolding pcap_rec_def laid_out_append by (auto dest!: ld32_st32)
  have ne: "pcap_rec sec usec n orig \<noteq> []"
    using length_pcap(2) [of sec usec n orig] by (metis list.size(3) zero_neq_numeral)
  then have i: "(pcap_rec sec usec n orig @ data @ bs = []) = False" by simp
  show ?thesis
    by (subst read_records.simps, unfold m_def [symmetric] Let_def f i) (use assms in simp)
qed

section \<open>A packet through the dispatcher\<close>

lemma capture_write_segment:
  assumes "data \<noteq> []" "length data \<le> 524288"
  shows "\<exists>sg. capture_write data = Some (Some sg) \<and> seg_inv sg \<and> seg_bytes sg = data \<and> seg_delete_ok sg
     \<and> seg_size sg = word_of_nat (length data)"
proof -
  let ?n = "word_of_nat (length data) :: size_t"
  have n: "unat ?n = length data"
    using assms(2) by (simp add: unat_of_nat take_bit_eq_mod)
  have size: "unat (seg_remain (segment_new ?n)) = length data"
    using assms n by (auto simp: segment_new_def seg_remain_def word_less_nat_alt word_le_nat_alt Suc_le_eq)
  obtain sg where w: "seg_write data ?n (segment_new ?n) = Some (min ?n (seg_remain (segment_new ?n)), sg)"
      and inv: "seg_inv sg" and "seg_bytes sg = data"
    using seg_write_cases [OF segment_new_inv, of ?n data ?n] size n assms(2) by auto
  moreover from this have "seg_delete_ok sg"
    using assms(1) by (auto simp: seg_delete_ok_def seg_bytes_def split: option.splits)
  moreover have "seg_size sg = ?n"
    using seg_size_bytes [OF inv] n \<open>seg_bytes sg = data\<close> by (simp add: word_unat_eq_iff)
  ultimately show ?thesis
    using assms(1) by (simp add: capture_write_def)
qed

text \<open>\<^verbatim>\<open>write\<close> and the event it dispatches, when it is handled; all writes to the file succeed.\<close>

definition capture_packet :: "u32 \<times> u32 \<times> bytes \<Rightarrow> capture \<Rightarrow> capture option" where
  "capture_packet p s =
     (case p of (sec, nsec, data) \<Rightarrow>
        do { r \<leftarrow> capture_write data;
             case r of None \<Rightarrow> Some s | Some sg \<Rightarrow> capture_onEvent (CAPTURE_PACKET sg sec nsec True True) s })"

fun capture_packets :: "(u32 \<times> u32 \<times> bytes) list \<Rightarrow> capture \<Rightarrow> capture option" where
  "capture_packets [] s = Some s"
| "capture_packets (p # ps) s = do { s1 \<leftarrow> capture_packet p s; capture_packets ps s1 }"

definition record_of :: "u32 \<times> u32 \<times> bytes \<Rightarrow> bytes" where
  "record_of p =
     (case p of (sec, nsec, data) \<Rightarrow>
        pcap_rec sec (nsec div 1000) (word_of_nat (length data)) (word_of_nat (length data)) @ data)"

definition record_ok :: "u32 \<times> u32 \<times> bytes \<Rightarrow> bool" where
  "record_ok p \<longleftrightarrow> snd (snd p) \<noteq> [] \<and> length (snd (snd p)) \<le> 65536"

lemma writeFile_fits:
  "mPcapFd s = Some f \<Longrightarrow> data \<noteq> [] \<Longrightarrow> length f + length data \<le> MAX_PCAP_FILE_SIZE
    \<Longrightarrow> writeFile True data s = (word_of_nat (length data), s\<lparr>mPcapFd := Some (f @ data)\<rparr>)"
  by (simp add: writeFile_def Let_def)

lemma pcap_rec_nonempty [simp]: "pcap_rec a b c d \<noteq> []"
  using length_pcap(2) [of a b c d] by (metis list.size(3) zero_neq_numeral)

lemma capture_packet_append:
  assumes "record_ok p" "mPcapFd s = Some f" "length f + length (record_of p) \<le> MAX_PCAP_FILE_SIZE"
  shows "capture_packet p s = Some (s\<lparr>mPcapFd := Some (f @ record_of p)\<rparr>)"
proof -
  obtain sec nsec data where p: "p = (sec, nsec, data)" by (metis prod_cases3)
  have data: "data \<noteq> []" "length data \<le> 65536" using assms(1) by (simp_all add: p record_ok_def)
  let ?n = "word_of_nat (length data) :: u32"
  obtain sg where sg: "capture_write data = Some (Some sg)" "seg_bytes sg = data" "seg_delete_ok sg" "seg_size sg = ?n"
    using capture_write_segment [of data] data by auto
  have n: "unat ?n = length data" using data(2) by (simp add: unat_of_nat take_bit_eq_mod)
  have len: "(if seg_size sg < PCAP_RECORD_SIZE then seg_size sg else PCAP_RECORD_SIZE) = ?n"
    using data(2) n sg(4) by (simp add: PCAP_RECORD_SIZE_def word_less_nat_alt word_unat_eq_iff)
  have w1: "writeFile True (pcap_rec sec (nsec div 1000) ?n ?n) s
      = (16, s\<lparr>mPcapFd := Some (f @ pcap_rec sec (nsec div 1000) ?n ?n)\<rparr>)"
    using writeFile_fits [OF assms(2), of "pcap_rec sec (nsec div 1000) ?n ?n"] assms(3) by (simp add: p record_of_def)
  have w2: "snd (writeFile True data (s\<lparr>mPcapFd := Some (f @ pcap_rec sec (nsec div 1000) ?n ?n)\<rparr>))
      = s\<lparr>mPcapFd := Some (f @ record_of p)\<rparr>"
    using writeFile_fits [of "s\<lparr>mPcapFd := Some (f @ pcap_rec sec (nsec div 1000) ?n ?n)\<rparr>"
      "f @ pcap_rec sec (nsec div 1000) ?n ?n" data] assms(3) data(1)
    by (simp add: p record_of_def)
  have "capture_onEvent (CAPTURE_PACKET sg sec nsec True True) s = Some (s\<lparr>mPcapFd := Some (f @ record_of p)\<rparr>)"
    unfolding capture_onEvent_def capture_event.case Let_def len unfolding sg n w1 snd_conv
    using assms(2) sg(3) w2 by simp
  then show ?thesis
    using sg(1) by (simp add: p capture_packet_def)
qed

lemma capture_packets_append:
  assumes "\<forall>p \<in> set ps. record_ok p" "mPcapFd s = Some f"
    "length f + length (concat (map record_of ps)) \<le> MAX_PCAP_FILE_SIZE"
  shows "capture_packets ps s = Some (s\<lparr>mPcapFd := Some (f @ concat (map record_of ps))\<rparr>)"
  using assms
proof (induction ps arbitrary: s f)
  case Nil
  then show ?case by simp
next
  case (Cons p ps)
  have "capture_packet p s = Some (s\<lparr>mPcapFd := Some (f @ record_of p)\<rparr>)"
    using Cons.prems by (intro capture_packet_append) auto
  then show ?case
    using Cons.prems by (simp add: Cons.IH [where f = "f @ record_of p"])
qed

lemma read_records_of:
  "\<forall>p \<in> set ps. record_ok p
    \<Longrightarrow> read_records (concat (map record_of ps)) = Some (map (\<lambda>(sec, nsec, data). (sec, nsec div 1000, data)) ps)"
proof (induction ps)
  case Nil
  show ?case by (subst read_records.simps) simp
next
  case (Cons p ps)
  obtain sec nsec data where p: "p = (sec, nsec, data)" by (metis prod_cases3)
  have "length data = unat (word_of_nat (length data) :: u32)"
    using Cons.prems by (simp add: p record_ok_def unat_of_nat take_bit_eq_mod)
  then show ?case
    using Cons by (simp add: p record_of_def read_records_Cons)
qed

text \<open>
  Claim C36. Captures read back. A capture that starts a new file, writes packets of one to 65536 bytes and stops before the file has
  reached its limit leaves a pcap file whose records are exactly those packets with their times in microseconds, in order.
\<close>

theorem pcap_roundtrip:
  assumes "mPcapFd s = None" "generatePcapFilePath dir date 128 = Some path" "\<forall>p \<in> set ps. record_ok p"
    "24 + length (concat (map record_of ps)) \<le> MAX_PCAP_FILE_SIZE"
  shows "\<exists>file. do { s1 \<leftarrow> capture_onEvent (CAPTURE_START dir date (Some []) True) s; s2 \<leftarrow> capture_packets ps s1;
                     capture_onEvent CAPTURE_STOP s2 }
           = Some \<lparr>mPcapFd = None, closed_files = closed_files s @ [file]\<rparr>
       \<and> read_pcap file = Some (map (\<lambda>(sec, nsec, data). (sec, nsec div 1000, data)) ps)"
proof -
  have ne: "pcap_hdr \<noteq> []" using length_pcap(1) by (metis list.size(3) zero_neq_numeral)
  have w: "writeFile True pcap_hdr (s\<lparr>mPcapFd := Some []\<rparr>) = (24, s\<lparr>mPcapFd := Some pcap_hdr\<rparr>)"
    using writeFile_fits [of "s\<lparr>mPcapFd := Some []\<rparr>" "[]" pcap_hdr] ne by (simp add: MAX_PCAP_FILE_SIZE_def)
  have "capture_onEvent (CAPTURE_START dir date (Some []) True) s = Some (s\<lparr>mPcapFd := Some pcap_hdr\<rparr>)"
    using assms(1,2) by (simp add: capture_onEvent_def w)
  moreover have "capture_packets ps (s\<lparr>mPcapFd := Some pcap_hdr\<rparr>)
      = Some (s\<lparr>mPcapFd := Some (pcap_hdr @ concat (map record_of ps))\<rparr>)"
    using assms(3,4) by (subst capture_packets_append [where f = pcap_hdr]) simp_all
  moreover have "read_pcap (pcap_hdr @ concat (map record_of ps))
      = Some (map (\<lambda>(sec, nsec, data). (sec, nsec div 1000, data)) ps)"
    using assms(3) by (simp add: read_pcap_def read_records_of)
  ultimately show ?thesis
    by (intro exI [of _ "pcap_hdr @ concat (map record_of ps)"]) (simp add: capture_onEvent_def)
qed

lemma pcap_roundtrip_witness:
  "\<exists>file. do { s1 \<leftarrow> capture_onEvent (CAPTURE_START (Some ''/sdcard/'') ''0101_10_20_30'' (Some []) True) capture0;
              s2 \<leftarrow> capture_packets [(7, 5000, [0x45, 0]), (8, 999, [1])] s1; capture_onEvent CAPTURE_STOP s2 }
           = Some \<lparr>mPcapFd = None, closed_files = closed_files capture0 @ [file]\<rparr>
       \<and> read_pcap file = Some (map (\<lambda>(sec, nsec, data). (sec, nsec div 1000, data)) [(7, 5000, [0x45, 0]), (8, 999, [1])])"
proof (rule pcap_roundtrip)
  show "mPcapFd capture0 = None" by (simp add: capture0_def)
  show "generatePcapFilePath (Some ''/sdcard/'') ''0101_10_20_30'' 128 = Some ''/sdcard/0101_10_20_30.pcap''"
    by (simp add: generatePcapFilePath_def)
  show "\<forall>p \<in> set [(7, 5000, [0x45, 0]), (8, 999, [1])]. record_ok p" by (simp add: record_ok_def)
  show "24 + length (concat (map record_of [(7, 5000, [0x45, 0]), (8, 999, [1])])) \<le> MAX_PCAP_FILE_SIZE"
    by (simp add: record_of_def MAX_PCAP_FILE_SIZE_def)
qed

section \<open>The size of the files\<close>

definition capture_bounded :: "capture \<Rightarrow> bool" where
  "capture_bounded s \<longleftrightarrow>
     (\<forall>f. mPcapFd s = Some f \<longrightarrow> length f \<le> MAX_PCAP_FILE_SIZE)
     \<and> (\<forall>f \<in> set (closed_files s). length f \<le> MAX_PCAP_FILE_SIZE + 65536)"

lemma writeFile_bounded:
  assumes "capture_bounded s" "length data \<le> 65536"
  shows "capture_bounded (snd (writeFile ok data s))"
  using assms by (auto simp: capture_bounded_def writeFile_def Let_def split: option.splits)

fun event_bounded :: "capture_event \<Rightarrow> bool" where
  "event_bounded (CAPTURE_START dir date (Some f) ok) = (length f \<le> MAX_PCAP_FILE_SIZE)"
| "event_bounded e = True"

lemma capture_onEvent_bounded:
  assumes "capture_bounded s" "event_bounded e" "capture_onEvent e s = Some s'"
  shows "capture_bounded s'"
proof (cases e)
  case (CAPTURE_START dir date existing ok)
  show ?thesis
  proof (cases "mPcapFd s = None \<and> generatePcapFilePath dir date 128 \<noteq> None \<and> existing \<noteq> None")
    case True
    then obtain f where f: "existing = Some f" by auto
    then have "capture_bounded (s\<lparr>mPcapFd := Some f\<rparr>)"
      using assms(1,2) CAPTURE_START by (simp add: capture_bounded_def)
    then show ?thesis
      using assms(3) CAPTURE_START True f writeFile_bounded [of "s\<lparr>mPcapFd := Some f\<rparr>" pcap_hdr ok]
      by (auto simp: capture_onEvent_def)
  next
    case False
    then show ?thesis
      using assms(1,3) CAPTURE_START by (auto simp: capture_onEvent_def split: if_splits option.splits)
  qed
next
  case CAPTURE_STOP
  then show ?thesis
    using assms(1,3) by (auto simp: capture_onEvent_def capture_bounded_def split: option.splits)
next
  case (CAPTURE_PACKET sg sec nsec ok1 ok2)
  define len where "len = (if seg_size sg < PCAP_RECORD_SIZE then seg_size sg else PCAP_RECORD_SIZE)"
  have "unat len \<le> 65536"
    by (auto simp: len_def PCAP_RECORD_SIZE_def word_less_nat_alt)
  then have "capture_bounded (snd (writeFile ok2 (take (unat len) (seg_bytes sg))
      (snd (writeFile ok1 (pcap_rec sec (nsec div 1000) len (seg_size sg)) s))))"
    using assms(1) by (intro writeFile_bounded) auto
  then show ?thesis
    using assms(1,3) CAPTURE_PACKET by (auto simp: capture_onEvent_def Let_def len_def split: if_splits)
qed

fun capture_run :: "capture_event list \<Rightarrow> capture \<Rightarrow> capture option" where
  "capture_run [] s = Some s"
| "capture_run (e # es) s = do { s1 \<leftarrow> capture_onEvent e s; capture_run es s1 }"

text \<open>
  Whatever events are handled, an open file never exceeds \<^verbatim>\<open>MAX_PACP_FILE_SIZE\<close> and no closed one exceeds it by more than a
  record, when the files it appends to did not.
\<close>

theorem pcap_bounded:
  assumes "\<forall>e \<in> set es. event_bounded e" "capture_run es capture0 = Some s"
  shows "capture_bounded s"
proof -
  have "capture_bounded s" if "capture_bounded s0" "\<forall>e \<in> set es. event_bounded e" "capture_run es s0 = Some s" for s0
    using that
  proof (induction es arbitrary: s0)
    case (Cons e es)
    then obtain s1 where "capture_onEvent e s0 = Some s1" "capture_run es s1 = Some s"
      by (auto split: bind_splits)
    with Cons show ?case using capture_onEvent_bounded [of s0 e s1] by auto
  qed simp
  moreover have "capture_bounded capture0" by (simp add: capture0_def capture_bounded_def)
  ultimately show ?thesis using assms by blast
qed

end
