(* ===== verification/Config.thy ===== *)
theory Config
  imports Socks5 Address "HOL-Library.Monad_Syntax"
begin

text \<open>
  \<^verbatim>\<open>settings/Settings.h\<close> and \<^verbatim>\<open>settings/Settings.cpp\<close>: the table of settings the application fills through \<^verbatim>\<open>VpnIface.cpp\<close>, and how the SOCKS5
  tunnel reads it. \<open>lock\<close> is the success of \<^verbatim>\<open>pthread_mutex_lock\<close>.
\<close>

section \<open>The table\<close>

datatype key =
    SK_LOG_LEVEL | SK_PROXY_ADDR | SK_PROXY_PORT | SK_SOCKS5_VERIFY_METHOD | SK_SOCKS5_USERNAME | SK_SOCKS5_PASSWORD
  | SK_PROXY_IPVER | SK_PROXY_DNS_SERVER | SK_CAPTURE_DIRECTORY

type_synonym settings = "key \<Rightarrow> string option"

text \<open>\<^verbatim>\<open>Error::SUCCESS\<close> is 0 and \<^verbatim>\<open>Error::FAILED\<close> is 3.\<close>

definition setSetting :: "bool \<Rightarrow> key \<Rightarrow> string \<Rightarrow> settings \<Rightarrow> int \<times> settings" where
  "setSetting lock k v s = (if lock then (0, s(k \<mapsto> v)) else (3, s))"

definition getSSetting :: "bool \<Rightarrow> key \<Rightarrow> string option \<Rightarrow> settings \<Rightarrow> string option" where
  "getSSetting lock k def_value s =
     (if lock then (case s k of Some v \<Rightarrow> Some v | None \<Rightarrow> def_value) else def_value)"

text \<open>\<^verbatim>\<open>atoi\<close>: white space, a sign and digits; a number outside the 32 bits of \<^verbatim>\<open>int\<close> is undefined.\<close>

definition is_space :: "char \<Rightarrow> bool" where
  "is_space c \<longleftrightarrow> of_char c \<in> {9, 10, 11, 12, 13, 32 :: nat}"

definition atoi :: "string \<Rightarrow> int option" where
  "atoi cs =
     (let n = (case dropWhile is_space cs of
                 [] \<Rightarrow> 0
               | c # r \<Rightarrow> if c = CHR ''-'' then - digits_value 0 r else if c = CHR ''+'' then digits_value 0 r else digits_value 0 (c # r))
      in if - (2 ^ 31) \<le> n \<and> n < 2 ^ 31 then Some n else None)"

definition getISetting :: "bool \<Rightarrow> key \<Rightarrow> int \<Rightarrow> settings \<Rightarrow> int option" where
  "getISetting lock k def_value s =
     (case getSSetting lock k None s of Some v \<Rightarrow> atoi v | None \<Rightarrow> Some def_value)"

text \<open>
  What the SOCKS5 tunnel reads: \<^verbatim>\<open>getS5VerifyMethods\<close> and \<^verbatim>\<open>sendS5Account\<close>. The byte \<open>stale\<close> is no setting: it is what
  \<^verbatim>\<open>sTemporary\<close> holds (\<^verbatim>\<open>handleS5ConnBack\<close> of \<open>Socks5\<close>).
\<close>

definition s5conf_of :: "byte \<Rightarrow> settings \<Rightarrow> s5conf option" where
  "s5conf_of stale s =
     map_option (\<lambda>m. \<lparr>verifyMethod = word_of_int m,
                       s5User = map_option (map of_char) (getSSetting True SK_SOCKS5_USERNAME None s),
                       s5Password = map_option (map of_char) (getSSetting True SK_SOCKS5_PASSWORD None s),
                       s5Stale = stale\<rparr>)
       (getISetting True SK_SOCKS5_VERIFY_METHOD 0 s)"

text \<open>
  The SOCKS5 server, as the sessions read it for a new tunnel and \<^verbatim>\<open>ITunnel\<close> stores it: \<open>None\<close> inside is a tunnel without a remote address,
  because the version is not 4 or the port, cut to 16 bits, is 0.
\<close>

definition proxy_sockaddr :: "settings \<Rightarrow> (u32 \<times> u16) option option" where
  "proxy_sockaddr s =
     do { port \<leftarrow> getISetting True SK_PROXY_PORT 0 s;
          ver \<leftarrow> getISetting True SK_PROXY_IPVER 0 s;
          let addr = the (getSSetting True SK_PROXY_ADDR (Some []) s);
          let p = (word_of_int port :: u16);
          Some (if ver = 4 \<and> p \<noteq> 0 then Some (IPStr2Int addr, swap16 p) else None) }"

section \<open>Stores\<close>

text \<open>What the readers of the settings rely on.\<close>

locale store =
  fixes put :: "'k \<Rightarrow> 'v \<Rightarrow> 's \<Rightarrow> 's"
    and get :: "'k \<Rightarrow> 's \<Rightarrow> 'v option"
  assumes get_put: "get k (put k v s) = Some v"
    and get_put_other: "k \<noteq> k' \<Longrightarrow> get k (put k' v s) = get k s"
begin

text \<open>The last write to a key counts, whatever else is written.\<close>

lemma get_writes:
  "get k (fold (\<lambda>(k', v). put k' v) ws s) =
     (case filter (\<lambda>w. fst w = k) ws of [] \<Rightarrow> get k s | v # vs \<Rightarrow> Some (snd (last (v # vs))))"
proof (induction ws arbitrary: s)
  case (Cons w ws)
  obtain k' v where w: "w = (k', v)" by (cases w)
  show ?case
    by (cases "k' = k") (auto simp: w Cons get_put get_put_other split: list.splits)
qed simp

end

interpretation config: store "\<lambda>k v s. snd (setSetting True k v s)" "\<lambda>k s. getSSetting True k None s"
  by unfold_locales (auto simp: setSetting_def getSSetting_def split: option.splits)

section \<open>Numbers\<close>

lemma digit_no_space:
  assumes "n < 10"
  shows "\<not> is_space (digit n)"
proof -
  have "n \<in> set [0..<10]" using assms by simp
  moreover have "\<forall>n \<in> set [0..<10]. \<not> is_space (digit n)"
    by (simp add: upt_rec is_space_def digit_def)
  ultimately show ?thesis by blast
qed

lemma atoi_decimal:
  assumes "n < 2 ^ 31"
  shows "atoi (decimal n) = Some (int n)"
proof -
  obtain d ds where d: "decimal n = digit d # ds" "d < 10" using decimal_first by blast
  have "int n < 2 ^ 31" using assms by (metis of_nat_less_iff of_nat_numeral of_nat_power)
  then show ?thesis
    using decimal_value [of n] digit_char [OF d(2)] digit_no_space [OF d(2)] by (simp add: atoi_def d(1) Let_def)
qed

text \<open>A number the application set as text is read back as that number, whatever is set for other keys afterwards.\<close>

theorem settings_number:
  assumes "n < 2 ^ 31" "\<forall>w \<in> set ws. fst w \<noteq> k"
  shows "getISetting True k d (fold (\<lambda>(k', v) s. snd (setSetting True k' v s)) ws (snd (setSetting True k (decimal n) s))) = Some (int n)"
proof -
  have none: "filter (\<lambda>w. fst w = k) ws = []" using assms(2) by (simp add: filter_empty_conv)
  have "getSSetting True k None (fold (\<lambda>(k', v) s. snd (setSetting True k' v s)) ws (snd (setSetting True k (decimal n) s)))
      = Some (decimal n)"
    using config.get_writes [of k ws] none config.get_put by (simp add: case_prod_unfold)
  then show ?thesis by (simp add: getISetting_def atoi_decimal [OF assms(1)])
qed


lemma setting_after:
  "map_of (rev ws) k = Some v
    \<Longrightarrow> getSSetting True k d (fold (\<lambda>(k', v) s. snd (setSetting True k' v s)) ws s) = Some v"
  by (induction ws arbitrary: s rule: rev_induct) (auto simp: getSSetting_def setSetting_def split: if_splits)

text \<open>
  When the application has last set the address of the SOCKS5 server to the text of an address, the port to the decimal notation
  of a port that is not 0 and the version to 4, whatever else it sets before, after and in between, a session connects its tunnel to exactly
  that address and port, in network byte order.
\<close>

theorem proxy_address_used:
  assumes "map_of (rev ws) SK_PROXY_ADDR = Some (dotted_quad a)"
    and "map_of (rev ws) SK_PROXY_PORT = Some (decimal (unat p))"
    and "map_of (rev ws) SK_PROXY_IPVER = Some ''4''" and "p \<noteq> 0"
  shows "proxy_sockaddr (fold (\<lambda>(k, v) s. snd (setSetting True k v s)) ws Map.empty) = Some (Some (a, swap16 p))"
proof -
  have "unat p < 2 ^ LENGTH(16)" by (rule unsigned_less)
  then have "unat p < 2 ^ 31" by simp
  moreover have "''4'' = decimal 4" by code_simp
  ultimately show ?thesis
    using setting_after [OF assms(1)] setting_after [OF assms(2)] setting_after [OF assms(3)] assms(4)
    by (simp add: proxy_sockaddr_def getISetting_def atoi_decimal IPStr2Int_dotted)
qed

lemma proxy_address_used_witness:
  "proxy_sockaddr (fold (\<lambda>(k, v) s. snd (setSetting True k v s))
     [(SK_PROXY_ADDR, ''10.0.0.1''), (SK_LOG_LEVEL, ''3''), (SK_PROXY_PORT, ''1080''), (SK_PROXY_IPVER, ''4'')] Map.empty)
   = Some (Some (0x0100000A, 0x3804))"
proof -
  have "dotted_quad 0x0100000A = ''10.0.0.1''" "decimal (unat (1080 :: u16)) = ''1080''" "swap16 1080 = 0x3804" by code_simp+
  then show ?thesis
    using proxy_address_used [of "[(SK_PROXY_ADDR, ''10.0.0.1''), (SK_LOG_LEVEL, ''3''), (SK_PROXY_PORT, ''1080''), (SK_PROXY_IPVER, ''4'')]"
      "0x0100000A" 1080] by simp
qed

end
