(* ===== verification/Report.thy ===== *)
theory Report
  imports UDPSession Address
begin

text \<open>
  The reports about connections for the user interface: \<^verbatim>\<open>ConnInfo\<close> of \<^verbatim>\<open>core/Session.h\<close> and the functions \<^verbatim>\<open>toConnInfo\<close> of
  \<^verbatim>\<open>core/Session.cpp\<close>, \<^verbatim>\<open>core/TCPSession.cpp\<close> and \<^verbatim>\<open>core/UDPSession.cpp\<close>.
\<close>

section \<open>Reports\<close>

text \<open>The address is text in an array of 64 bytes. The counters of the session have 32 bits, those of the report 64.\<close>

record conn_info =
  ci_id :: u32
  ci_uid :: int
  ci_dest :: string
  ci_destPort :: int
  ci_type :: byte
  ci_state :: byte
  ci_accept :: "64 word"
  ci_back :: "64 word"
  ci_sent :: "64 word"
  ci_recv :: "64 word"
  ci_flag :: u32
  ci_size :: u32

text \<open>\<^verbatim>\<open>new ConnInfo\<close>; the fields without an initial value are 0 here and assigned before they are read.\<close>

definition conn_info0 :: conn_info where
  "conn_info0 = \<lparr>ci_id = 0, ci_uid = 0, ci_dest = [], ci_destPort = 0, ci_type = 0, ci_state = 0, ci_accept = 0, ci_back = 0,
     ci_sent = 0, ci_recv = 0, ci_flag = 0, ci_size = 0\<rparr>"

text \<open>What the base class knows of a session, and the report made of it.\<close>

record session_info =
  si_id :: u32
  si_uid :: int
  si_protocol :: byte
  si_destAddr :: u32
  si_destPort :: u16
  si_accept :: u32
  si_back :: u32
  si_sent :: u32
  si_recv :: u32

definition toConnInfo :: "session_info \<Rightarrow> int \<Rightarrow> packet option \<Rightarrow> conn_info \<Rightarrow> conn_info" where
  "toConnInfo s sz ip info =
     info\<lparr>ci_id := si_id s, ci_uid := si_uid s, ci_type := si_protocol s, ci_accept := ucast (si_accept s),
          ci_back := ucast (si_back s), ci_sent := ucast (si_sent s), ci_recv := ucast (si_recv s),
          ci_dest := (case IPInt2Str (si_destAddr s) 64 of Some t \<Rightarrow> t | None \<Rightarrow> ci_dest info), ci_destPort := uint (swap16 (si_destPort s)),
          ci_size := (case ip of Some p \<Rightarrow> word_of_int (getPayloadLen p) | None \<Rightarrow> word_of_int sz)\<rparr>"

definition TCPF_FIN :: u32 where "TCPF_FIN = 1"
definition TCPF_SYN :: u32 where "TCPF_SYN = 2"
definition TCPF_RST :: u32 where "TCPF_RST = 4"
definition TCPF_PSH :: u32 where "TCPF_PSH = 8"
definition TCPF_ACK :: u32 where "TCPF_ACK = 16"
definition TCPF_URG :: u32 where "TCPF_URG = 32"
definition TCPF_ECE :: u32 where "TCPF_ECE = 64"
definition TCPF_CWR :: u32 where "TCPF_CWR = 128"

lemmas tcpf_defs = TCPF_FIN_def TCPF_SYN_def TCPF_RST_def TCPF_PSH_def TCPF_ACK_def TCPF_URG_def TCPF_ECE_def TCPF_CWR_def

text \<open>The bits of the flags as the bit fields of \<^verbatim>\<open>TCPHeader\<close> number them.\<close>

definition report_flags :: "byte \<Rightarrow> u32 \<Rightarrow> u32" where
  "report_flags f flag =
     (let flag = (if bit f 0 then flag OR TCPF_FIN else flag);
          flag = (if bit f 1 then flag OR TCPF_SYN else flag);
          flag = (if bit f 2 then flag OR TCPF_RST else flag);
          flag = (if bit f 3 then flag OR TCPF_PSH else flag);
          flag = (if bit f 4 then flag OR TCPF_ACK else flag);
          flag = (if bit f 5 then flag OR TCPF_URG else flag);
          flag = (if bit f 6 then flag OR TCPF_ECE else flag);
          flag = (if bit f 7 then flag OR TCPF_CWR else flag)
      in flag)"

text \<open>\<open>st\<close> is the number of the connection state.\<close>

definition tcp_toConnInfo :: "session_info \<Rightarrow> byte \<Rightarrow> int \<Rightarrow> packet option \<Rightarrow> conn_info \<Rightarrow> conn_info" where
  "tcp_toConnInfo s st sz ip info =
     (let info1 = (toConnInfo s sz ip info)\<lparr>ci_state := st\<rparr>
      in case ip of
           None \<Rightarrow> info1
         | Some p \<Rightarrow> info1\<lparr>ci_flag := report_flags (tcp_flags p) (ci_flag info1)\<rparr>)"

text \<open>A TCP session as the base class sees it, and \<^verbatim>\<open>UDPSession::toConnInfo\<close>.\<close>

definition tcp_session_info :: "u32 \<Rightarrow> int \<Rightarrow> session \<Rightarrow> session_info" where
  "tcp_session_info i uid s =
     \<lparr>si_id = i, si_uid = uid, si_protocol = PROTO_TCP, si_destAddr = mDestAddr s, si_destPort = mDestPort s,
      si_accept = mTotalAccept s, si_back = mTotalBack s, si_sent = mTotalSent s, si_recv = mTotalRecv s\<rparr>"

definition udp_session_info :: "u32 \<Rightarrow> int \<Rightarrow> udp_session \<Rightarrow> session_info" where
  "udp_session_info i uid s =
     \<lparr>si_id = i, si_uid = uid, si_protocol = uProtocol s, si_destAddr = uDestAddr s, si_destPort = uDestPort s,
      si_accept = uTotalAccept s, si_back = uTotalBack s, si_sent = uTotalSent s, si_recv = uTotalRecv s\<rparr>"

definition udp_toConnInfo :: "u32 \<Rightarrow> int \<Rightarrow> udp_session \<Rightarrow> int \<Rightarrow> packet option \<Rightarrow> conn_info \<Rightarrow> conn_info" where
  "udp_toConnInfo i uid s sz ip info =
     (toConnInfo (udp_session_info i uid s) sz ip info)\<lparr>ci_state := (if udp_hasClosed s then 0 else 1)\<rparr>"

section \<open>The flags\<close>

lemma report_flags_byte: "report_flags f 0 = ucast f"
proof (rule bit_eqI)
  fix n :: nat
  assume "possible_bit TYPE(u32) n"
  have c: "TCPF_FIN = 2 ^ 0" "TCPF_SYN = 2 ^ 1" "TCPF_RST = 2 ^ 2" "TCPF_PSH = 2 ^ 3"
    "TCPF_ACK = 2 ^ 4" "TCPF_URG = 2 ^ 5" "TCPF_ECE = 2 ^ 6" "TCPF_CWR = 2 ^ 7"
    by (simp_all add: tcpf_defs)
  have o: "bit (if b then g OR 2 ^ k else g) n \<longleftrightarrow> bit g n \<or> b \<and> n = k"
    if "k < 32" for b k and g :: u32
    using that by (auto simp: bit_or_iff bit_exp_iff possible_bit_word)
  have "bit (report_flags f 0) n \<longleftrightarrow> n < 8 \<and> bit f n"
    unfolding report_flags_def Let_def c by (simp add: o) (auto simp: less_Suc_eq numeral_eq_Suc)
  then show "bit (report_flags f 0) n \<longleftrightarrow> bit (ucast f :: u32) n"
    by (auto simp: bit_ucast_iff dest: bit_imp_le_length)
qed

section \<open>The events for the user interface\<close>

text \<open>
  \<^verbatim>\<open>traffic/TrafficMgr.cpp\<close>: the numbers of the events it registers for in its constructor, and its handler, which passes the report on
  to Java and deletes it. Other events are left alone.
\<close>

definition CONN_BORN_ID :: int where "CONN_BORN_ID = 1001"

definition traffic_events :: "int list" where
  "traffic_events = map (\<lambda>k. CONN_BORN_ID + int k) [0, 1, 2, 3, 4, 5, 6]"

definition traffic_onEvent :: "int \<Rightarrow> conn_info \<Rightarrow> (int \<times> conn_info) list" where
  "traffic_onEvent i info = (if i \<in> set traffic_events then [(i, info)] else [])"

text \<open>
  The report of a packet has the flags of its TCP header, the size of its data, the counters and the state of the session, and a text of
  its remote address from which the address can be read back.
\<close>

theorem tcp_report_faithful:
  "let r = tcp_toConnInfo (tcp_session_info i uid s) st sz (Some p) conn_info0
   in ci_flag r = ucast (tcp_flags p) \<and> ci_size r = word_of_int (getPayloadLen p) \<and> ci_state r = st
      \<and> ci_accept r = ucast (mTotalAccept s) \<and> ci_back r = ucast (mTotalBack s)
      \<and> ci_sent r = ucast (mTotalSent s) \<and> ci_recv r = ucast (mTotalRecv s) \<and> IPStr2Int (ci_dest r) = mDestAddr s"
  by (simp add: tcp_toConnInfo_def toConnInfo_def conn_info0_def report_flags_byte tcp_session_info_def Let_def IPInt2Str_fits IPStr2Int_dotted)

end
