(* ===== verification/Bridge.thy ===== *)
theory Bridge
  imports Report "HOL-Library.Monad_Syntax"
begin

text \<open>
  \<^verbatim>\<open>bridge/JniBridge.h\<close> and \<^verbatim>\<open>bridge/JniBridge.cpp\<close>: the calls from the native code into Java. What the Java virtual machine answers is an
  argument; its rules are the model: a function of JNI may not be called while an exception is pending (apart from those that handle
  it), \<^verbatim>\<open>GetStringUTFChars\<close> needs a string, and a null \<^verbatim>\<open>JavaVM\<close> cannot be asked. \<^term>\<open>None\<close> is a call against these rules. The machine
  is assumed to have the memory for the strings made here.
\<close>

section \<open>The state\<close>

datatype java_call =
    Protect int
  | GetAppName int
  | OnConnInfo int conn_info
  | QueryControlStrategy int int string int byte string

datatype jni_state = JNI_OK | JNI_EDETACHED | JNI_EVERSION

text \<open>
  The virtual machine as the calling thread sees it: the answer of \<^verbatim>\<open>GetEnv\<close>, whether attaching would succeed, whether an exception is
  pending, the references and character arrays that are not released, and the calls it got. Then the static fields of \<^verbatim>\<open>JniBridge\<close>.
\<close>

record jvm =
  jState :: jni_state
  jAttach :: bool
  jPending :: bool
  jLocals :: nat
  jGlobals :: nat
  jChars :: nat
  jCalls :: "java_call list"

record bridge = jvm +
  sVM :: bool
  sJInstance :: "nat option"
  sMidProtect :: bool
  sMidGetAppName :: bool
  sMidOnConnInfo :: bool
  sMidQueryControlStrategy :: bool

text \<open>An answer of Java: whether it threw, and the value that came back, which means nothing when it did.\<close>

type_synonym 'a answer = "bool \<times> 'a"

section \<open>The virtual machine\<close>

definition java_do :: "java_call \<Rightarrow> 'a answer \<Rightarrow> bridge \<Rightarrow> ('a \<times> bridge) option" where
  "java_do c ans s =
     (if jPending s then None else Some (snd ans, s\<lparr>jCalls := jCalls s @ [c], jPending := fst ans\<rparr>))"

definition newLocal :: "bridge \<Rightarrow> bridge option" where
  "newLocal s = (if jPending s then None else Some (s\<lparr>jLocals := jLocals s + 1\<rparr>))"

definition deleteLocal :: "bridge \<Rightarrow> bridge option" where
  "deleteLocal s = (if jLocals s = 0 then None else Some (s\<lparr>jLocals := jLocals s - 1\<rparr>))"

text \<open>\<^verbatim>\<open>GetStaticMethodID\<close> throws when there is no such method.\<close>

definition getMethod :: "bool \<Rightarrow> bridge \<Rightarrow> (bool \<times> bridge) option" where
  "getMethod found s = (if jPending s then None else Some (found, s\<lparr>jPending := \<not> found\<rparr>))"

section \<open>The bridge\<close>

text \<open>\<^verbatim>\<open>getEnv\<close>: the result tells whether it is a pointer. \<^verbatim>\<open>GetEnv\<close> sets the pointer only when it answers \<^verbatim>\<open>JNI_OK\<close>.\<close>

definition getEnv :: "bridge \<Rightarrow> (bool \<times> bridge) option" where
  "getEnv s =
     (if \<not> sVM s then None
      else
        (let env = (jState s = JNI_OK)
         in if jState s = JNI_EDETACHED \<or> \<not> env
            then (if jAttach s then Some (True, s\<lparr>jState := JNI_OK\<rparr>) else Some (False, s))
            else if jState s = JNI_EVERSION then Some (False, s)
            else Some (env, s)))"

text \<open>\<^verbatim>\<open>checkException\<close> computes \<^verbatim>\<open>ret\<close> and returns 0.\<close>

definition checkException :: "bridge \<Rightarrow> (int \<times> bridge) option" where
  "checkException s =
     do { (env, s1) \<leftarrow> getEnv s;
          if \<not> env then Some (1, s1)
          else if jPending s1
          then do { s2 \<leftarrow> deleteLocal (s1\<lparr>jLocals := jLocals s1 + 1, jPending := False\<rparr>); Some (0, s2) }
          else Some (0, s1) }"

definition setVM :: "bridge \<Rightarrow> bridge" where
  "setVM s = s\<lparr>sVM := True\<rparr>"

definition lookup_method :: "bool \<Rightarrow> (bool \<Rightarrow> bridge \<Rightarrow> bridge) \<Rightarrow> bridge \<Rightarrow> bridge option" where
  "lookup_method found keep s =
     do { (m, s1) \<leftarrow> getMethod found s;
          (r, s2) \<leftarrow> checkException (keep m s1);
          Some s2 }"

definition setBridge :: "nat \<Rightarrow> bool \<Rightarrow> bool \<Rightarrow> bool \<Rightarrow> bool \<Rightarrow> bridge \<Rightarrow> bridge option" where
  "setBridge ins protect appName onConn query s =
     (if sJInstance s \<noteq> None then Some s
      else
        do { let s1 = s\<lparr>sJInstance := Some ins, jGlobals := jGlobals s + 1\<rparr>;
             s2 \<leftarrow> lookup_method protect (\<lambda>m s. s\<lparr>sMidProtect := m\<rparr>) s1;
             s3 \<leftarrow> lookup_method appName (\<lambda>m s. s\<lparr>sMidGetAppName := m\<rparr>) s2;
             s4 \<leftarrow> lookup_method onConn (\<lambda>m s. s\<lparr>sMidOnConnInfo := m\<rparr>) s3;
             lookup_method query (\<lambda>m s. s\<lparr>sMidQueryControlStrategy := m\<rparr>) s4 })"

definition protectSock :: "int \<Rightarrow> int answer \<Rightarrow> bridge \<Rightarrow> (int \<times> bridge) option" where
  "protectSock socket ans s =
     (if \<not> sVM s \<or> sJInstance s = None \<or> \<not> sMidProtect s then Some (1, s)
      else if socket < 0 then Some (1, s)
      else
        do { (env, s1) \<leftarrow> getEnv s;
             if \<not> env then Some (1, s1)
             else do { (ret, s2) \<leftarrow> java_do (Protect socket) ans s1;
                       (e, s3) \<leftarrow> checkException s2;
                       Some (if ret \<noteq> 0 then 1 else 0, s3) } })"

text \<open>The answer of \<^verbatim>\<open>getAppName\<close> is a string or \<^verbatim>\<open>null\<close>, and no string when Java threw; the characters are copied and not released.\<close>

definition getAppName :: "int \<Rightarrow> string option answer \<Rightarrow> bridge \<Rightarrow> (string option \<times> bridge) option" where
  "getAppName uid ans s =
     (if \<not> sVM s \<or> sJInstance s = None then Some (None, s)
      else if uid < 0 then Some (None, s)
      else
        do { (env, s1) \<leftarrow> getEnv s;
             if \<not> env then Some (None, s1)
             else if \<not> sMidGetAppName s1 then Some (None, s1)
             else do { (ret, s2) \<leftarrow> java_do (GetAppName uid) ans s1;
                       (e, s3) \<leftarrow> checkException (if ret = None then s2 else s2\<lparr>jLocals := jLocals s2 + 1\<rparr>);
                       name \<leftarrow> (if fst ans then None else ret);
                       s4 \<leftarrow> (if jPending s3 then None else Some (s3\<lparr>jChars := jChars s3 + 1\<rparr>));
                       (e2, s5) \<leftarrow> checkException s4;
                       s6 \<leftarrow> deleteLocal s5;
                       Some (Some name, s6) } })"

definition notifyConnInfo :: "int \<Rightarrow> conn_info \<Rightarrow> int answer \<Rightarrow> bridge \<Rightarrow> (int \<times> bridge) option" where
  "notifyConnInfo event info ans s =
     (if \<not> sVM s \<or> sJInstance s = None \<or> \<not> sMidOnConnInfo s then Some (1, s)
      else
        do { (env, s1) \<leftarrow> getEnv s;
             if \<not> env then Some (1, s1)
             else do { s2 \<leftarrow> newLocal s1;
                       (ret, s3) \<leftarrow> java_do (OnConnInfo event info) ans s2;
                       s4 \<leftarrow> deleteLocal s3;
                       (e, s5) \<leftarrow> checkException s4;
                       Some (ret, s5) } })"

definition queryControlStrategy ::
  "int \<Rightarrow> int \<Rightarrow> string \<Rightarrow> int \<Rightarrow> byte \<Rightarrow> string \<Rightarrow> int answer \<Rightarrow> bridge \<Rightarrow> (int \<times> bridge) option" where
  "queryControlStrategy uid ipver ip port protocol dns ans s =
     (if \<not> sVM s \<or> sJInstance s = None \<or> \<not> sMidQueryControlStrategy s then Some (1, s)
      else
        do { (env, s1) \<leftarrow> getEnv s;
             if \<not> env then Some (1, s1)
             else do { s2 \<leftarrow> newLocal s1;
                       s3 \<leftarrow> newLocal s2;
                       (ret, s4) \<leftarrow> java_do (QueryControlStrategy uid ipver ip port protocol dns) ans s3;
                       s5 \<leftarrow> deleteLocal s4;
                       s6 \<leftarrow> deleteLocal s5;
                       (e, s7) \<leftarrow> checkException s6;
                       Some (ret, s7) } })"


section \<open>All uses of the bridge\<close>

text \<open>
  The calls in any order, from any thread: \<open>B_thread\<close> is the change to a thread that is attached or not, and \<open>B_setBridge\<close> comes from Java, so
  its thread is attached.
\<close>

datatype bridge_call =
    B_thread jni_state bool
  | B_setBridge nat bool bool bool bool
  | B_protect int "int answer"
  | B_appName int "string option answer"
  | B_notify int conn_info "int answer"
  | B_query int int string int byte string "int answer"

definition bridge_new :: "jni_state \<Rightarrow> bool \<Rightarrow> bridge" where
  "bridge_new st att =
     \<lparr>jState = st, jAttach = att, jPending = False, jLocals = 0, jGlobals = 0, jChars = 0, jCalls = [], sVM = False,
      sJInstance = None, sMidProtect = False, sMidGetAppName = False, sMidOnConnInfo = False, sMidQueryControlStrategy = False\<rparr>"

fun bridge_step :: "bridge_call \<Rightarrow> bridge \<Rightarrow> bridge option" where
  "bridge_step (B_thread st att) s = Some (s\<lparr>jState := st, jAttach := att\<rparr>)"
| "bridge_step (B_setBridge ins p a c q) s = setBridge ins p a c q (s\<lparr>jState := JNI_OK\<rparr>)"
| "bridge_step (B_protect socket ans) s = map_option snd (protectSock socket ans s)"
| "bridge_step (B_appName uid ans) s = map_option snd (getAppName uid ans s)"
| "bridge_step (B_notify event info ans) s = map_option snd (notifyConnInfo event info ans s)"
| "bridge_step (B_query uid v ip port pr dns ans) s = map_option snd (queryControlStrategy uid v ip port pr dns ans s)"

fun bridge_run :: "bridge_call list \<Rightarrow> bridge \<Rightarrow> bridge option" where
  "bridge_run [] s = Some s"
| "bridge_run (c # cs) s = do { s1 \<leftarrow> bridge_step c s; bridge_run cs s1 }"

definition name_calls :: "bridge \<Rightarrow> nat" where
  "name_calls s = length (filter (\<lambda>c. \<exists>uid. c = GetAppName uid) (jCalls s))"

definition bridge_inv :: "bridge \<Rightarrow> bool" where
  "bridge_inv s \<longleftrightarrow> sVM s \<and> \<not> jPending s \<and> jLocals s = 0 \<and> jGlobals s = (if sJInstance s = None then 0 else 1)
     \<and> jChars s = name_calls s"

lemmas java_defs = java_do_def newLocal_def deleteLocal_def

text \<open>On an attached thread the exception is cleared, and looking up a method only stores it.\<close>

lemma getEnv_attached [simp]: "sVM s \<Longrightarrow> jState s = JNI_OK \<Longrightarrow> getEnv s = Some (True, s)"
  by (simp add: getEnv_def)

lemma checkException_attached [simp]:
  "sVM s \<Longrightarrow> jState s = JNI_OK \<Longrightarrow> checkException s = Some (0, s\<lparr>jPending := False\<rparr>)"
  by (cases s) (simp add: checkException_def deleteLocal_def)

lemma lookup_attached [simp]:
  assumes "sVM s" "jState s = JNI_OK" "\<not> jPending s"
    and "\<And>m t. sVM t \<Longrightarrow> sVM (keep m t)" "\<And>m t. jState t = JNI_OK \<Longrightarrow> jState (keep m t) = JNI_OK"
  shows "lookup_method found keep s = Some ((keep found (s\<lparr>jPending := \<not> found\<rparr>))\<lparr>jPending := False\<rparr>)"
  using assms by (simp add: lookup_method_def getMethod_def)

text \<open>Without one, either the thread is attached or the call ends.\<close>

lemma getEnv_cases:
  assumes "sVM s"
  obtains "getEnv s = Some (True, s\<lparr>jState := JNI_OK\<rparr>)" | "getEnv s = Some (False, s)"
proof -
  have "getEnv s = Some (True, s\<lparr>jState := JNI_OK\<rparr>) \<or> getEnv s = Some (False, s)"
    using assms by (cases "jState s") (auto simp: getEnv_def)
  then show ?thesis using that by blast
qed

text \<open>
  The only call that goes wrong is \<^verbatim>\<open>getAppName\<close>, when it reaches Java (on an attached thread, with the class and the method known) and
  Java throws or gives no string.
\<close>

fun call_fatal :: "bridge_call \<Rightarrow> bridge \<Rightarrow> bool" where
  "call_fatal (B_appName uid ans) s \<longleftrightarrow> (fst ans \<or> snd ans = None)
     \<and> sJInstance s \<noteq> None \<and> sMidGetAppName s \<and> 0 \<le> uid \<and> (jState s = JNI_OK \<or> jAttach s)"
| "call_fatal _ s \<longleftrightarrow> False"

fun run_fatal :: "bridge_call list \<Rightarrow> bridge \<Rightarrow> bool" where
  "run_fatal [] s \<longleftrightarrow> False"
| "run_fatal (c # cs) s \<longleftrightarrow> call_fatal c s \<or> (case bridge_step c s of None \<Rightarrow> False | Some s1 \<Rightarrow> run_fatal cs s1)"

lemma app_name_cases:
  assumes inv: "bridge_inv s"
  shows "if call_fatal (B_appName uid ans) s then getAppName uid ans s = None
    else (\<exists>r s'. getAppName uid ans s = Some (r, s') \<and> bridge_inv s')"
proof (cases "sVM s \<and> sJInstance s \<noteq> None \<and> 0 \<le> uid \<and> sMidGetAppName s \<and> (jState s = JNI_OK \<or> jAttach s)")
  case False
  then show ?thesis using inv
    by (auto simp: getAppName_def getEnv_def bridge_inv_def name_calls_def Let_def)
next
  case True
  then have "getEnv s = Some (True, s\<lparr>jState := JNI_OK\<rparr>)" by (cases "jState s") (auto simp: getEnv_def)
  then show ?thesis using inv True
    by (cases ans; cases "snd ans") (auto simp: getAppName_def java_defs bridge_inv_def name_calls_def)
qed

lemma bridge_step_cases:
  assumes "bridge_inv s"
  shows "if call_fatal c s then bridge_step c s = None else (\<exists>s'. bridge_step c s = Some s' \<and> bridge_inv s')"
proof -
  have vm: "sVM s" using assms(1) by (simp add: bridge_inv_def)
  show ?thesis
  proof (cases c)
    case (B_setBridge ins p a c q)
    then show ?thesis
      using assms by (auto simp: bridge_inv_def name_calls_def setBridge_def Let_def)
  next
    case (B_protect socket ans)
    then show ?thesis
      using assms by (cases rule: getEnv_cases [OF vm]) (auto simp: bridge_inv_def name_calls_def protectSock_def java_defs)
  next
    case (B_appName uid ans)
    then show ?thesis using app_name_cases [OF assms, of uid ans] by (auto split: if_splits simp del: call_fatal.simps)
  next
    case (B_notify event info ans)
    then show ?thesis
      using assms by (cases rule: getEnv_cases [OF vm]) (auto simp: bridge_inv_def name_calls_def notifyConnInfo_def java_defs)
  next
    case (B_query uid v ip port pr dns ans)
    then show ?thesis
      using assms by (cases rule: getEnv_cases [OF vm]) (auto simp: bridge_inv_def name_calls_def queryControlStrategy_def java_defs)
  qed (use assms in \<open>auto simp: bridge_inv_def name_calls_def\<close>)
qed

lemma bridge_run_cases:
  "bridge_inv s \<Longrightarrow> if run_fatal cs s then bridge_run cs s = None else (\<exists>s'. bridge_run cs s = Some s' \<and> bridge_inv s')"
proof (induction cs arbitrary: s)
  case (Cons c cs)
  show ?case
  proof (cases "call_fatal c s")
    case True
    then show ?thesis using bridge_step_cases [OF Cons.prems, of c] by simp
  next
    case False
    then obtain s1 where "bridge_step c s = Some s1" "bridge_inv s1" using bridge_step_cases [OF Cons.prems, of c] by auto
    with Cons.IH False show ?thesis by simp
  qed
qed simp




text \<open>Without a name there is nothing to copy: a user Java does not know, or an exception in \<^verbatim>\<open>getAppName\<close>, ends the process.\<close>

lemma app_name_fatal:
  assumes "bridge_inv s" "sJInstance s \<noteq> None" "sMidGetAppName s" "jState s = JNI_OK" "0 \<le> uid"
  shows "getAppName uid (thrown, None) s = None" "getAppName uid (True, ret) s = None"
  using assms by (auto simp: bridge_inv_def getAppName_def java_defs)

text \<open>
  A socket counts as protected when Java answered 0 for this socket. The exception is not looked at: the 0 that comes back with one counts too.
\<close>

lemma protect_answer:
  assumes "protectSock socket ans s = Some (0, s')"
  shows "jCalls s' = jCalls s @ [Protect socket] \<and> snd ans = 0"
proof -
  have vm: "sVM s" using assms by (simp add: protectSock_def split: if_splits)
  have pending: "\<not> jPending s" if "getEnv s = Some (True, s\<lparr>jState := JNI_OK\<rparr>)"
    using assms that by (simp add: protectSock_def java_do_def split: if_splits)
  from vm show ?thesis
    by (cases rule: getEnv_cases) (use assms pending vm in \<open>auto simp: protectSock_def java_do_def split: if_splits\<close>)
qed

lemma protect_exception_ignored:
  assumes "bridge_inv s" "sJInstance s \<noteq> None" "sMidProtect s" "jState s = JNI_OK" "0 \<le> socket"
  shows "map_option fst (protectSock socket (True, 0) s) = Some 0"
  using assms by (auto simp: bridge_inv_def protectSock_def java_defs)

section \<open>The reports in Java\<close>

text \<open>\<^verbatim>\<open>TrafficMgr::onEvent\<close> with the bridge, and its calls for a sequence of events.\<close>

definition traffic_deliver :: "int \<Rightarrow> conn_info \<Rightarrow> int answer \<Rightarrow> bridge \<Rightarrow> bridge option" where
  "traffic_deliver i info ans s =
     (case traffic_onEvent i info of
        [] \<Rightarrow> Some s
      | (event, report) # rest \<Rightarrow> map_option snd (notifyConnInfo event report ans s))"

fun deliver_all :: "((int \<times> conn_info) \<times> int answer) list \<Rightarrow> bridge \<Rightarrow> bridge option" where
  "deliver_all [] s = Some s"
| "deliver_all (((i, info), ans) # es) s = do { s1 \<leftarrow> traffic_deliver i info ans s; deliver_all es s1 }"

definition bridge_ready :: "bridge \<Rightarrow> bool" where
  "bridge_ready s \<longleftrightarrow> bridge_inv s \<and> sJInstance s \<noteq> None \<and> sMidOnConnInfo s \<and> jState s = JNI_OK"

lemma deliver_ready:
  assumes "bridge_ready s"
  shows "\<exists>s'. traffic_deliver i info ans s = Some s' \<and> bridge_ready s'
    \<and> jCalls s' = jCalls s @ (if i \<in> set traffic_events then [OnConnInfo i info] else [])"
  using assms by (auto simp: traffic_deliver_def traffic_onEvent_def bridge_ready_def bridge_inv_def name_calls_def
      notifyConnInfo_def java_defs)

text \<open>
  On an attached thread Java hears of every connection event that is delivered, once and in order and with the report that came
  with it, whatever it answers and even when it throws; other events are not passed on.
\<close>

theorem java_hears_reports:
  assumes "bridge_ready s"
  shows "\<exists>s'. deliver_all es s = Some s' \<and> bridge_ready s'
    \<and> jCalls s' = jCalls s @ map (\<lambda>e. OnConnInfo (fst (fst e)) (snd (fst e))) (filter (\<lambda>e. fst (fst e) \<in> set traffic_events) es)"
  using assms
proof (induction es arbitrary: s)
  case (Cons e es)
  obtain i info ans where e: "e = ((i, info), ans)" by (metis prod.collapse)
  from deliver_ready [OF Cons.prems, of i info ans] obtain s1 where
    s1: "traffic_deliver i info ans s = Some s1" "bridge_ready s1"
      "jCalls s1 = jCalls s @ (if i \<in> set traffic_events then [OnConnInfo i info] else [])" by blast
  from Cons.IH [OF s1(2)] s1 e show ?case by auto
qed simp

definition sample_bridge :: bridge where
  "sample_bridge = (bridge_new JNI_OK True)\<lparr>sVM := True, sJInstance := Some 1, jGlobals := 1, sMidOnConnInfo := True\<rparr>"

lemma java_hears_reports_witness:
  "\<exists>s'. deliver_all [((1001, conn_info0), (True, 0)), ((7, conn_info0), (False, 0)), ((1002, conn_info0), (False, 1))] sample_bridge = Some s'
     \<and> bridge_ready s' \<and> jCalls s' = [OnConnInfo 1001 conn_info0, OnConnInfo 1002 conn_info0]"
  using java_hears_reports [of sample_bridge "[((1001, conn_info0), (True, 0)), ((7, conn_info0), (False, 0)), ((1002, conn_info0), (False, 1))]"]
  by (simp add: bridge_ready_def bridge_inv_def sample_bridge_def bridge_new_def name_calls_def traffic_events_def CONN_BORN_ID_def)

end
