(* ===== verification/Iface.thy ===== *)
theory Iface
  imports Config Bridge
begin

text \<open>
  \<^verbatim>\<open>VpnIface.cpp\<close>: the functions Java calls. \<^verbatim>\<open>setConfig\<close> fills the table of settings. \<^verbatim>\<open>start\<close> makes the router, stays in its event loop and
  deletes it; \<^verbatim>\<open>stop\<close> is called on another thread meanwhile. Both use the variable \<^verbatim>\<open>sRouter\<close> without a lock, so they are small steps here
  that the threads take in any order.
\<close>

section \<open>Settings\<close>

definition key_of_int :: "int \<Rightarrow> key option" where
  "key_of_int k =
     (if 0 \<le> k \<and> k < 9
      then Some ([SK_LOG_LEVEL, SK_PROXY_ADDR, SK_PROXY_PORT, SK_SOCKS5_VERIFY_METHOD, SK_SOCKS5_USERNAME, SK_SOCKS5_PASSWORD,
                  SK_PROXY_IPVER, SK_PROXY_DNS_SERVER, SK_CAPTURE_DIRECTORY] ! nat k)
      else None)"

text \<open>A key without a name is stored as well, but nothing ever reads it. A null string is against the rules of JNI.\<close>

definition setConfig :: "bool \<Rightarrow> int \<Rightarrow> string option \<Rightarrow> settings \<Rightarrow> (int \<times> settings) option" where
  "setConfig lock k value s =
     (case value of
        None \<Rightarrow> None
      | Some v \<Rightarrow> Some (case key_of_int k of Some key \<Rightarrow> setSetting lock key v s | None \<Rightarrow> (if lock then 0 else 3, s)))"

text \<open>\<open>prop\<close> is \<^verbatim>\<open>__system_property_get\<close>.\<close>

definition getSystemProperty :: "(string \<Rightarrow> string) \<Rightarrow> string option \<Rightarrow> string option" where
  "getSystemProperty prop k = map_option prop k"

definition JNI_OnLoad :: "bridge \<Rightarrow> int \<times> bridge" where
  "JNI_OnLoad s = (0x00010006, setVM s)"

section \<open>Start and stop\<close>

text \<open>
  What the threads share: \<^verbatim>\<open>sRouter\<close>, the routers that are not deleted, those that were told to stop, and the next free one.
\<close>

record iface =
  sRouter :: "nat option"
  iAlive :: "nat list"
  iTold :: "nat list"
  iFresh :: nat

definition iface_new :: iface where
  "iface_new = \<lparr>sRouter = None, iAlive = [], iTold = [], iFresh = 0\<rparr>"

text \<open>Where a thread is; \<open>P_loop\<close> is in the event loop of a router, \<open>P_clear\<close> between the \<^verbatim>\<open>delete\<close> and the assignment of \<^verbatim>\<open>SAFE_DELETE\<close>.\<close>

datatype iface_pc = P_start | P_new | P_run | P_loop nat | P_delete | P_clear | P_stop | P_call | P_done int

text \<open>
  One step of a thread. \<open>fails\<close> is a failure of the kernel: of the set-up, of the event loop, of writing the stop command. A router that is
  used after it is deleted is \<^term>\<open>None\<close>.
\<close>

definition router_used :: "(nat \<Rightarrow> iface_pc \<times> iface) \<Rightarrow> iface \<Rightarrow> (iface_pc \<times> iface) option" where
  "router_used f s = (case sRouter s of None \<Rightarrow> None | Some r \<Rightarrow> if r \<in> set (iAlive s) then Some (f r) else None)"

fun iface_step :: "bool \<Rightarrow> iface_pc \<Rightarrow> iface \<Rightarrow> (iface_pc \<times> iface) option" where
  "iface_step fails P_start s = Some (if sRouter s = None then P_new else P_done 1, s)"
| "iface_step fails P_new s =
     Some (P_run, s\<lparr>sRouter := Some (iFresh s), iAlive := iFresh s # iAlive s, iFresh := iFresh s + 1\<rparr>)"
| "iface_step fails P_run s = router_used (\<lambda>r. (if fails then P_delete else P_loop r, s)) s"
| "iface_step fails (P_loop r) s =
     (if r \<in> set (iAlive s) then Some (if fails \<or> r \<in> set (iTold s) then P_delete else P_loop r, s) else None)"
| "iface_step fails P_delete s =
     (if sRouter s = None then Some (P_done 0, s)
      else router_used (\<lambda>r. (P_clear, s\<lparr>iAlive := removeAll r (iAlive s)\<rparr>)) s)"
| "iface_step fails P_clear s = Some (P_done 0, s\<lparr>sRouter := None\<rparr>)"
| "iface_step fails P_stop s = Some (if sRouter s = None then P_done 0 else P_call, s)"
| "iface_step fails P_call s =
     router_used (\<lambda>r. if fails then (P_done 1, s) else (P_done 0, s\<lparr>iTold := r # iTold s\<rparr>)) s"
| "iface_step fails (P_done ret) s = Some (P_done ret, s)"

text \<open>A schedule names the thread of each step, and whether the kernel fails in it.\<close>

fun iface_run :: "(nat \<times> bool) list \<Rightarrow> iface_pc list \<Rightarrow> iface \<Rightarrow> (iface_pc list \<times> iface) option" where
  "iface_run [] ps s = Some (ps, s)"
| "iface_run ((t, fails) # sched) ps s =
     (if t < length ps
      then (case iface_step fails (ps ! t) s of
              None \<Rightarrow> None
            | Some (p, s1) \<Rightarrow> iface_run sched (ps[t := p]) s1)
      else None)"

section \<open>One start and one stop\<close>

text \<open>What holds between the steps, \<open>p\<close> of the starting and \<open>q\<close> of the stopping thread.\<close>

fun stop_phase :: "nat \<Rightarrow> iface_pc \<Rightarrow> iface \<Rightarrow> bool" where
  "stop_phase r (P_done ret) s \<longleftrightarrow> iTold s = [] \<or> iTold s = [r]"
| "stop_phase r q s \<longleftrightarrow> (q = P_stop \<or> q = P_call) \<and> iTold s = []"

fun start_phase :: "iface_pc \<Rightarrow> iface_pc \<Rightarrow> iface \<Rightarrow> bool" where
  "start_phase (P_loop r) q s \<longleftrightarrow> sRouter s = Some r \<and> iAlive s = [r] \<and> stop_phase r q s"
| "start_phase P_run q s \<longleftrightarrow> (\<exists>r. sRouter s = Some r \<and> iAlive s = [r] \<and> stop_phase r q s)"
| "start_phase P_delete q s \<longleftrightarrow> (\<exists>r. sRouter s = Some r \<and> iAlive s = [r]) \<and> (\<exists>ret. q = P_done ret)"
| "start_phase P_clear q s \<longleftrightarrow> iAlive s = [] \<and> (\<exists>ret. q = P_done ret)"
| "start_phase (P_done ret) q s \<longleftrightarrow> ret = 0 \<and> sRouter s = None \<and> iAlive s = [] \<and> (\<exists>ret. q = P_done ret)"
| "start_phase p q s \<longleftrightarrow> (p = P_start \<or> p = P_new) \<and> sRouter s = None \<and> iAlive s = [] \<and> iTold s = []
     \<and> (q = P_stop \<or> (\<exists>ret. q = P_done ret))"

lemma start_phase_start_step:
  assumes "start_phase p q s"
  shows "\<exists>p' s'. iface_step False p s = Some (p', s') \<and> start_phase p' q s'"
  using assms by (cases p; cases q) (auto simp: router_used_def)

lemma start_phase_stop_step:
  assumes "start_phase p q s"
  shows "\<exists>q' s'. iface_step f q s = Some (q', s') \<and> start_phase p q' s'"
  using assms by (cases p; cases q) (auto simp: router_used_def)

lemma iface_run_phase:
  assumes "start_phase p q s" "\<forall>(t, f) \<in> set sched. t < 2 \<and> (f \<longrightarrow> t = 1)"
  shows "\<exists>p' q' s'. iface_run sched [p, q] s = Some ([p', q'], s') \<and> start_phase p' q' s'"
  using assms
proof (induction sched arbitrary: p q s)
  case (Cons x sched)
  obtain t f where x: "x = (t, f)" "t = 0 \<and> \<not> f \<or> t = 1" using Cons.prems(2) by (cases x) (auto simp: less_2_cases_iff)
  show ?case
    using start_phase_start_step [OF Cons.prems(1)] start_phase_stop_step [OF Cons.prems(1), of f] Cons.IH Cons.prems(2) x
    by fastforce
qed simp



text \<open>
  What the discipline rules out: a second stop, an event loop that ends by itself while a stop is on its way, and two starts at the same
  time, of which one runs into the router the other has deleted. A router that could not be set up is a success for the caller.
\<close>

lemma second_stop_crashes:
  "iface_run (map (\<lambda>t. (t, False)) [0, 0, 0, 1, 1, 2, 0, 0, 2]) [P_start, P_stop, P_stop] iface_new = None"
  by (simp add: iface_new_def router_used_def)

lemma stop_after_failure_crashes:
  "iface_run [(0, False), (0, False), (0, False), (1, False), (0, True), (0, False), (1, False)] [P_start, P_stop] iface_new = None"
  by (simp add: iface_new_def router_used_def)

lemma two_starts_crash:
  "iface_run (map (\<lambda>t. (t, t = 0)) [0, 1, 0, 1, 0, 1, 0, 1]) [P_start, P_start] iface_new = None"
  by (simp add: iface_new_def router_used_def)

lemma failed_start_succeeds:
  "\<exists>s. iface_run (map (\<lambda>k. (0, True)) [0..<5]) [P_start] iface_new = Some ([P_done 0], s)"
  by (simp add: upt_rec iface_new_def router_used_def)

end
