(* ===== verification/Spec2Isabelle.thy ===== *)
theory Spec2Isabelle
  imports Cipher UidLookup Checksum TCPPacket TCPOwn TCPState TCPStream SocksChannel Tunnel Flows
    RouterLoop Dispatcher Capture PacketText Iface
begin

text \<open>
  \<^bold>\<open>The program.\<close> \<^verbatim>\<open>netcore\<close> is the native part of an Android VPN: it reads the IP packets of all applications from a tun
  device, ends their TCP and UDP connections in user space, and carries the data to the remote hosts over sockets of
  its own, directly or through a SOCKS5 server. All paths below are relative to \<^verbatim>\<open>src/netcore/src/jni\<close>.

  One thread runs the event loop (\<^verbatim>\<open>reactor/EpollReactor\<close>). It calls \<^verbatim>\<open>core/Router\<close> when the tun device can be read or
  written. The router gives each packet to the session of its flow (\<^verbatim>\<open>core/Session\<close>): a \<^verbatim>\<open>core/TCPSession\<close>, a small TCP
  endpoint, or a \<^verbatim>\<open>core/UDPSession\<close>. A session sends through a tunnel (\<^verbatim>\<open>core/ITunnel.h\<close>): \<^verbatim>\<open>core/TCPTunnel\<close> or
  \<^verbatim>\<open>core/proxy/Socks5Proxy\<close>, whose messages \<^verbatim>\<open>core/cipher/Cipher\<close> frames and scrambles. What comes back is put into
  packets, which the session and the router's queue to the device share, and a synchronous event tells the router (\<^verbatim>\<open>core/event\<close>).
  Captured packets are written to a file on a thread of their own (\<^verbatim>\<open>core/PacketCapture\<close>).

  \<^bold>\<open>The model.\<close> Objects are records, handlers are functions from the state to the state; \<^term>\<open>None\<close> stands wherever the C++ code has no
  defined outcome (a freed or null pointer, a second delete, a write outside an array, an overlapping \<^verbatim>\<open>memcpy\<close>) or does not
  return. Answers of the kernel, the clock and random numbers are arguments. Machine integers keep their width; the machine
  is 32-bit and little-endian like the ABIs the program is built for.

  \<^descr> \<open>Prelude\<close>: machine types, bytes, copying into arrays.
  \<^descr> \<open>Segment\<close>: \<^verbatim>\<open>Segment\<close> and \<^verbatim>\<open>BufferSegment\<close> of \<^verbatim>\<open>core/BufferQueue\<close>; a segment meets the interface \<open>byte_fifo\<close> of a bounded queue of bytes.
  \<^descr> \<open>Coders\<close>, \<open>Cipher\<close>: \<^verbatim>\<open>core/cipher\<close>; both coders meet the interface \<open>coder\<close>, on which the round trip of streams of frames rests.
  \<^descr> \<open>Utils\<close>, \<open>UidLookup\<close>: \<^verbatim>\<open>utils/Utils\<close>; the lookup of the owner of a connection in \<^verbatim>\<open>/proc/net\<close>.
  \<^descr> \<open>IPAdpt\<close>, \<open>Checksum\<close>: \<^verbatim>\<open>core/IPAdpt\<close>: the accessors of a packet, the search of TCP options, the Internet checksum against RFC 1071.
  \<^descr> \<open>Address\<close>, \<open>PacketText\<close>: decimal numbers and addresses as text, both ways; the text of packets and of DNS messages.
  \<^descr> \<open>TunQueue\<close>: \<^verbatim>\<open>BufferQueue\<close>, \<^verbatim>\<open>TCPDatagram\<close> and the router's queue to the device, on an explicit heap.
  \<^descr> \<open>TCPSession\<close>: every handler of \<^verbatim>\<open>core/TCPSession\<close>. \<open>TCPPacket\<close>: the packets it builds. \<open>TCPOwn\<close>: memory safety and ownership in all runs, through the
    interface \<open>datagram_pool\<close>. \<open>TCPState\<close>: the connection states, through \<open>state_frame\<close>. \<open>TCPStream\<close>: the data path.
  \<^descr> \<open>Socks5\<close>: \<^verbatim>\<open>core/proxy/Socks5Proxy\<close>, with an open client. \<open>SocksRun\<close>: its runs, through \<open>proxy_frame\<close>. \<open>SocksChannel\<close>: sending refines a stream of
    bytes, receiving gives the messages of the server.
  \<^descr> \<open>Tunnel\<close>: \<^verbatim>\<open>core/TCPTunnel\<close>, and the contract \<open>tunnel_contract\<close> of what a session may hear.
  \<^descr> \<open>UDPSession\<close>, \<open>UDPPacket\<close>, \<open>UDPRun\<close>: \<^verbatim>\<open>core/UDPSession\<close>, its packets and its runs.
  \<^descr> \<open>Sessions\<close>, \<open>Routing\<close>, \<open>VpnRun\<close>, \<open>Flows\<close>: \<^verbatim>\<open>core/Session\<close> and \<^verbatim>\<open>core/Router\<close> with both lists of sessions; TCP and UDP sessions meet the interface
    \<open>session_kind\<close>, so that all runs of the whole router are covered by one proof.
  \<^descr> \<open>Reactor\<close>: \<^verbatim>\<open>reactor/EpollReactor\<close> with its stubs on a heap. \<open>ReactorRun\<close>: its runs with arbitrary handlers. \<open>ReactorSpec\<close>: it refines a table of wishes.
    \<open>ReactorStop\<close>: stopping ends the loop. \<open>RouterLoop\<close>: the router's own life on the loop.
  \<^descr> \<open>Dispatcher\<close>: \<^verbatim>\<open>core/event/EventDispatcher.h\<close>, registration and both kinds of dispatch, with the thread as a state machine.
  \<^descr> \<open>Config\<close>: \<^verbatim>\<open>settings/Settings\<close>, through the interface \<open>store\<close>. \<open>Report\<close>: the reports of sessions and their handler in \<^verbatim>\<open>traffic/TrafficMgr\<close>.
  \<^descr> \<open>Capture\<close>: \<^verbatim>\<open>core/PacketCapture\<close> and a reader of its files. \<open>Dns\<close>: the parser of \<^verbatim>\<open>core/Dns\<close>.
  \<^descr> \<open>Bridge\<close>: \<^verbatim>\<open>bridge/JniBridge\<close>, with the rules the Java virtual machine puts on its callers (no call while an exception is pending, no null
    string, no null machine) as undefined outcomes. \<open>Iface\<close>: \<^verbatim>\<open>VpnIface.cpp\<close>, the entry points, with starting and stopping as
    interleaved steps of threads.

  \<^bold>\<open>The properties.\<close> Safety and ownership: in every run of a session, a tunnel, the event loop and the whole router every handler has a
  defined outcome, datagrams are owned by a session or the queue and freed once. Data: the cipher, packets, capture files and names
  round-trip; checksums are valid; accepted data is forwarded in order; what a tunnel sends and receives is a stream of bytes. Control:
  connection states, what a client hears, which session gets a packet, which sessions the clean-up releases, what the reactor
  calls. Some theorems state what the code does although it should not: data lost after reordering, a state left behind by a partial acknowledgement,
  an option search and a writable handler that do not return, a second stop that uses a freed object.

  \<^bold>\<open>Bounds and fuel.\<close> A packet has at most 65535 bytes and a segment at most 524288, as in the code. Loops whose end depends on the kernel
  take the list of its answers. The search of TCP options and the loop of a proxied UDP session may not end; they are
  partial functions and the theorems say when they are \<^term>\<open>None\<close>. The loop over a list of handlers in \<open>Dispatcher\<close> is cut off after
  a number of calls, and the theorem gives the number that is enough. The callbacks of a tunnel nest at most twice, which
  \<open>tell_depth\<close> proves. A DNS name takes at most ten steps because the code counts them.

  \<^bold>\<open>Not modelled.\<close> Logging (its macros, levels and calls), \<^verbatim>\<open>moduleTest\<close> and the tests in \<^verbatim>\<open>core/event\<close>, and the Java side of the application. The
  kernel, the file system, the Java virtual machine and threads outside the dispatcher and \<open>Iface\<close> are only what the arguments of the
  definitions say of them.
\<close>

end
